theory Spec2Isabelle
  imports Main
begin

section \<open>The shared term graph of \<^verbatim>\<open>vatican.cpp\<close>\<close>

text \<open>
  The evaluator works on a heap of \<^verbatim>\<open>Node\<close> objects linked by raw pointers. The
  embedding keeps an explicit store: an address is a natural number, the store maps the
  addresses of live objects to their contents, \<^verbatim>\<open>new Node\<close> takes the next address of
  a counter and \<^verbatim>\<open>delete\<close> removes the address from the store. Reading or writing
  through a pointer to no live object is undefined behaviour in C++; the embedding
  returns the error \<open>Undefined\<close> there. \<^verbatim>\<open>std::abort()\<close> is the error \<open>Abort\<close>.
  Recursion that follows pointers is bounded by a fuel argument; running out of it is
  the error \<open>OutOfFuel\<close>.
\<close>

datatype error = Abort | Undefined | OutOfFuel

type_synonym 'a res = "error + 'a"

definition andthen :: "'a res \<Rightarrow> ('a \<Rightarrow> 'b res) \<Rightarrow> 'b res" where
  "andthen m f = (case m of Inl e \<Rightarrow> Inl e | Inr x \<Rightarrow> f x)"

subsection \<open>Data\<close>

text \<open>\<^verbatim>\<open>enum UplinkType { UPLINK_APPL, UPLINK_APPR, UPLINK_NA }\<close>\<close>

datatype UplinkType = UPLINK_APPL | UPLINK_APPR | UPLINK_NA

text \<open>
  \<^verbatim>\<open>struct Uplink { Node* link; UplinkType type; Uplink* prev; Uplink* next; }\<close>.
  The doubly linked list of a node is the list of its records in order; \<open>uid\<close> is the
  identity of the record (its own address), which the splice loop of \<^verbatim>\<open>beta_reduce\<close>
  holds on to across a removal.
\<close>

record Uplink =
  uid :: nat
  link :: nat
  type :: UplinkType

text \<open>
  The \<^verbatim>\<open>cache\<close> field is a \<^verbatim>\<open>Node*\<close> that holds null, the sentinel
  \<^verbatim>\<open>(Node*)~0\<close> or the address of a node.
\<close>

datatype NodePtr = NULL | STOP | PTR nat

text \<open>
  \<^verbatim>\<open>NodeType\<close> together with the active member of the union:
  \<^verbatim>\<open>AppNode { left; right }\<close>, \<^verbatim>\<open>LambdaNode { body; var }\<close>, \<^verbatim>\<open>VarNode\<close>,
  \<^verbatim>\<open>PrimNode* prim\<close> (an opaque handle of the external primitive object).
\<close>

datatype NodeUnion =
    NODE_APP nat nat
  | NODE_LAMBDA nat nat
  | NODE_VAR
  | NODE_PRIM nat

record Node =
  cache :: NodePtr
  uplinks :: "Uplink list"
  content :: NodeUnion

text \<open>\<^verbatim>\<open>class Head { Node* dummy; }\<close>\<close>

record Head =
  dummy :: nat

record Heap =
  nodes :: "nat \<Rightarrow> Node option"
  next_node :: nat
  next_uplink :: nat

definition empty_heap :: Heap where
  "empty_heap = \<lparr>nodes = (\<lambda>a. None), next_node = 0, next_uplink = 0\<rparr>"

definition deref :: "Heap \<Rightarrow> nat \<Rightarrow> Node res" where
  "deref h a = (case nodes h a of None \<Rightarrow> Inl Undefined | Some nd \<Rightarrow> Inr nd)"

definition store :: "nat \<Rightarrow> Node \<Rightarrow> Heap \<Rightarrow> Heap" where
  "store a nd h = h\<lparr>nodes := (nodes h)(a \<mapsto> nd)\<rparr>"

text \<open>\<^verbatim>\<open>new Node\<close>: the fresh address and the store with the node at it.\<close>

definition new_node :: "Node \<Rightarrow> Heap \<Rightarrow> nat \<times> Heap" where
  "new_node nd h =
     (next_node h, h\<lparr>nodes := (nodes h)(next_node h \<mapsto> nd), next_node := Suc (next_node h)\<rparr>)"

text \<open>\<^verbatim>\<open>delete node\<close>\<close>

definition delete_node :: "nat \<Rightarrow> Heap \<Rightarrow> Heap res" where
  "delete_node a h =
     (case nodes h a of
        None \<Rightarrow> Inl Undefined
      | Some nd \<Rightarrow> Inr (h\<lparr>nodes := (nodes h)(a := None)\<rparr>))"

text \<open>Writing the \<^verbatim>\<open>cache\<close> field of a node.\<close>

definition set_cache :: "nat \<Rightarrow> NodePtr \<Rightarrow> Heap \<Rightarrow> Heap res" where
  "set_cache a c h =
     (case nodes h a of
        None \<Rightarrow> Inl Undefined
      | Some nd \<Rightarrow> Inr (store a (nd\<lparr>cache := c\<rparr>) h))"

text \<open>The number of live nodes: what an allocator counter reports.\<close>

definition node_count :: "Heap \<Rightarrow> nat" where
  "node_count h = length (filter (\<lambda>a. nodes h a \<noteq> None) [0..<next_node h])"

subsection \<open>\<^verbatim>\<open>UplinkSet\<close>\<close>

text \<open>\<^verbatim>\<open>add\<close> appends a new record at the tail of the list of node \<open>c\<close>.\<close>

definition add :: "nat \<Rightarrow> nat \<Rightarrow> UplinkType \<Rightarrow> Heap \<Rightarrow> Heap res" where
  "add c parent t h =
     (case nodes h c of
        None \<Rightarrow> Inl Undefined
      | Some nd \<Rightarrow>
          Inr (h\<lparr>nodes := (nodes h)(c \<mapsto>
                   nd\<lparr>uplinks := uplinks nd @ [\<lparr>uid = next_uplink h, link = parent, type = t\<rparr>]\<rparr>),
                 next_uplink := Suc (next_uplink h)\<rparr>))"

text \<open>
  The search of \<^verbatim>\<open>unlink\<close>: the list without the first record that has this parent
  and this type, or \<open>None\<close> when there is none.
\<close>

fun remove_first :: "nat \<Rightarrow> UplinkType \<Rightarrow> Uplink list \<Rightarrow> Uplink list option" where
  "remove_first parent t [] = None"
| "remove_first parent t (u # us) =
     (if link u = parent \<and> type u = t then Some us
      else (case remove_first parent t us of None \<Rightarrow> None | Some us' \<Rightarrow> Some (u # us')))"

definition unlink :: "nat \<Rightarrow> nat \<Rightarrow> UplinkType \<Rightarrow> Heap \<Rightarrow> Heap res" where
  "unlink c parent t h =
     (case nodes h c of
        None \<Rightarrow> Inl Undefined
      | Some nd \<Rightarrow>
          (case remove_first parent t (uplinks nd) of
             None \<Rightarrow> Inl Abort
           | Some us \<Rightarrow> Inr (store c (nd\<lparr>uplinks := us\<rparr>) h)))"

subsection \<open>The constructors\<close>

definition Var :: "Heap \<Rightarrow> nat \<times> Heap" where
  "Var h = new_node \<lparr>cache = NULL, uplinks = [], content = NODE_VAR\<rparr> h"

definition Fun :: "nat \<Rightarrow> nat \<Rightarrow> Heap \<Rightarrow> (nat \<times> Heap) res" where
  "Fun var body h =
     (case new_node \<lparr>cache = NULL, uplinks = [], content = NODE_LAMBDA body var\<rparr> h of
        (ret, h1) \<Rightarrow> andthen (add body ret UPLINK_NA h1) (\<lambda>h2. Inr (ret, h2)))"

definition App :: "nat \<Rightarrow> nat \<Rightarrow> Heap \<Rightarrow> (nat \<times> Heap) res" where
  "App left right h =
     (case new_node \<lparr>cache = NULL, uplinks = [], content = NODE_APP left right\<rparr> h of
        (ret, h1) \<Rightarrow>
          andthen (add left ret UPLINK_APPL h1) (\<lambda>h2.
          andthen (add right ret UPLINK_APPR h2) (\<lambda>h3. Inr (ret, h3))))"

definition Prim :: "nat \<Rightarrow> Heap \<Rightarrow> nat \<times> Heap" where
  "Prim p h = new_node \<lparr>cache = NULL, uplinks = [], content = NODE_PRIM p\<rparr> h"

text \<open>\<^verbatim>\<open>ret->dummy = Fun(Var(), body)\<close>\<close>

definition make_head :: "nat \<Rightarrow> Heap \<Rightarrow> (Head \<times> Heap) res" where
  "make_head body h =
     (case Var h of
        (v, h1) \<Rightarrow> andthen (Fun v body h1) (\<lambda>(d, h2). Inr (\<lparr>dummy = d\<rparr>, h2)))"

text \<open>\<^verbatim>\<open>ret->dummy = Fun(Var(), other->dummy)\<close>\<close>

definition copy_head :: "Head \<Rightarrow> Heap \<Rightarrow> (Head \<times> Heap) res" where
  "copy_head other h =
     (case Var h of
        (v, h1) \<Rightarrow> andthen (Fun v (dummy other) h1) (\<lambda>(d, h2). Inr (\<lparr>dummy = d\<rparr>, h2)))"

text \<open>
  \<^verbatim>\<open>get_prim\<close> reads two nodes and writes nothing: its result is a value only.
\<close>

definition get_prim :: "Head \<Rightarrow> Heap \<Rightarrow> (nat option) res" where
  "get_prim expr h =
     andthen (deref h (dummy expr)) (\<lambda>d.
       (case content d of
          NODE_LAMBDA body var \<Rightarrow>
            andthen (deref h body) (\<lambda>b.
              (case content b of
                 NODE_PRIM p \<Rightarrow> Inr (Some p)
               | _ \<Rightarrow> Inr None))
        | _ \<Rightarrow> Inr None))"

subsection \<open>\<^verbatim>\<open>upcopy\<close>\<close>

text \<open>
  No call of \<^verbatim>\<open>upcopy\<close> adds or removes an uplink record or releases a node, so the
  list that the closing loop walks (\<^verbatim>\<open>cur = into->uplinks.head; ... cur = cur->next\<close>)
  is the list read at entry. The \<^verbatim>\<open>NODE_PRIM\<close> arm has no \<^verbatim>\<open>break\<close>: after the
  write to the cache, control falls into \<^verbatim>\<open>default: std::abort()\<close>.
\<close>

fun upcopy :: "nat \<Rightarrow> nat \<Rightarrow> nat \<Rightarrow> UplinkType \<Rightarrow> Heap \<Rightarrow> Heap res"
and upcopy_uplinks :: "nat \<Rightarrow> nat \<Rightarrow> Uplink list \<Rightarrow> Heap \<Rightarrow> Heap res" where
  "upcopy 0 newchild into t h = Inl OutOfFuel"
| "upcopy (Suc n) newchild into t h =
     andthen (deref h into) (\<lambda>nd.
       (case content nd of
          NODE_APP left right \<Rightarrow>
            (case cache nd of
               NULL \<Rightarrow>
                 (case new_node \<lparr>cache = NULL, uplinks = [],
                         content = (if t = UPLINK_APPL then NODE_APP newchild right
                                    else NODE_APP left newchild)\<rparr> h of
                    (newNode, h1) \<Rightarrow>
                      andthen (set_cache into (PTR newNode) h1) (\<lambda>h2.
                        upcopy_uplinks n newNode (uplinks nd) h2))
             | PTR newNode \<Rightarrow>
                 andthen (deref h newNode) (\<lambda>c.
                   (case content c of
                      NODE_APP cl cr \<Rightarrow>
                        Inr (store newNode
                               (c\<lparr>content := (if t = UPLINK_APPL then NODE_APP newchild cr
                                               else NODE_APP cl newchild)\<rparr>) h)
                    | _ \<Rightarrow> Inl Undefined))
             | STOP \<Rightarrow> Inl Undefined)
        | NODE_LAMBDA body var \<Rightarrow>
            (if cache nd = STOP then Inr h
             else
               (case new_node \<lparr>cache = NULL, uplinks = [], content = NODE_VAR\<rparr> h of
                  (newVar, h1) \<Rightarrow>
                    (case new_node \<lparr>cache = NULL, uplinks = [],
                            content = NODE_LAMBDA newchild newVar\<rparr> h1 of
                       (newNode, h2) \<Rightarrow>
                         andthen (set_cache into (PTR newNode) h2) (\<lambda>h3.
                         andthen (upcopy n newVar var UPLINK_NA h3) (\<lambda>h4.
                           upcopy_uplinks n newNode (uplinks nd) h4)))))
        | NODE_VAR \<Rightarrow>
            andthen (set_cache into (PTR newchild) h) (\<lambda>h1.
              upcopy_uplinks n newchild (uplinks nd) h1)
        | NODE_PRIM p \<Rightarrow> Inl Abort))"
| "upcopy_uplinks n newNode [] h = Inr h"
| "upcopy_uplinks n newNode (cur # rest) h =
     andthen (upcopy n newNode (link cur) (type cur) h) (\<lambda>h1.
       upcopy_uplinks n newNode rest h1)"

subsection \<open>\<^verbatim>\<open>clear\<close>\<close>

text \<open>
  The loop of \<^verbatim>\<open>clear\<close> reads \<^verbatim>\<open>cur->next\<close> after the body has run, and the body
  appends records (to the children of the copies) but removes none: the record at
  position \<open>i\<close> of the list of \<open>node\<close> stays there, and the next one is the record at
  position \<open>i + 1\<close> of the list as it is then. \<open>clear_from n node i\<close> is the loop with
  \<^verbatim>\<open>cur\<close> at position \<open>i\<close>.
\<close>

fun clear :: "nat \<Rightarrow> nat \<Rightarrow> Heap \<Rightarrow> Heap res"
and clear_from :: "nat \<Rightarrow> nat \<Rightarrow> nat \<Rightarrow> Heap \<Rightarrow> Heap res" where
  "clear 0 node h = Inl OutOfFuel"
| "clear (Suc n) node h = clear_from n node 0 h"
| "clear_from 0 node i h = Inl OutOfFuel"
| "clear_from (Suc n) node i h =
     andthen (deref h node) (\<lambda>nd.
       if length (uplinks nd) \<le> i then Inr h
       else
         andthen (deref h (link (uplinks nd ! i))) (\<lambda>p.
           if cache p = NULL then clear_from n node (Suc i) h
           else
             (case content p of
                NODE_APP left right \<Rightarrow>
                  (case cache p of
                     PTR c \<Rightarrow>
                       andthen (deref h c) (\<lambda>cn.
                         (case content cn of
                            NODE_APP cl cr \<Rightarrow>
                              andthen (add cl c UPLINK_APPL h) (\<lambda>h1.
                              andthen (add cr c UPLINK_APPR h1) (\<lambda>h2.
                              andthen (set_cache (link (uplinks nd ! i)) NULL h2) (\<lambda>h3.
                              andthen (clear n (link (uplinks nd ! i)) h3) (\<lambda>h4.
                                clear_from n node (Suc i) h4))))
                          | _ \<Rightarrow> Inl Undefined))
                   | _ \<Rightarrow> Inl Undefined)
              | NODE_LAMBDA body var \<Rightarrow>
                  (case cache p of
                     PTR c \<Rightarrow>
                       andthen (deref h c) (\<lambda>cn.
                         (case content cn of
                            NODE_LAMBDA cb cv \<Rightarrow>
                              andthen (add cb c UPLINK_NA h) (\<lambda>h1.
                              andthen (set_cache (link (uplinks nd ! i)) NULL h1) (\<lambda>h2.
                              andthen (clear n var h2) (\<lambda>h3.
                              andthen (clear n (link (uplinks nd ! i)) h3) (\<lambda>h4.
                                clear_from n node (Suc i) h4))))
                          | _ \<Rightarrow> Inl Undefined))
                   | _ \<Rightarrow> Inl Undefined)
              | _ \<Rightarrow> Inl Abort)))"

subsection \<open>\<^verbatim>\<open>cleanup\<close>\<close>

text \<open>
  The primitive object released by \<^verbatim>\<open>delete node->prim\<close> belongs to the external
  collaborator and is not part of the store.
\<close>

fun cleanup :: "nat \<Rightarrow> nat \<Rightarrow> Heap \<Rightarrow> Heap res" where
  "cleanup 0 node h = Inl OutOfFuel"
| "cleanup (Suc n) node h =
     andthen (deref h node) (\<lambda>nd.
       if uplinks nd \<noteq> [] then Inr h
       else
         (case content nd of
            NODE_LAMBDA body var \<Rightarrow>
              andthen (unlink body node UPLINK_NA h) (\<lambda>h1.
              andthen (cleanup n body h1) (\<lambda>h2.
                delete_node node h2))
          | NODE_APP left right \<Rightarrow>
              andthen (unlink left node UPLINK_APPL h) (\<lambda>h1.
              andthen (cleanup n left h1) (\<lambda>h2.
              andthen (deref h2 node) (\<lambda>nd2.
                (case content nd2 of
                   NODE_APP left2 right2 \<Rightarrow>
                     andthen (unlink right2 node UPLINK_APPR h2) (\<lambda>h3.
                     andthen (cleanup n right2 h3) (\<lambda>h4.
                       delete_node node h4))
                 | _ \<Rightarrow> Inl Undefined))))
          | NODE_VAR \<Rightarrow> delete_node node h
          | NODE_PRIM p \<Rightarrow> delete_node node h))"

text \<open>\<^verbatim>\<open>cleanup(head->dummy); delete head;\<close>\<close>

definition free_head :: "nat \<Rightarrow> Head \<Rightarrow> Heap \<Rightarrow> Heap res" where
  "free_head n head h = cleanup n (dummy head) h"

subsection \<open>\<^verbatim>\<open>upreplace\<close>\<close>

definition set_content :: "nat \<Rightarrow> NodeUnion \<Rightarrow> Heap \<Rightarrow> Heap res" where
  "set_content a c h =
     (case nodes h a of
        None \<Rightarrow> Inl Undefined
      | Some nd \<Rightarrow> Inr (store a (nd\<lparr>content := c\<rparr>) h))"

text \<open>
  \<open>newchild\<close> is the pointer as the caller has it: \<^verbatim>\<open>beta_reduce\<close> passes what it read
  from a cache, which may be null or the sentinel, and \<^verbatim>\<open>upreplace\<close> dereferences it
  in \<^verbatim>\<open>newchild->uplinks.add\<close>.
\<close>

definition upreplace :: "nat \<Rightarrow> NodePtr \<Rightarrow> nat \<Rightarrow> UplinkType \<Rightarrow> Heap \<Rightarrow> Heap res" where
  "upreplace n newchild into t h =
     andthen (deref h into) (\<lambda>nd.
       (case content nd of
          NODE_APP left right \<Rightarrow>
            (if t = UPLINK_APPL then
               andthen (unlink left into UPLINK_APPL h) (\<lambda>h1.
                 (case newchild of
                    PTR c \<Rightarrow>
                      andthen (set_content into (NODE_APP c right) h1) (\<lambda>h2.
                      andthen (add c into UPLINK_APPL h2) (\<lambda>h3.
                        cleanup n left h3))
                  | _ \<Rightarrow> Inl Undefined))
             else
               andthen (unlink right into UPLINK_APPR h) (\<lambda>h1.
                 (case newchild of
                    PTR c \<Rightarrow>
                      andthen (set_content into (NODE_APP left c) h1) (\<lambda>h2.
                      andthen (add c into UPLINK_APPR h2) (\<lambda>h3.
                        cleanup n right h3))
                  | _ \<Rightarrow> Inl Undefined)))
        | NODE_LAMBDA body var \<Rightarrow>
            andthen (unlink body into UPLINK_NA h) (\<lambda>h1.
              (case newchild of
                 PTR c \<Rightarrow>
                   andthen (set_content into (NODE_LAMBDA c var) h1) (\<lambda>h2.
                   andthen (add c into UPLINK_NA h2) (\<lambda>h3.
                     cleanup n body h3))
               | _ \<Rightarrow> Inl Undefined))
        | _ \<Rightarrow> Inl Abort))"

text \<open>
  The splice loop of \<^verbatim>\<open>beta_reduce\<close> and \<^verbatim>\<open>prim_reduce\<close>:
  \<^verbatim>\<open>while (cur) { Uplink* nexty = cur->next; upreplace(result, cur->link, cur->type); cur = nexty; }\<close>.
  \<open>cur\<close> is the identity of a record of the list of \<open>app\<close>, or \<open>None\<close> for null.
  Reading a record that is no longer in the list reads a deleted object.
\<close>

fun find_uplink :: "nat \<Rightarrow> Uplink list \<Rightarrow> (Uplink \<times> nat option) option" where
  "find_uplink u [] = None"
| "find_uplink u (x # xs) =
     (if uid x = u then Some (x, (case xs of [] \<Rightarrow> None | y # ys \<Rightarrow> Some (uid y)))
      else find_uplink u xs)"

definition uplinks_head :: "Node \<Rightarrow> nat option" where
  "uplinks_head nd = (case uplinks nd of [] \<Rightarrow> None | u # us \<Rightarrow> Some (uid u))"

fun replace_uplinks :: "nat \<Rightarrow> NodePtr \<Rightarrow> nat \<Rightarrow> nat option \<Rightarrow> Heap \<Rightarrow> Heap res" where
  "replace_uplinks 0 result app cur h = Inl OutOfFuel"
| "replace_uplinks (Suc n) result app None h = Inr h"
| "replace_uplinks (Suc n) result app (Some u) h =
     andthen (deref h app) (\<lambda>an.
       (case find_uplink u (uplinks an) of
          None \<Rightarrow> Inl Undefined
        | Some (cur, nexty) \<Rightarrow>
            andthen (upreplace n result (link cur) (type cur) h) (\<lambda>h1.
              replace_uplinks n result app nexty h1)))"

subsection \<open>\<^verbatim>\<open>beta_reduce\<close>\<close>

definition beta_reduce :: "nat \<Rightarrow> nat \<Rightarrow> Heap \<Rightarrow> Heap res" where
  "beta_reduce n app h =
     andthen (deref h app) (\<lambda>an.
       (case content an of
          NODE_APP fn arg \<Rightarrow>
            andthen (deref h fn) (\<lambda>fnd.
              (case content fnd of
                 NODE_LAMBDA body var \<Rightarrow>
                   andthen (deref h var) (\<lambda>vn.
                   andthen
                     (if uplinks vn = [] then Inr (PTR body, h)
                      else
                        andthen (set_cache fn STOP h) (\<lambda>h1.
                        andthen (upcopy n arg var UPLINK_NA h1) (\<lambda>h2.
                        andthen (deref h2 body) (\<lambda>bn.
                        andthen (set_cache fn NULL h2) (\<lambda>h3.
                        andthen (clear n var h3) (\<lambda>h4.
                          Inr (cache bn, h4)))))))
                     (\<lambda>(result, h5).
                        andthen (deref h5 app) (\<lambda>an5.
                          replace_uplinks n result app (uplinks_head an5) h5)))
               | _ \<Rightarrow> Inl Undefined))
        | _ \<Rightarrow> Inl Undefined))"

subsection \<open>The primitive hook and the driver\<close>

text \<open>
  \<^verbatim>\<open>PrimNode::apply\<close> is code of the client. It is a parameter \<open>papply\<close> here: given
  the primitive, the head over the argument and the store, it returns the store as it
  left it and the new primitive, or \<open>None\<close> for a null result.
\<close>

type_synonym prim_apply = "nat \<Rightarrow> Head \<Rightarrow> Heap \<Rightarrow> (nat option \<times> Heap) res"

definition prim_reduce :: "prim_apply \<Rightarrow> nat \<Rightarrow> nat \<Rightarrow> Heap \<Rightarrow> (bool \<times> Heap) res" where
  "prim_reduce papply n app h =
     andthen (deref h app) (\<lambda>an.
       (case content an of
          NODE_APP fn arg \<Rightarrow>
            andthen (make_head arg h) (\<lambda>(arghead, h1).
            andthen (deref h1 fn) (\<lambda>fnd.
              (case content fnd of
                 NODE_PRIM p \<Rightarrow>
                   andthen (papply p arghead h1) (\<lambda>(r, h2).
                   andthen (free_head n arghead h2) (\<lambda>h3.
                     (case r of
                        None \<Rightarrow> Inr (False, h3)
                      | Some p' \<Rightarrow>
                          (case Prim p' h3 of
                             (result, h4) \<Rightarrow>
                               andthen (deref h4 app) (\<lambda>an4.
                               andthen (replace_uplinks n (PTR result) app (uplinks_head an4) h4)
                                 (\<lambda>h5. Inr (True, h5)))))))
               | _ \<Rightarrow> Inl Undefined)))
        | _ \<Rightarrow> Inl Undefined))"

text \<open>\<^verbatim>\<open>static bool hnf_reduce_1(Node* ptr)\<close>\<close>

fun hnf_reduce_1_node :: "prim_apply \<Rightarrow> nat \<Rightarrow> nat \<Rightarrow> Heap \<Rightarrow> (bool \<times> Heap) res" where
  "hnf_reduce_1_node papply 0 ptr h = Inl OutOfFuel"
| "hnf_reduce_1_node papply (Suc n) ptr h =
     andthen (deref h ptr) (\<lambda>nd.
       (case content nd of
          NODE_LAMBDA body var \<Rightarrow> hnf_reduce_1_node papply n body h
        | NODE_APP left right \<Rightarrow>
            andthen (hnf_reduce_1_node papply n left h) (\<lambda>(reduced, h1).
              if reduced then Inr (True, h1)
              else
                andthen (deref h1 ptr) (\<lambda>nd1.
                  (case content nd1 of
                     NODE_APP left1 right1 \<Rightarrow>
                       andthen (deref h1 left1) (\<lambda>ln.
                         (case content ln of
                            NODE_LAMBDA lb lv \<Rightarrow>
                              andthen (beta_reduce n ptr h1) (\<lambda>h2. Inr (True, h2))
                          | NODE_PRIM p \<Rightarrow> prim_reduce papply n ptr h1
                          | _ \<Rightarrow> Inr (False, h1)))
                   | _ \<Rightarrow> Inl Undefined)))
        | NODE_VAR \<Rightarrow> Inr (False, h)
        | NODE_PRIM p \<Rightarrow> Inr (False, h)))"

text \<open>\<^verbatim>\<open>bool hnf_reduce_1(Head* ptr)\<close>\<close>

definition hnf_reduce_1 :: "prim_apply \<Rightarrow> nat \<Rightarrow> Head \<Rightarrow> Heap \<Rightarrow> (bool \<times> Heap) res" where
  "hnf_reduce_1 papply n ptr h = hnf_reduce_1_node papply n (dummy ptr) h"

text \<open>\<^verbatim>\<open>while (hnf_reduce_1(top)) { }\<close>\<close>

fun hnf_reduce :: "prim_apply \<Rightarrow> nat \<Rightarrow> Head \<Rightarrow> Heap \<Rightarrow> Heap res" where
  "hnf_reduce papply 0 tophead h = Inl OutOfFuel"
| "hnf_reduce papply (Suc n) tophead h =
     andthen (hnf_reduce_1 papply n tophead h) (\<lambda>(reduced, h1).
       if reduced then hnf_reduce papply n tophead h1 else Inr h1)"

text \<open>
  The loop again, returning what its last call of \<^verbatim>\<open>hnf_reduce_1\<close> was given: the fuel
  and the store of the call that returned false and ended the loop.
\<close>

fun hnf_reduce_last :: "prim_apply \<Rightarrow> nat \<Rightarrow> Head \<Rightarrow> Heap \<Rightarrow> (nat \<times> Heap) res" where
  "hnf_reduce_last papply 0 tophead h = Inl OutOfFuel"
| "hnf_reduce_last papply (Suc n) tophead h =
     andthen (hnf_reduce_1 papply n tophead h) (\<lambda>(reduced, h1).
       if reduced then hnf_reduce_last papply n tophead h1 else Inr (n, h))"

section \<open>Observations and example graphs\<close>

text \<open>The store as a list: the node at every address handed out so far.\<close>

definition snapshot :: "Heap \<Rightarrow> Node option list" where
  "snapshot h = map (nodes h) [0..<next_node h]"

definition err_of :: "'a res \<Rightarrow> error option" where
  "err_of r = (case r of Inl e \<Rightarrow> Some e | Inr x \<Rightarrow> None)"

text \<open>A hook for graphs in which no primitive is ever applied: calling it aborts.\<close>

definition no_prim :: prim_apply where
  "no_prim p arghead h = Inl Abort"

text \<open>A head over a single free variable: \<^verbatim>\<open>make_head(Var())\<close>.\<close>

definition head_over_var :: "(Head \<times> Heap) res" where
  "head_over_var = (case Var empty_heap of (y, h1) \<Rightarrow> make_head y h1)"

text \<open>
  \<^verbatim>\<open>p = Prim(7); make_head(App(Fun(p, p), Var()))\<close>: a lambda whose binder is a
  primitive node that also is its body.
\<close>

definition prim_binder :: "(Head \<times> Heap) res" where
  "prim_binder =
     (case Prim 7 empty_heap of (p, h1) \<Rightarrow>
        andthen (Fun p p h1) (\<lambda>(f, h2).
          (case Var h2 of (a, h3) \<Rightarrow>
             andthen (App f a h3) (\<lambda>(t, h4). make_head t h4))))"

text \<open>\<^verbatim>\<open>x = Var(); f = Fun(x, x); make_head(App(f, f))\<close>: the identity applied to itself.\<close>

definition self_applied_identity :: "(Head \<times> Heap) res" where
  "self_applied_identity =
     (case Var empty_heap of (x, h1) \<Rightarrow>
        andthen (Fun x x h1) (\<lambda>(f, h2).
        andthen (App f f h2) (\<lambda>(t, h3). make_head t h3)))"

text \<open>
  \<open>(\<lambda>x. x x) (a b)\<close> with free variables \<open>a\<close> and \<open>b\<close>:
  \<^verbatim>\<open>a = Var(); b = Var(); ab = App(a, b); x = Var(); make_head(App(Fun(x, App(x, x)), ab))\<close>.
\<close>

definition shared_argument :: "(Head \<times> Heap) res" where
  "shared_argument =
     (case Var empty_heap of (a, h1) \<Rightarrow>
     (case Var h1 of (b, h2) \<Rightarrow>
        andthen (App a b h2) (\<lambda>(ab, h3).
          (case Var h3 of (x, h4) \<Rightarrow>
             andthen (App x x h4) (\<lambda>(xx, h5).
             andthen (Fun x xx h5) (\<lambda>(f, h6).
             andthen (App f ab h6) (\<lambda>(t, h7). make_head t h7)))))))"

text \<open>\<open>(\<lambda>x. x) 7\<close>: \<^verbatim>\<open>x = Var(); make_head(App(Fun(x, x), Prim(7)))\<close>.\<close>

definition identity_on_prim :: "(Head \<times> Heap) res" where
  "identity_on_prim =
     (case Var empty_heap of (x, h1) \<Rightarrow>
        andthen (Fun x x h1) (\<lambda>(f, h2).
          (case Prim 7 h2 of (p, h3) \<Rightarrow>
             andthen (App f p h3) (\<lambda>(t, h4). make_head t h4))))"

text \<open>
  A primitive within the contract of \<^verbatim>\<open>apply\<close>: when its argument already is a
  primitive \<open>q\<close> it returns the successor of \<open>q\<close>; otherwise it reduces its argument by
  one step and rejects:
  \<^verbatim>\<open>if (q = get_prim(arg)) return succ(q); hnf_reduce_1(arg); return 0;\<close>
\<close>

definition lazy_succ :: prim_apply where
  "lazy_succ p arghead h =
     andthen (get_prim arghead h) (\<lambda>r.
       (case r of
          Some q \<Rightarrow> Inr (Some (Suc q), h)
        | None \<Rightarrow> andthen (hnf_reduce_1 no_prim 10 arghead h) (\<lambda>(b, h1). Inr (None, h1))))"

text \<open>
  \<open>s ((\<lambda>x. x) 0)\<close> for a primitive \<open>s\<close>:
  \<^verbatim>\<open>z = Prim(0); x = Var(); make_head(App(Prim(s), App(Fun(x, x), z)))\<close>.
\<close>

definition lazy_on_redex :: "(Head \<times> Heap) res" where
  "lazy_on_redex =
     (case Prim 0 empty_heap of (z, h1) \<Rightarrow>
     (case Var h1 of (x, h2) \<Rightarrow>
        andthen (Fun x x h2) (\<lambda>(i, h3).
        andthen (App i z h3) (\<lambda>(iz, h4).
          (case Prim 100 h4 of (s, h5) \<Rightarrow>
             andthen (App s iz h5) (\<lambda>(t, h6). make_head t h6))))))"

text \<open>\<open>s 0\<close> for a primitive \<open>s\<close>: \<^verbatim>\<open>make_head(App(Prim(s), Prim(0)))\<close>.\<close>

definition succ_on_zero :: "(Head \<times> Heap) res" where
  "succ_on_zero =
     (case Prim 0 empty_heap of (z, h1) \<Rightarrow>
     (case Prim 100 h1 of (s, h2) \<Rightarrow>
        andthen (App s z h2) (\<lambda>(t, h3). make_head t h3)))"

section \<open>Notions for the proofs\<close>

text \<open>
  The owning edges of a node, each with the type of the uplink record that stands for
  it; \<open>has_uplink h c p t\<close>: the child \<open>c\<close> is live and its list has a record for the
  parent \<open>p\<close> and the type \<open>t\<close>; \<open>edge_ok h c u\<close>: the parent named by the record \<open>u\<close>
  of \<open>c\<close> is live and has \<open>c\<close> in the slot of that type.
\<close>

fun out_edges :: "NodeUnion \<Rightarrow> (nat \<times> UplinkType) list" where
  "out_edges (NODE_APP left right) = [(left, UPLINK_APPL), (right, UPLINK_APPR)]"
| "out_edges (NODE_LAMBDA body var) = [(body, UPLINK_NA)]"
| "out_edges NODE_VAR = []"
| "out_edges (NODE_PRIM p) = []"

definition has_uplink :: "Heap \<Rightarrow> nat \<Rightarrow> nat \<Rightarrow> UplinkType \<Rightarrow> bool" where
  "has_uplink h c p t =
     (case nodes h c of
        None \<Rightarrow> False
      | Some cn \<Rightarrow> list_ex (\<lambda>u. link u = p \<and> type u = t) (uplinks cn))"

definition edge_ok :: "Heap \<Rightarrow> nat \<Rightarrow> Uplink \<Rightarrow> bool" where
  "edge_ok h c u =
     (case nodes h (link u) of
        None \<Rightarrow> False
      | Some p \<Rightarrow> (c, type u) \<in> set (out_edges (content p)))"

definition ranked :: "(nat \<Rightarrow> nat) \<Rightarrow> Heap \<Rightarrow> bool" where
  "ranked rk h \<longleftrightarrow>
     (\<forall>p nd c t. nodes h p = Some nd \<longrightarrow> (c, t) \<in> set (out_edges (content nd)) \<longrightarrow> rk c < rk p)"


definition edges_recorded :: "Heap \<Rightarrow> bool" where
  "edges_recorded h \<longleftrightarrow>
     (\<forall>p nd c t. nodes h p = Some nd \<longrightarrow>
        (c, t) \<in> set (out_edges (content nd)) \<longrightarrow> has_uplink h c p t)"

definition gone :: "nat set \<Rightarrow> Heap \<Rightarrow> nat \<Rightarrow> bool" where
  "gone X h a \<longleftrightarrow> a \<in> X \<or> nodes h a = None"

definition node_shrinks :: "nat set \<Rightarrow> Heap \<Rightarrow> Node \<Rightarrow> Node \<Rightarrow> bool" where
  "node_shrinks X h' nd nd' \<longleftrightarrow>
     content nd' = content nd \<and> cache nd' = cache nd \<and>
     set (uplinks nd') \<subseteq> set (uplinks nd) \<and> length (uplinks nd') \<le> length (uplinks nd) \<and>
     (\<forall>u \<in> set (uplinks nd). u \<in> set (uplinks nd') \<or> gone X h' (link u))"

definition shrinks :: "nat set \<Rightarrow> Heap \<Rightarrow> Heap \<Rightarrow> bool" where
  "shrinks X h h' \<longleftrightarrow>
     next_node h' = next_node h \<and> next_uplink h' = next_uplink h \<and>
     (\<forall>a. case nodes h a of
            None \<Rightarrow> nodes h' a = None
          | Some nd \<Rightarrow>
              (case nodes h' a of
                 None \<Rightarrow> \<forall>u \<in> set (uplinks nd). gone X h' (link u)
               | Some nd' \<Rightarrow> node_shrinks X h' nd nd'))"

fun redirect :: "NodeUnion \<Rightarrow> UplinkType \<Rightarrow> nat \<Rightarrow> NodeUnion" where
  "redirect (NODE_APP left right) t c =
     (if t = UPLINK_APPL then NODE_APP c right else NODE_APP left c)"
| "redirect (NODE_LAMBDA body var) t c = NODE_LAMBDA c var"
| "redirect NODE_VAR t c = NODE_VAR"
| "redirect (NODE_PRIM p) t c = NODE_PRIM p"





text \<open>
  \<open>(\<lambda>x. a) ((\<lambda>y. y y) (\<lambda>z. z z))\<close> with a free variable \<open>a\<close>:
  \<^verbatim>\<open>a = Var(); x = Var(); f = Fun(x, a); y = Var(); w = Fun(y, App(y, y)); z = Var();\<close>
  \<^verbatim>\<open>w2 = Fun(z, App(z, z)); make_head(App(f, App(w, w2)))\<close>.
\<close>

definition unused_argument :: "(Head \<times> Heap) res" where
  "unused_argument =
     (case Var empty_heap of (a, h1) \<Rightarrow>
     (case Var h1 of (x, h2) \<Rightarrow>
        andthen (Fun x a h2) (\<lambda>(f, h3).
          (case Var h3 of (y, h4) \<Rightarrow>
             andthen (App y y h4) (\<lambda>(yy, h5).
             andthen (Fun y yy h5) (\<lambda>(w, h6).
               (case Var h6 of (z, h7) \<Rightarrow>
                  andthen (App z z h7) (\<lambda>(zz, h8).
                  andthen (Fun z zz h8) (\<lambda>(w2, h9).
                  andthen (App w w2 h9) (\<lambda>(om, h10).
                  andthen (App f om h10) (\<lambda>(t, h11). make_head t h11)))))))))))"

subsection \<open>Notions for the termination of a pass of \<^verbatim>\<open>upcopy\<close>\<close>

text \<open>
  The kind of the node at an address. \<open>heap_bounded\<close>: no node lives at or above the
  next address handed out by \<^verbatim>\<open>new\<close>. \<open>records_ok\<close>: every uplink record names a live
  parent that has the node in the slot of the record. \<open>vars_ok\<close>, \<open>unique_binders\<close>: the
  variable of a lambda is a live Var node, and no two lambdas have the same one.
  \<open>caches_clear\<close>: between two passes the cache of an application is null and no lambda
  holds the sentinel. \<open>caches_ready fn\<close>: the same once \<^verbatim>\<open>beta_reduce\<close> has put the sentinel
  into the lambda \<open>fn\<close> that it reduces.
\<close>

definition kind_of :: "Heap \<Rightarrow> nat \<Rightarrow> NodeUnion option" where
  "kind_of h a = map_option content (nodes h a)"

definition is_app :: "Heap \<Rightarrow> nat \<Rightarrow> bool" where
  "is_app h a = (case kind_of h a of Some (NODE_APP l r) \<Rightarrow> True | _ \<Rightarrow> False)"

definition is_lambda :: "Heap \<Rightarrow> nat \<Rightarrow> bool" where
  "is_lambda h a = (case kind_of h a of Some (NODE_LAMBDA b v) \<Rightarrow> True | _ \<Rightarrow> False)"

definition is_var :: "Heap \<Rightarrow> nat \<Rightarrow> bool" where
  "is_var h a = (case kind_of h a of Some NODE_VAR \<Rightarrow> True | _ \<Rightarrow> False)"

definition heap_bounded :: "Heap \<Rightarrow> bool" where
  "heap_bounded h \<longleftrightarrow> (\<forall>a. next_node h \<le> a \<longrightarrow> nodes h a = None)"

definition records_ok :: "Heap \<Rightarrow> bool" where
  "records_ok h \<longleftrightarrow>
     (\<forall>c cn u. nodes h c = Some cn \<longrightarrow> u \<in> set (uplinks cn) \<longrightarrow> edge_ok h c u)"

definition vars_ok :: "Heap \<Rightarrow> bool" where
  "vars_ok h \<longleftrightarrow>
     (\<forall>a b v. kind_of h a = Some (NODE_LAMBDA b v) \<longrightarrow> is_var h v)"

definition unique_binders :: "Heap \<Rightarrow> bool" where
  "unique_binders h \<longleftrightarrow>
     (\<forall>a a' b b' v. kind_of h a = Some (NODE_LAMBDA b v) \<longrightarrow>
        kind_of h a' = Some (NODE_LAMBDA b' v) \<longrightarrow> a = a')"

definition caches_ready :: "nat \<Rightarrow> Heap \<Rightarrow> bool" where
  "caches_ready fn h \<longleftrightarrow>
     (\<forall>a nd. nodes h a = Some nd \<longrightarrow>
        (is_app h a \<longrightarrow> cache nd = NULL) \<and>
        (is_lambda h a \<longrightarrow> (cache nd = STOP \<longleftrightarrow> a = fn)))"

definition caches_clear :: "Heap \<Rightarrow> bool" where
  "caches_clear h \<longleftrightarrow>
     (\<forall>a nd. nodes h a = Some nd \<longrightarrow>
        (is_app h a \<longrightarrow> cache nd = NULL) \<and> (is_lambda h a \<longrightarrow> cache nd \<noteq> STOP))"

definition well_formed :: "Heap \<Rightarrow> bool" where
  "well_formed h \<longleftrightarrow>
     heap_bounded h \<and> records_ok h \<and> vars_ok h \<and> unique_binders h \<and> caches_clear h"

text \<open>
  \<open>evolved h0 fn h\<close>: the store \<open>h\<close> comes from the store \<open>h0\<close> at the start of a pass by
  adding nodes and writing caches: the nodes of \<open>h0\<close> have their content and their uplinks,
  the sentinel is in \<open>fn\<close> only, and the cache of an application is null or a copy made in
  this pass. \<open>uncached N h\<close>: the applications below \<open>N\<close> that are not copied yet.
\<close>

definition evolved :: "Heap \<Rightarrow> nat \<Rightarrow> Heap \<Rightarrow> bool" where
  "evolved h0 fn h \<longleftrightarrow>
     next_node h0 \<le> next_node h \<and> heap_bounded h \<and>
     (\<forall>a. a < next_node h0 \<longrightarrow>
        (case nodes h0 a of
           None \<Rightarrow> nodes h a = None
         | Some nd0 \<Rightarrow>
             (\<exists>nd. nodes h a = Some nd \<and> content nd = content nd0 \<and>
                uplinks nd = uplinks nd0 \<and>
                (is_lambda h0 a \<longrightarrow> (cache nd = STOP \<longleftrightarrow> a = fn)) \<and>
                (is_app h0 a \<longrightarrow> cache nd = NULL \<or>
                   (\<exists>c. cache nd = PTR c \<and> next_node h0 \<le> c \<and> is_app h c)))))"

definition uncached :: "nat \<Rightarrow> Heap \<Rightarrow> nat set" where
  "uncached N h = {a. a < N \<and> is_app h a \<and> (\<exists>nd. nodes h a = Some nd \<and> cache nd = NULL)}"

text \<open>
  A lambda is visited from its body only, and a variable from its lambda only:
  \<open>lv_pred h fn m n\<close> says that the lambda or variable \<open>n\<close> is visited from the lambda or
  variable \<open>m\<close>. A list is \<open>chained\<close> when each of its elements is visited from the next
  one and the last one from no lambda or variable at all. \<open>need\<close> is the fuel that a call
  takes, given the number \<open>k\<close> of applications not copied yet and the callers \<open>cpath\<close>
  since the last application.
\<close>

definition lv_pred :: "Heap \<Rightarrow> nat \<Rightarrow> nat \<Rightarrow> nat \<Rightarrow> bool" where
  "lv_pred h fn m n \<longleftrightarrow>
     (\<not> is_app h m \<and> (\<exists>v. kind_of h n = Some (NODE_LAMBDA m v))) \<or>
     (m \<noteq> fn \<and> is_var h n \<and> (\<exists>b. kind_of h m = Some (NODE_LAMBDA b n)))"

fun chained :: "Heap \<Rightarrow> nat \<Rightarrow> nat list \<Rightarrow> bool" where
  "chained h fn [] = True"
| "chained h fn [n] = (\<forall>m. \<not> lv_pred h fn m n)"
| "chained h fn (n # m # rest) = (lv_pred h fn m n \<and> chained h fn (m # rest))"

definition need :: "Heap \<Rightarrow> nat \<Rightarrow> nat \<Rightarrow> nat list \<Rightarrow> nat \<Rightarrow> nat" where
  "need h0 fn k cpath into =
     (if into = fn then 1
      else if is_app h0 into then k * Suc (next_node h0) + 1
      else k * Suc (next_node h0) + (next_node h0 - Suc (length cpath)) + 2)"

text \<open>What a call of upcopy on \<open>into\<close> may assume, \<open>cpath\<close> being the chain of the callers
  since the last application.\<close>

definition callable :: "Heap \<Rightarrow> nat \<Rightarrow> nat list \<Rightarrow> nat \<Rightarrow> bool" where
  "callable h0 fn cpath into \<longleftrightarrow>
     into < next_node h0 \<and> (is_app h0 into \<or> is_lambda h0 into \<or> is_var h0 into) \<and>
     (into \<noteq> fn \<longrightarrow> \<not> is_app h0 into \<longrightarrow>
        chained h0 fn (into # cpath) \<and> distinct (into # cpath) \<and>
        set (into # cpath) \<subseteq> {..<next_node h0})"

text \<open>A call that returns, having only added nodes and filled caches.\<close>

definition returns_ok :: "Heap \<Rightarrow> nat \<Rightarrow> Heap \<Rightarrow> Heap res \<Rightarrow> bool" where
  "returns_ok h0 fn h r \<longleftrightarrow>
     (\<exists>h'. r = Inr h' \<and> evolved h0 fn h' \<and>
        uncached (next_node h0) h' \<subseteq> uncached (next_node h0) h)"

text \<open>
  \<open>(\<lambda>x. \<lambda>y. y x) a\<close> with a free variable \<open>a\<close>:
  \<^verbatim>\<open>a = Var(); x = Var(); y = Var(); make_head(App(Fun(x, Fun(y, App(y, x))), a))\<close>.
\<close>

definition nested_binder :: "(Head \<times> Heap) res" where
  "nested_binder =
     (case Var empty_heap of (a, h1) \<Rightarrow>
     (case Var h1 of (x, h2) \<Rightarrow>
     (case Var h2 of (y, h3) \<Rightarrow>
        andthen (App y x h3) (\<lambda>(yx, h4).
        andthen (Fun y yx h4) (\<lambda>(l, h5).
        andthen (Fun x l h5) (\<lambda>(f, h6).
        andthen (App f a h6) (\<lambda>(t, h7). make_head t h7)))))))"

subsection \<open>Notions for the uplink records\<close>

text \<open>
  \<open>count_rec p t us\<close>: the number of records for the parent \<open>p\<close> and the type \<open>t\<close> in the
  list \<open>us\<close>. \<open>uplinks_match h\<close>: every owning edge of a live node leads to a live child
  that has exactly one record for it, and every record of a live node names a live
  parent that has the node in the slot of the record, and is the only record of the
  node for that parent and slot. \<open>match_except X h\<close> is the same while the nodes of \<open>X\<close>
  are being released: they have no uplink, and some of their edges have lost their
  record already. \<open>reach h a b\<close>: \<open>b\<close> is \<open>a\<close> or below \<open>a\<close> along owning edges;
  \<open>unshared h app arg\<close>: the nodes below \<open>arg\<close> have no parent but \<open>app\<close> and one another.
\<close>

definition count_rec :: "nat \<Rightarrow> UplinkType \<Rightarrow> Uplink list \<Rightarrow> nat" where
  "count_rec p t us = length (filter (\<lambda>u. link u = p \<and> type u = t) us)"

definition match_except :: "nat set \<Rightarrow> Heap \<Rightarrow> bool" where
  "match_except X h \<longleftrightarrow>
     (\<forall>p nd c t. nodes h p = Some nd \<longrightarrow> p \<notin> X \<longrightarrow> (c, t) \<in> set (out_edges (content nd)) \<longrightarrow>
        (\<exists>cn. nodes h c = Some cn \<and> count_rec p t (uplinks cn) = 1)) \<and>
     (\<forall>c cn u. nodes h c = Some cn \<longrightarrow> u \<in> set (uplinks cn) \<longrightarrow>
        edge_ok h c u \<and> count_rec (link u) (type u) (uplinks cn) = 1) \<and>
     (\<forall>p \<in> X. \<exists>nd. nodes h p = Some nd \<and> uplinks nd = [])"

definition uplinks_match :: "Heap \<Rightarrow> bool" where
  "uplinks_match h = match_except {} h"




subsection \<open>Notions for the uplink records across the public operations\<close>

text \<open>
  The invariant of the public operations. \<open>vars_sound\<close>: the variable of a lambda is an
  address that has been handed out and holds no application and no lambda (the node may
  have been released: \<^verbatim>\<open>cleanup\<close> deletes a variable without uplinks whatever lambda
  binds it). \<open>caches_null\<close>: the cache of every application and of every lambda is null;
  the cache of a variable may still hold the argument of an earlier reduction. \<open>sound\<close>:
  these two, the bound on the live addresses, no variable bound by two lambdas, and the
  uplink records matching the owning edges.
\<close>

definition vars_sound :: "Heap \<Rightarrow> bool" where
  "vars_sound h \<longleftrightarrow>
     (\<forall>a b v. kind_of h a = Some (NODE_LAMBDA b v) \<longrightarrow>
        v < next_node h \<and> \<not> is_app h v \<and> \<not> is_lambda h v)"

definition caches_null :: "Heap \<Rightarrow> bool" where
  "caches_null h \<longleftrightarrow>
     (\<forall>a nd. nodes h a = Some nd \<longrightarrow> is_app h a \<or> is_lambda h a \<longrightarrow> cache nd = NULL)"

definition sound :: "Heap \<Rightarrow> bool" where
  "sound h \<longleftrightarrow>
     heap_bounded h \<and> uplinks_match h \<and> unique_binders h \<and> vars_sound h \<and> caches_null h"

text \<open>
  The rest of the invariant, without the uplink records; a variable that a new lambda may
  bind; a primitive hook that keeps the invariant.
\<close>

definition tidy :: "Heap \<Rightarrow> bool" where
  "tidy h \<longleftrightarrow> heap_bounded h \<and> unique_binders h \<and> vars_sound h \<and> caches_null h"

definition free_binder :: "Heap \<Rightarrow> nat \<Rightarrow> bool" where
  "free_binder h v \<longleftrightarrow>
     v < next_node h \<and> \<not> is_app h v \<and> \<not> is_lambda h v \<and>
     (\<forall>a b. kind_of h a \<noteq> Some (NODE_LAMBDA b v))"

definition hook_sound :: "prim_apply \<Rightarrow> bool" where
  "hook_sound papply \<longleftrightarrow>
     (\<forall>p hd h r h'. sound h \<longrightarrow> papply p hd h = Inr (r, h') \<longrightarrow> sound h')"

text \<open>
  The stores that the public operations build from the empty store: every rule is a call
  that returned. \<^verbatim>\<open>Fun\<close> is given a variable that it may bind; the other operations take
  any arguments. \<^verbatim>\<open>get_prim\<close> writes nothing.
\<close>

inductive built :: "prim_apply \<Rightarrow> Heap \<Rightarrow> bool" for papply where
  built_empty: "built papply empty_heap"
| built_Var: "built papply h \<Longrightarrow> Var h = (v, h') \<Longrightarrow> built papply h'"
| built_Prim: "built papply h \<Longrightarrow> Prim p h = (v, h') \<Longrightarrow> built papply h'"
| built_App: "built papply h \<Longrightarrow> App l r h = Inr (a, h') \<Longrightarrow> built papply h'"
| built_Fun: "built papply h \<Longrightarrow> free_binder h var \<Longrightarrow> Fun var body h = Inr (a, h') \<Longrightarrow>
     built papply h'"
| built_make_head: "built papply h \<Longrightarrow> make_head body h = Inr (hd1, h') \<Longrightarrow> built papply h'"
| built_copy_head: "built papply h \<Longrightarrow> copy_head other h = Inr (hd1, h') \<Longrightarrow> built papply h'"
| built_free_head: "built papply h \<Longrightarrow> free_head n hd1 h = Inr h' \<Longrightarrow> built papply h'"
| built_hnf_reduce_1: "built papply h \<Longrightarrow> hnf_reduce_1 papply n hd1 h = Inr (b, h') \<Longrightarrow>
     built papply h'"
| built_hnf_reduce: "built papply h \<Longrightarrow> hnf_reduce papply n hd1 h = Inr h' \<Longrightarrow> built papply h'"

text \<open>
  A pass of \<^verbatim>\<open>upcopy\<close> over the store \<open>h0\<close>, started on the variable \<open>x\<close> of the lambda
  \<open>fn\<close>. A node is \<open>marked\<close> when its cache points to a node. \<open>below h0 fn a b\<close>: the
  calls lead from \<open>a\<close> to \<open>b\<close> through lambdas and variables only (\<open>lv_pred\<close>); a node
  is \<open>rootless\<close> when no lambda or variable calls it. Such a chain begins at an entry:
  the variable \<open>x\<close>, or a lambda over an application that has its copy; \<open>rooted\<close>: the
  node lies on a chain from an entry; \<open>fresh\<close>: no lambda from the node on is marked;
  \<open>fresh_entry h0 fn h h' P\<close>: \<open>P\<close> lies on a chain from a lambda over an application
  that was copied between \<open>h\<close> and \<open>h'\<close>.
\<close>

definition marked :: "Heap \<Rightarrow> nat \<Rightarrow> bool" where
  "marked h a \<longleftrightarrow> (\<exists>nd c. nodes h a = Some nd \<and> cache nd = PTR c)"

definition below :: "Heap \<Rightarrow> nat \<Rightarrow> nat \<Rightarrow> nat \<Rightarrow> bool" where
  "below h0 fn a b \<longleftrightarrow> (lv_pred h0 fn)\<^sup>*\<^sup>* a b"

definition rootless :: "Heap \<Rightarrow> nat \<Rightarrow> nat \<Rightarrow> bool" where
  "rootless h0 fn e \<longleftrightarrow> (\<forall>m. \<not> lv_pred h0 fn m e)"

definition entry_ok :: "Heap \<Rightarrow> nat \<Rightarrow> nat \<Rightarrow> Heap \<Rightarrow> nat \<Rightarrow> bool" where
  "entry_ok h0 fn x h e \<longleftrightarrow>
     rootless h0 fn e \<and>
     (e = x \<or> (\<exists>A v. kind_of h0 e = Some (NODE_LAMBDA A v) \<and> is_app h0 A \<and> marked h A))"

definition rooted :: "Heap \<Rightarrow> nat \<Rightarrow> nat \<Rightarrow> Heap \<Rightarrow> nat \<Rightarrow> bool" where
  "rooted h0 fn x h n \<longleftrightarrow> (\<exists>e. below h0 fn e n \<and> entry_ok h0 fn x h e)"

definition fresh :: "Heap \<Rightarrow> nat \<Rightarrow> Heap \<Rightarrow> nat \<Rightarrow> bool" where
  "fresh h0 fn h n \<longleftrightarrow> (\<forall>P. below h0 fn n P \<longrightarrow> is_lambda h0 P \<longrightarrow> \<not> marked h P)"

definition fresh_entry :: "Heap \<Rightarrow> nat \<Rightarrow> Heap \<Rightarrow> Heap \<Rightarrow> nat \<Rightarrow> bool" where
  "fresh_entry h0 fn h h' P \<longleftrightarrow>
     (\<exists>A e v. is_app h0 A \<and> \<not> marked h A \<and> marked h' A \<and>
        kind_of h0 e = Some (NODE_LAMBDA A v) \<and> below h0 fn e P)"

text \<open>
  \<open>pass_start\<close>: the store when the pass starts, with the sentinel in \<open>fn\<close> and no other
  cache of an application or lambda set. \<open>copying h0 fn x h\<close>: the store \<open>h\<close> during the
  pass. The old applications and lambdas (\<open>old_node\<close>) are as at the start but for their
  caches; the cache of an old lambda other than \<open>fn\<close> is null or a new lambda
  (\<open>lam_copies\<close>); no two old nodes have the same copy (\<open>inj_copies\<close>); a new node is
  live, without uplink records and with a null cache, and a new application or lambda is
  the copy in the cache of an old node (\<open>new_nodes\<close>, \<open>pending\<close>); a new lambda binds a
  new variable that no other lambda binds (\<open>new_vars\<close>); every marked lambda is rooted
  (\<open>marks_rooted\<close>). \<open>marks_kept\<close>: the copies made stay. \<open>marks_within\<close> and
  \<open>loop_marks\<close>: the lambdas that a call on \<open>into\<close>, and the loop over the records
  \<open>us\<close>, may mark.
\<close>

definition pass_start :: "nat \<Rightarrow> nat \<Rightarrow> Heap \<Rightarrow> bool" where
  "pass_start fn x h0 \<longleftrightarrow>
     heap_bounded h0 \<and> uplinks_match h0 \<and> unique_binders h0 \<and> vars_sound h0 \<and>
     (\<exists>body. kind_of h0 fn = Some (NODE_LAMBDA body x)) \<and>
     (\<forall>a nd. nodes h0 a = Some nd \<longrightarrow>
        (is_app h0 a \<longrightarrow> cache nd = NULL) \<and>
        (is_lambda h0 a \<longrightarrow> (if a = fn then cache nd = STOP else cache nd = NULL)))"

definition old_node :: "Heap \<Rightarrow> nat \<Rightarrow> bool" where
  "old_node h0 a \<longleftrightarrow> is_app h0 a \<or> is_lambda h0 a"

definition pending :: "Heap \<Rightarrow> Heap \<Rightarrow> nat \<Rightarrow> bool" where
  "pending h0 h c \<longleftrightarrow> (\<exists>a nd. old_node h0 a \<and> nodes h a = Some nd \<and> cache nd = PTR c)"

definition lam_copies :: "Heap \<Rightarrow> nat \<Rightarrow> Heap \<Rightarrow> bool" where
  "lam_copies h0 fn h \<longleftrightarrow>
     (\<forall>a nd. nodes h a = Some nd \<longrightarrow> is_lambda h0 a \<longrightarrow> a \<noteq> fn \<longrightarrow>
        cache nd = NULL \<or> (\<exists>c. cache nd = PTR c \<and> next_node h0 \<le> c \<and> is_lambda h c))"

definition inj_copies :: "Heap \<Rightarrow> Heap \<Rightarrow> bool" where
  "inj_copies h0 h \<longleftrightarrow>
     (\<forall>a a' nd nd' c. old_node h0 a \<longrightarrow> old_node h0 a' \<longrightarrow>
        nodes h a = Some nd \<longrightarrow> nodes h a' = Some nd' \<longrightarrow>
        cache nd = PTR c \<longrightarrow> cache nd' = PTR c \<longrightarrow> a = a')"

definition new_nodes :: "Heap \<Rightarrow> Heap \<Rightarrow> bool" where
  "new_nodes h0 h \<longleftrightarrow>
     (\<forall>c. next_node h0 \<le> c \<longrightarrow> c < next_node h \<longrightarrow>
        (\<exists>cn. nodes h c = Some cn \<and> uplinks cn = [] \<and> cache cn = NULL \<and>
           (is_app h c \<or> is_lambda h c \<longrightarrow> pending h0 h c)))"

definition new_vars :: "Heap \<Rightarrow> Heap \<Rightarrow> bool" where
  "new_vars h0 h \<longleftrightarrow>
     (\<forall>c b v. next_node h0 \<le> c \<longrightarrow> kind_of h c = Some (NODE_LAMBDA b v) \<longrightarrow>
        next_node h0 \<le> v \<and> is_var h v \<and>
        (\<forall>c' b'. kind_of h c' = Some (NODE_LAMBDA b' v) \<longrightarrow> c' = c))"

definition marks_rooted :: "Heap \<Rightarrow> nat \<Rightarrow> nat \<Rightarrow> Heap \<Rightarrow> bool" where
  "marks_rooted h0 fn x h \<longleftrightarrow>
     (\<forall>P. is_lambda h0 P \<longrightarrow> P \<noteq> fn \<longrightarrow> marked h P \<longrightarrow> rooted h0 fn x h P)"

definition copying :: "Heap \<Rightarrow> nat \<Rightarrow> nat \<Rightarrow> Heap \<Rightarrow> bool" where
  "copying h0 fn x h \<longleftrightarrow>
     evolved h0 fn h \<and> lam_copies h0 fn h \<and> inj_copies h0 h \<and> new_nodes h0 h \<and>
     new_vars h0 h \<and> marks_rooted h0 fn x h"

definition marks_kept :: "Heap \<Rightarrow> Heap \<Rightarrow> Heap \<Rightarrow> bool" where
  "marks_kept h0 h h' \<longleftrightarrow>
     (\<forall>a nd c. old_node h0 a \<longrightarrow> nodes h a = Some nd \<longrightarrow> cache nd = PTR c \<longrightarrow>
        (\<exists>nd'. nodes h' a = Some nd' \<and> cache nd' = PTR c))"

definition marks_within :: "Heap \<Rightarrow> nat \<Rightarrow> nat \<Rightarrow> Heap \<Rightarrow> Heap \<Rightarrow> bool" where
  "marks_within h0 fn into h h' \<longleftrightarrow>
     (\<forall>P. is_lambda h0 P \<longrightarrow> \<not> marked h P \<longrightarrow> marked h' P \<longrightarrow>
        (\<not> is_app h0 into \<and> into \<noteq> fn \<and> below h0 fn into P) \<or> fresh_entry h0 fn h h' P)"

definition loop_marks :: "Heap \<Rightarrow> nat \<Rightarrow> Uplink list \<Rightarrow> Heap \<Rightarrow> Heap \<Rightarrow> bool" where
  "loop_marks h0 fn us h h' \<longleftrightarrow>
     (\<forall>P. is_lambda h0 P \<longrightarrow> \<not> marked h P \<longrightarrow> marked h' P \<longrightarrow>
        (\<exists>u \<in> set us. is_lambda h0 (link u) \<and> link u \<noteq> fn \<and> below h0 fn (link u) P) \<or>
        fresh_entry h0 fn h h' P)"

text \<open>
  What the pass has marked is reached from \<open>x\<close> upwards through marked nodes:
  \<open>covered h0 h x a\<close> follows the uplink records of \<open>h0\<close> from \<open>x\<close>, from a covered
  node and from the variable of a covered lambda, to parents that are marked in \<open>h\<close>.
  \<open>source\<close>: a node whose parents are called; \<open>due\<close>: a node that is called.
\<close>

inductive covered :: "Heap \<Rightarrow> Heap \<Rightarrow> nat \<Rightarrow> nat \<Rightarrow> bool" for h0 h x where
  base: "nodes h0 x = Some xn \<Longrightarrow> u \<in> set (uplinks xn) \<Longrightarrow> marked h (link u) \<Longrightarrow>
     covered h0 h x (link u)"
| up: "covered h0 h x n \<Longrightarrow> nodes h0 n = Some nn \<Longrightarrow> u \<in> set (uplinks nn) \<Longrightarrow>
     marked h (link u) \<Longrightarrow> covered h0 h x (link u)"
| var: "covered h0 h x n \<Longrightarrow> kind_of h0 n = Some (NODE_LAMBDA b v) \<Longrightarrow> nodes h0 v = Some vn \<Longrightarrow>
     u \<in> set (uplinks vn) \<Longrightarrow> marked h (link u) \<Longrightarrow> covered h0 h x (link u)"

definition marks_stay :: "Heap \<Rightarrow> Heap \<Rightarrow> Heap \<Rightarrow> bool" where
  "marks_stay h0 h h' \<longleftrightarrow> (\<forall>a. old_node h0 a \<longrightarrow> marked h a \<longrightarrow> marked h' a)"

definition marks_covered :: "Heap \<Rightarrow> Heap \<Rightarrow> nat \<Rightarrow> bool" where
  "marks_covered h0 h x \<longleftrightarrow> (\<forall>a. old_node h0 a \<longrightarrow> marked h a \<longrightarrow> covered h0 h x a)"

definition source :: "Heap \<Rightarrow> Heap \<Rightarrow> nat \<Rightarrow> nat \<Rightarrow> bool" where
  "source h0 h x m \<longleftrightarrow>
     m = x \<or> covered h0 h x m \<or> (\<exists>L b. covered h0 h x L \<and> kind_of h0 L = Some (NODE_LAMBDA b m))"

definition due :: "Heap \<Rightarrow> Heap \<Rightarrow> nat \<Rightarrow> nat \<Rightarrow> bool" where
  "due h0 h x into \<longleftrightarrow>
     source h0 h x into \<or>
     (\<exists>m mn u. source h0 h x m \<and> nodes h0 m = Some mn \<and> u \<in> set (uplinks mn) \<and> link u = into)"

text \<open>
  The pass of \<^verbatim>\<open>clear\<close>. \<open>cached\<close>: the cache is not null. \<open>pend h\<close>: the copies
  still in the cache of an application or lambda. \<open>match_edges E h\<close>: the uplink
  records match the owning edges but for the edges of \<open>E\<close> (a parent and a slot), which
  have no record at all. \<open>clearing\<close>: the edges without a record are those of the
  pending copies, no two nodes have the same pending copy, and no pending copy has a
  cache. \<open>grows h h'\<close>: from \<open>h\<close> to \<open>h'\<close> caches are reset and records for parents
  without a cache are appended, nothing else. \<open>parents_done h node i\<close>: no parent in the
  list of \<open>node\<close> from position \<open>i\<close> on has a cache; \<open>closed_step h h'\<close>: a node whose
  cache was reset between \<open>h\<close> and \<open>h'\<close> has no parent with a cache left, nor has its
  variable when it is a lambda.
\<close>

definition cached :: "Heap \<Rightarrow> nat \<Rightarrow> bool" where
  "cached h a \<longleftrightarrow> (\<exists>nd. nodes h a = Some nd \<and> cache nd \<noteq> NULL)"

definition pend :: "Heap \<Rightarrow> nat set" where
  "pend h = {c. \<exists>a nd. nodes h a = Some nd \<and> cache nd = PTR c \<and> (is_app h a \<or> is_lambda h a)}"

definition match_edges :: "(nat \<times> UplinkType) set \<Rightarrow> Heap \<Rightarrow> bool" where
  "match_edges E h \<longleftrightarrow>
     (\<forall>p nd c t. nodes h p = Some nd \<longrightarrow> (p, t) \<notin> E \<longrightarrow> (c, t) \<in> set (out_edges (content nd)) \<longrightarrow>
        (\<exists>cn. nodes h c = Some cn \<and> count_rec p t (uplinks cn) = 1)) \<and>
     (\<forall>c cn u. nodes h c = Some cn \<longrightarrow> u \<in> set (uplinks cn) \<longrightarrow>
        edge_ok h c u \<and> (link u, type u) \<notin> E \<and> count_rec (link u) (type u) (uplinks cn) = 1)"

definition clearing :: "Heap \<Rightarrow> bool" where
  "clearing h \<longleftrightarrow>
     match_edges (pend h \<times> UNIV) h \<and>
     (\<forall>a a' nd nd' c. nodes h a = Some nd \<longrightarrow> nodes h a' = Some nd' \<longrightarrow>
        cache nd = PTR c \<longrightarrow> cache nd' = PTR c \<longrightarrow>
        is_app h a \<or> is_lambda h a \<longrightarrow> is_app h a' \<or> is_lambda h a' \<longrightarrow> a = a') \<and>
     (\<forall>c \<in> pend h. \<not> cached h c)"

definition grows :: "Heap \<Rightarrow> Heap \<Rightarrow> bool" where
  "grows h h' \<longleftrightarrow>
     next_node h' = next_node h \<and>
     (\<forall>a. case nodes h a of
        None \<Rightarrow> nodes h' a = None
      | Some nd \<Rightarrow>
          (\<exists>nd'. nodes h' a = Some nd' \<and> content nd' = content nd \<and>
             (cache nd' = cache nd \<or> cache nd' = NULL) \<and>
             (\<exists>ex. uplinks nd' = uplinks nd @ ex \<and> (\<forall>u \<in> set ex. \<not> cached h' (link u)))))"

definition parents_done :: "Heap \<Rightarrow> nat \<Rightarrow> nat \<Rightarrow> bool" where
  "parents_done h node i \<longleftrightarrow>
     (\<forall>nd j. nodes h node = Some nd \<longrightarrow> i \<le> j \<longrightarrow> j < length (uplinks nd) \<longrightarrow>
        \<not> cached h (link (uplinks nd ! j)))"

definition closed_step :: "Heap \<Rightarrow> Heap \<Rightarrow> bool" where
  "closed_step h h' \<longleftrightarrow>
     (\<forall>a. cached h a \<longrightarrow> \<not> cached h' a \<longrightarrow>
        parents_done h' a 0 \<and>
        (\<forall>b v. kind_of h a = Some (NODE_LAMBDA b v) \<longrightarrow> parents_done h' v 0))"

text \<open>
  What the splice leaves of a node: its kind, the primitive, the variable of a lambda
  (\<open>shape\<close>) and its cache; \<open>kept h h'\<close>: the nodes of \<open>h'\<close> are nodes of \<open>h\<close> with
  the same shape and cache.
\<close>

fun shape :: "NodeUnion \<Rightarrow> NodeUnion" where
  "shape (NODE_APP l r) = NODE_APP 0 0"
| "shape (NODE_LAMBDA b v) = NODE_LAMBDA 0 v"
| "shape NODE_VAR = NODE_VAR"
| "shape (NODE_PRIM p) = NODE_PRIM p"

definition kept :: "Heap \<Rightarrow> Heap \<Rightarrow> bool" where
  "kept h h' \<longleftrightarrow>
     next_node h' = next_node h \<and>
     (\<forall>a nd'. nodes h' a = Some nd' \<longrightarrow>
        (\<exists>nd. nodes h a = Some nd \<and> cache nd' = cache nd \<and>
           shape (content nd') = shape (content nd)))"

section \<open>Basic facts\<close>

lemma err_ofD: "err_of r = Some e \<Longrightarrow> r = Inl e"
  by (cases r) (auto simp: err_of_def)

lemma andthen_Inr [simp]: "andthen (Inr x) f = f x"
  by (simp add: andthen_def)

lemma andthen_Inl [simp]: "andthen (Inl e) f = Inl e"
  by (simp add: andthen_def)

lemma andthen_eq_Inr:
  "andthen m f = Inr y \<longleftrightarrow> (\<exists>x. m = Inr x \<and> f x = Inr y)"
  by (cases m) auto

lemma deref_eq_Inr [simp]: "deref h a = Inr nd \<longleftrightarrow> nodes h a = Some nd"
  by (auto simp: deref_def split: option.splits)

lemma deref_Some: "nodes h a = Some nd \<Longrightarrow> deref h a = Inr nd"
  by simp

section \<open>The claims\<close>

text \<open>
  C2. The claim: \<^verbatim>\<open>upcopy(newchild, into, slot)\<close> on a Prim node \<open>into\<close> records
  \<open>newchild\<close> in the cache and continues upward as for a Var, without aborting.
  The code: the \<^verbatim>\<open>NODE_PRIM\<close> arm has no \<^verbatim>\<open>break\<close> and falls into
  \<^verbatim>\<open>default: std::abort()\<close>. Whatever the store, the new child and the slot are, the
  call aborts.
\<close>

theorem upcopy_prim_aborts:
  "nodes h into = Some nd \<Longrightarrow> content nd = NODE_PRIM p \<Longrightarrow>
   upcopy (Suc n) newchild into t h = Inl Abort"
  by (simp add: deref_Some)

theorem upcopy_prim_aborts_witness:
  "nodes (snd (Prim 7 empty_heap)) 0 = Some \<lparr>cache = NULL, uplinks = [], content = NODE_PRIM 7\<rparr>
   \<and> content \<lparr>cache = NULL, uplinks = [], content = NODE_PRIM 7\<rparr> = NODE_PRIM 7
   \<and> upcopy (Suc 0) 1 0 UPLINK_NA (snd (Prim 7 empty_heap)) = Inl Abort"
proof -
  have a: "nodes (snd (Prim 7 empty_heap)) 0
             = Some \<lparr>cache = NULL, uplinks = [], content = NODE_PRIM 7\<rparr>"
    by (simp add: Prim_def new_node_def empty_heap_def)
  have b: "content \<lparr>cache = NULL, uplinks = [], content = NODE_PRIM 7\<rparr> = NODE_PRIM 7"
    by simp
  from a b upcopy_prim_aborts [OF a b] show ?thesis by simp
qed

text \<open>
  The abort is reached through the public interface: one reduction step on
  \<^verbatim>\<open>App(Fun(p, p), Var())\<close> with \<^verbatim>\<open>p = Prim(7)\<close> calls \<^verbatim>\<open>beta_reduce\<close>, which
  calls \<^verbatim>\<open>upcopy\<close> on the binder \<open>p\<close>.
\<close>

lemma prim_binder_step_aborts:
  "andthen prim_binder (\<lambda>(h0, s). hnf_reduce_1 no_prim 10 h0 s) = Inl Abort"
  by (rule err_ofD) code_simp

text \<open>
  C3. The claim: after \<^verbatim>\<open>free_head\<close> on the sole head of a graph the number of live
  nodes is back at its value before the construction. The code: \<^verbatim>\<open>cleanup\<close> of a
  lambda releases the body and the lambda, never the node \<^verbatim>\<open>lambda.var\<close>; a variable
  without occurrence, as the one \<^verbatim>\<open>make_head\<close> allocates for the dummy lambda, stays
  allocated. For \<^verbatim>\<open>h = make_head(Var()); free_head(h)\<close> from the empty store: no node
  before, three nodes after the construction, one node (the dummy's variable, at
  address 1) after \<^verbatim>\<open>free_head\<close>.
\<close>

theorem free_head_leaks_dummy_var:
  "andthen head_over_var (\<lambda>(h0, s).
     andthen (free_head 10 h0 s) (\<lambda>s1.
       Inr (node_count empty_heap, node_count s, node_count s1, snapshot s1)))
   = Inr (0, 3, 1, [None, Some \<lparr>cache = NULL, uplinks = [], content = NODE_VAR\<rparr>, None])"
  by code_simp

text \<open>
  C1. The claim: the dummy of \<^verbatim>\<open>copy_head(h)\<close> references the body that the dummy
  of \<open>h\<close> references, and that body gets one more uplink. The code passes
  \<^verbatim>\<open>other->dummy\<close> to \<^verbatim>\<open>Fun\<close>: the new dummy (address 4 below) has the dummy of \<open>h\<close>
  (address 2) as its body, the new uplink is on that dummy, and the body of \<open>h\<close>
  (address 0) keeps its single uplink. Freeing the copy then releases the dummy of \<open>h\<close>
  and its body, and \<open>h\<close> is left dangling: \<^verbatim>\<open>get_prim(h)\<close> reads a deleted node.
\<close>

theorem copy_head_wraps_dummy:
  "andthen head_over_var (\<lambda>(h0, s).
     andthen (copy_head h0 s) (\<lambda>(c, s1).
     andthen (free_head 10 c s1) (\<lambda>s2.
       Inr (dummy h0, dummy c, snapshot s, snapshot s1, snapshot s2, get_prim h0 s2))))
   = Inr (2, 4,
       [Some \<lparr>cache = NULL, uplinks = [\<lparr>uid = 0, link = 2, type = UPLINK_NA\<rparr>], content = NODE_VAR\<rparr>,
        Some \<lparr>cache = NULL, uplinks = [], content = NODE_VAR\<rparr>,
        Some \<lparr>cache = NULL, uplinks = [], content = NODE_LAMBDA 0 1\<rparr>],
       [Some \<lparr>cache = NULL, uplinks = [\<lparr>uid = 0, link = 2, type = UPLINK_NA\<rparr>], content = NODE_VAR\<rparr>,
        Some \<lparr>cache = NULL, uplinks = [], content = NODE_VAR\<rparr>,
        Some \<lparr>cache = NULL, uplinks = [\<lparr>uid = 1, link = 4, type = UPLINK_NA\<rparr>],
              content = NODE_LAMBDA 0 1\<rparr>,
        Some \<lparr>cache = NULL, uplinks = [], content = NODE_VAR\<rparr>,
        Some \<lparr>cache = NULL, uplinks = [], content = NODE_LAMBDA 2 3\<rparr>],
       [None, Some \<lparr>cache = NULL, uplinks = [], content = NODE_VAR\<rparr>, None,
        Some \<lparr>cache = NULL, uplinks = [], content = NODE_VAR\<rparr>, None],
       Inl Undefined)"
  by code_simp

text \<open>
  C4. The claim: after every public call the cache of every node reachable from a live
  head is null. The code: \<^verbatim>\<open>upcopy\<close> writes the argument into the cache of the
  substituted variable, and \<^verbatim>\<open>clear\<close> resets the caches of the parents it walks
  through, never the cache of the variable it starts from. With \<open>f = \<lambda>x. x\<close> and the
  graph \<open>f f\<close>, one step returns true and leaves the head over \<open>f\<close> (address 1), whose
  body \<open>x\<close> (address 0) has the address of \<open>f\<close> in its cache.
\<close>

theorem beta_leaves_var_cache:
  "andthen self_applied_identity (\<lambda>(h0, s).
     andthen (hnf_reduce_1 no_prim 10 h0 s) (\<lambda>(r, s1). Inr (r, dummy h0, snapshot s1)))
   = Inr (True, 4,
       [Some \<lparr>cache = PTR 1, uplinks = [\<lparr>uid = 0, link = 1, type = UPLINK_NA\<rparr>], content = NODE_VAR\<rparr>,
        Some \<lparr>cache = NULL, uplinks = [\<lparr>uid = 4, link = 4, type = UPLINK_NA\<rparr>],
              content = NODE_LAMBDA 0 0\<rparr>,
        None,
        Some \<lparr>cache = NULL, uplinks = [], content = NODE_VAR\<rparr>,
        Some \<lparr>cache = NULL, uplinks = [], content = NODE_LAMBDA 1 3\<rparr>])"
  by code_simp

text \<open>
  C5. Reducing \<open>(\<lambda>x. x x) (a b)\<close> to head normal form: the loop ends, the body of the
  dummy (address 8) is the new application at address 9, and both children of that
  application are the node at address 2, the argument \<open>a b\<close> itself, which now has
  exactly the two uplinks of that application. Nothing was duplicated: the nodes of the
  redex (addresses 3 to 6) are released, and no further node was allocated.
\<close>

theorem shared_argument_not_duplicated:
  "andthen shared_argument (\<lambda>(h0, s).
     andthen (hnf_reduce no_prim 10 h0 s) (\<lambda>s1. Inr (dummy h0, snapshot s1)))
   = Inr (8,
       [Some \<lparr>cache = NULL, uplinks = [\<lparr>uid = 0, link = 2, type = UPLINK_APPL\<rparr>], content = NODE_VAR\<rparr>,
        Some \<lparr>cache = NULL, uplinks = [\<lparr>uid = 1, link = 2, type = UPLINK_APPR\<rparr>], content = NODE_VAR\<rparr>,
        Some \<lparr>cache = NULL,
              uplinks = [\<lparr>uid = 8, link = 9, type = UPLINK_APPL\<rparr>,
                         \<lparr>uid = 9, link = 9, type = UPLINK_APPR\<rparr>],
              content = NODE_APP 0 1\<rparr>,
        None, None, None, None,
        Some \<lparr>cache = NULL, uplinks = [], content = NODE_VAR\<rparr>,
        Some \<lparr>cache = NULL, uplinks = [], content = NODE_LAMBDA 9 7\<rparr>,
        Some \<lparr>cache = NULL, uplinks = [\<lparr>uid = 10, link = 8, type = UPLINK_NA\<rparr>],
              content = NODE_APP 2 2\<rparr>])"
  by code_simp

text \<open>
  C10. \<^verbatim>\<open>get_prim\<close> reads the dummy and its body and writes nothing (its embedding
  returns a value and no store). On a head whose dummy is a live lambda with a live
  body, the result is the wrapped primitive exactly when that body is a Prim node, and
  null otherwise. It does not reduce: on the head over \<open>(\<lambda>x. x) 7\<close> it returns null,
  although the head reduces to the primitive 7 (the witness).
\<close>

theorem get_prim_reads_body:
  "nodes h (dummy expr) = Some d \<Longrightarrow> content d = NODE_LAMBDA body var \<Longrightarrow>
   nodes h body = Some b \<Longrightarrow>
   get_prim expr h = Inr (case content b of NODE_PRIM p \<Rightarrow> Some p | _ \<Rightarrow> None)"
  by (simp add: get_prim_def deref_Some split: NodeUnion.splits)

theorem get_prim_reads_body_witness:
  "get_prim (fst (projr identity_on_prim)) (snd (projr identity_on_prim)) = Inr None
   \<and> andthen identity_on_prim (\<lambda>(h0, s).
         andthen (hnf_reduce no_prim 10 h0 s) (\<lambda>s1. get_prim h0 s1)) = Inr (Some 7)"
proof -
  let ?s = "snd (projr identity_on_prim)"
  let ?e = "fst (projr identity_on_prim)"
  have a: "nodes ?s (dummy ?e) = Some \<lparr>cache = NULL, uplinks = [], content = NODE_LAMBDA 3 4\<rparr>"
    by code_simp
  have b: "content \<lparr>cache = NULL, uplinks = [], content = NODE_LAMBDA 3 4\<rparr> = NODE_LAMBDA 3 4"
    by simp
  have c: "nodes ?s 3 = Some \<lparr>cache = NULL, uplinks = [\<lparr>uid = 3, link = 5, type = UPLINK_NA\<rparr>],
                              content = NODE_APP 1 2\<rparr>"
    by code_simp
  have "get_prim ?e ?s = Inr None"
    using get_prim_reads_body [OF a b c] by simp
  moreover have "andthen identity_on_prim (\<lambda>(h0, s).
      andthen (hnf_reduce no_prim 10 h0 s) (\<lambda>s1. get_prim h0 s1)) = Inr (Some 7)"
    by code_simp
  ultimately show ?thesis by simp
qed

subsection \<open>The driver without primitives\<close>

text \<open>
  With the hook \<open>no_prim\<close> a result \<open>Inr\<close> means that no primitive was applied. A step
  that reports no progress then is a pure traversal: it leaves the store as it is, it
  needs no more fuel than it got, and it does not depend on the hook.
\<close>

lemma not_isl_projr: "\<not> isl r \<Longrightarrow> r = Inr (projr r)"
  by (cases r) auto

lemma prim_reduce_no_prim: "prim_reduce no_prim n app h \<noteq> Inr r"
  by (auto simp: prim_reduce_def no_prim_def andthen_eq_Inr split: NodeUnion.splits prod.splits)

lemma redex_dispatch:
  assumes "andthen (deref h1 ptr) (\<lambda>nd1.
             (case content nd1 of
                NODE_APP left1 right1 \<Rightarrow>
                  andthen (deref h1 left1) (\<lambda>ln.
                    (case content ln of
                       NODE_LAMBDA lb lv \<Rightarrow> A
                     | NODE_PRIM p \<Rightarrow> B
                     | _ \<Rightarrow> C))
              | _ \<Rightarrow> Inl Undefined)) = Inr r"
  obtains
    (lam) nd1 l1 r1 ln lb lv where "nodes h1 ptr = Some nd1" "content nd1 = NODE_APP l1 r1"
      "nodes h1 l1 = Some ln" "content ln = NODE_LAMBDA lb lv" "A = Inr r"
  | (prim) nd1 l1 r1 ln p where "nodes h1 ptr = Some nd1" "content nd1 = NODE_APP l1 r1"
      "nodes h1 l1 = Some ln" "content ln = NODE_PRIM p" "B = Inr r"
  | (other) nd1 l1 r1 ln where "nodes h1 ptr = Some nd1" "content nd1 = NODE_APP l1 r1"
      "nodes h1 l1 = Some ln" "content ln = NODE_VAR \<or> (\<exists>x y. content ln = NODE_APP x y)"
      "C = Inr r"
proof -
  from assms obtain nd1 where nd1: "nodes h1 ptr = Some nd1"
    by (auto simp: andthen_eq_Inr)
  with assms obtain l1 r1 where c1: "content nd1 = NODE_APP l1 r1"
    by (cases "content nd1") (auto simp: deref_Some)
  with assms nd1 obtain ln where ln: "nodes h1 l1 = Some ln"
    by (auto simp: deref_Some andthen_eq_Inr)
  show thesis
  proof (cases "content ln")
    case (NODE_APP x y)
    with assms nd1 c1 ln show ?thesis by (intro other [of nd1 l1 r1 ln]) (simp_all add: deref_Some)
  next
    case (NODE_LAMBDA lb lv)
    with assms nd1 c1 ln show ?thesis by (intro lam [of nd1 l1 r1 ln lb lv]) (simp_all add: deref_Some)
  next
    case NODE_VAR
    with assms nd1 c1 ln show ?thesis by (intro other [of nd1 l1 r1 ln]) (simp_all add: deref_Some)
  next
    case (NODE_PRIM p)
    with assms nd1 c1 ln show ?thesis by (intro prim [of nd1 l1 r1 ln p]) (simp_all add: deref_Some)
  qed
qed

lemma hnf_false_same:
  "hnf_reduce_1_node no_prim n ptr h = Inr (False, h') \<Longrightarrow> h' = h"
proof (induction n arbitrary: ptr h h')
  case 0
  then show ?case by simp
next
  case (Suc n)
  from Suc.prems obtain nd where nd: "nodes h ptr = Some nd"
    by (auto simp: andthen_eq_Inr)
  show ?case
  proof (cases "content nd")
    case (NODE_APP l r)
    with Suc.prems nd obtain b h1 where
      1: "hnf_reduce_1_node no_prim n l h = Inr (b, h1)"
      and 2: "(if b then Inr (True, h1) else
                andthen (deref h1 ptr) (\<lambda>nd1.
             (case content nd1 of
                NODE_APP left1 right1 \<Rightarrow>
                  andthen (deref h1 left1) (\<lambda>ln.
                    (case content ln of
                       NODE_LAMBDA lb lv \<Rightarrow> andthen (beta_reduce n ptr h1) (\<lambda>h2. Inr (True, h2))
                     | NODE_PRIM p \<Rightarrow> prim_reduce no_prim n ptr h1
                     | _ \<Rightarrow> Inr (False, h1)))
              | _ \<Rightarrow> Inl Undefined))) = Inr (False, h')"
      by (auto simp: andthen_eq_Inr deref_Some)
    from 2 have b: "\<not> b" by (cases b) simp_all
    with 1 Suc.IH have "h1 = h" by simp
    from 2 b have 3: "andthen (deref h1 ptr) (\<lambda>nd1.
             (case content nd1 of
                NODE_APP left1 right1 \<Rightarrow>
                  andthen (deref h1 left1) (\<lambda>ln.
                    (case content ln of
                       NODE_LAMBDA lb lv \<Rightarrow> andthen (beta_reduce n ptr h1) (\<lambda>h2. Inr (True, h2))
                     | NODE_PRIM p \<Rightarrow> prim_reduce no_prim n ptr h1
                     | _ \<Rightarrow> Inr (False, h1)))
              | _ \<Rightarrow> Inl Undefined)) = Inr (False, h')"
      by simp
    from 3 have "h' = h1"
    proof (cases rule: redex_dispatch)
      case lam
      then show ?thesis by (auto simp: andthen_eq_Inr)
    next
      case prim
      then show ?thesis by (simp add: prim_reduce_no_prim)
    next
      case other
      then show ?thesis by simp
    qed
    with \<open>h1 = h\<close> show ?thesis by simp
  next
    case (NODE_LAMBDA b v)
    with Suc nd show ?thesis by (simp add: deref_Some)
  next
    case NODE_VAR
    with Suc nd show ?thesis by (simp add: deref_Some)
  next
    case (NODE_PRIM p)
    with Suc nd show ?thesis by (simp add: deref_Some)
  qed
qed

lemma hnf_hook_irrelevant:
  "hnf_reduce_1_node no_prim n ptr h = Inr r \<Longrightarrow> hnf_reduce_1_node papply n ptr h = Inr r"
proof (induction n arbitrary: ptr h r)
  case 0
  then show ?case by simp
next
  case (Suc n)
  from Suc.prems obtain nd where nd: "nodes h ptr = Some nd"
    by (auto simp: andthen_eq_Inr)
  show ?case
  proof (cases "content nd")
    case (NODE_APP l rr)
    with Suc.prems nd obtain b h1 where
      1: "hnf_reduce_1_node no_prim n l h = Inr (b, h1)"
      and 2: "(if b then Inr (True, h1) else
                andthen (deref h1 ptr) (\<lambda>nd1.
             (case content nd1 of
                NODE_APP left1 right1 \<Rightarrow>
                  andthen (deref h1 left1) (\<lambda>ln.
                    (case content ln of
                       NODE_LAMBDA lb lv \<Rightarrow> andthen (beta_reduce n ptr h1) (\<lambda>h2. Inr (True, h2))
                     | NODE_PRIM p \<Rightarrow> prim_reduce no_prim n ptr h1
                     | _ \<Rightarrow> Inr (False, h1)))
              | _ \<Rightarrow> Inl Undefined))) = Inr r"
      by (auto simp: andthen_eq_Inr deref_Some)
    from 1 Suc.IH have 3: "hnf_reduce_1_node papply n l h = Inr (b, h1)" by blast
    have "(if b then Inr (True, h1) else
                andthen (deref h1 ptr) (\<lambda>nd1.
             (case content nd1 of
                NODE_APP left1 right1 \<Rightarrow>
                  andthen (deref h1 left1) (\<lambda>ln.
                    (case content ln of
                       NODE_LAMBDA lb lv \<Rightarrow> andthen (beta_reduce n ptr h1) (\<lambda>h2. Inr (True, h2))
                     | NODE_PRIM p \<Rightarrow> prim_reduce papply n ptr h1
                     | _ \<Rightarrow> Inr (False, h1)))
              | _ \<Rightarrow> Inl Undefined))) = Inr r"
    proof (cases b)
      case True
      with 2 show ?thesis by simp
    next
      case False
      with 2 have 4: "andthen (deref h1 ptr) (\<lambda>nd1.
             (case content nd1 of
                NODE_APP left1 right1 \<Rightarrow>
                  andthen (deref h1 left1) (\<lambda>ln.
                    (case content ln of
                       NODE_LAMBDA lb lv \<Rightarrow> andthen (beta_reduce n ptr h1) (\<lambda>h2. Inr (True, h2))
                     | NODE_PRIM p \<Rightarrow> prim_reduce no_prim n ptr h1
                     | _ \<Rightarrow> Inr (False, h1)))
              | _ \<Rightarrow> Inl Undefined)) = Inr r"
        by simp
      from 4 have "andthen (deref h1 ptr) (\<lambda>nd1.
             (case content nd1 of
                NODE_APP left1 right1 \<Rightarrow>
                  andthen (deref h1 left1) (\<lambda>ln.
                    (case content ln of
                       NODE_LAMBDA lb lv \<Rightarrow> andthen (beta_reduce n ptr h1) (\<lambda>h2. Inr (True, h2))
                     | NODE_PRIM p \<Rightarrow> prim_reduce papply n ptr h1
                     | _ \<Rightarrow> Inr (False, h1)))
              | _ \<Rightarrow> Inl Undefined)) = Inr r"
      proof (cases rule: redex_dispatch)
        case lam
        then show ?thesis by (simp add: deref_Some)
      next
        case prim
        then show ?thesis by (simp add: prim_reduce_no_prim)
      next
        case other
        then show ?thesis by (auto simp add: deref_Some)
      qed
      with False show ?thesis by simp
    qed
    with 3 nd NODE_APP show ?thesis by (simp add: deref_Some)
  next
    case (NODE_LAMBDA b v)
    with Suc nd show ?thesis by (simp add: deref_Some)
  next
    case NODE_VAR
    with Suc nd show ?thesis by (simp add: deref_Some)
  next
    case (NODE_PRIM p)
    with Suc nd show ?thesis by (simp add: deref_Some)
  qed
qed

lemma hnf_false_more_fuel:
  "hnf_reduce_1_node no_prim n ptr h = Inr (False, h') \<Longrightarrow>
   hnf_reduce_1_node no_prim (n + k) ptr h = Inr (False, h')"
proof (induction n arbitrary: ptr h h')
  case 0
  then show ?case by simp
next
  case (Suc n)
  from Suc.prems obtain nd where nd: "nodes h ptr = Some nd"
    by (auto simp: andthen_eq_Inr)
  show ?case
  proof (cases "content nd")
    case (NODE_APP l rr)
    with Suc.prems nd obtain b h1 where
      1: "hnf_reduce_1_node no_prim n l h = Inr (b, h1)"
      and 2: "(if b then Inr (True, h1) else
                andthen (deref h1 ptr) (\<lambda>nd1.
             (case content nd1 of
                NODE_APP left1 right1 \<Rightarrow>
                  andthen (deref h1 left1) (\<lambda>ln.
                    (case content ln of
                       NODE_LAMBDA lb lv \<Rightarrow> andthen (beta_reduce n ptr h1) (\<lambda>h2. Inr (True, h2))
                     | NODE_PRIM p \<Rightarrow> prim_reduce no_prim n ptr h1
                     | _ \<Rightarrow> Inr (False, h1)))
              | _ \<Rightarrow> Inl Undefined))) = Inr (False, h')"
      by (auto simp: andthen_eq_Inr deref_Some)
    from 2 have b: "\<not> b" by (cases b) simp_all
    with 1 Suc.IH have 3: "hnf_reduce_1_node no_prim (n + k) l h = Inr (False, h1)" by simp
    from 2 b have 4: "andthen (deref h1 ptr) (\<lambda>nd1.
             (case content nd1 of
                NODE_APP left1 right1 \<Rightarrow>
                  andthen (deref h1 left1) (\<lambda>ln.
                    (case content ln of
                       NODE_LAMBDA lb lv \<Rightarrow> andthen (beta_reduce n ptr h1) (\<lambda>h2. Inr (True, h2))
                     | NODE_PRIM p \<Rightarrow> prim_reduce no_prim n ptr h1
                     | _ \<Rightarrow> Inr (False, h1)))
              | _ \<Rightarrow> Inl Undefined)) = Inr (False, h')"
      by simp
    from 4
    have "andthen (deref h1 ptr) (\<lambda>nd1.
             (case content nd1 of
                NODE_APP left1 right1 \<Rightarrow>
                  andthen (deref h1 left1) (\<lambda>ln.
                    (case content ln of
                       NODE_LAMBDA lb lv \<Rightarrow> andthen (beta_reduce (n + k) ptr h1) (\<lambda>h2. Inr (True, h2))
                     | NODE_PRIM p \<Rightarrow> prim_reduce no_prim (n + k) ptr h1
                     | _ \<Rightarrow> Inr (False, h1)))
              | _ \<Rightarrow> Inl Undefined)) = Inr (False, h')"
    proof (cases rule: redex_dispatch)
      case lam
      then show ?thesis by (auto simp: andthen_eq_Inr)
    next
      case prim
      then show ?thesis by (simp add: prim_reduce_no_prim)
    next
      case other
      then show ?thesis by (auto simp add: deref_Some)
    qed
    with 3 nd NODE_APP show ?thesis by (simp add: deref_Some)
  next
    case (NODE_LAMBDA b v)
    with Suc nd show ?thesis by (simp add: deref_Some)
  next
    case NODE_VAR
    with Suc nd show ?thesis by (simp add: deref_Some)
  next
    case (NODE_PRIM p)
    with Suc nd show ?thesis by (simp add: deref_Some)
  qed
qed

lemma hnf_reduce_last_call:
  "hnf_reduce papply n hd0 h = Inr h' \<Longrightarrow> hnf_reduce_last papply n hd0 h = Inr (k, s) \<Longrightarrow>
   hnf_reduce_1 papply k hd0 s = Inr (False, h')"
proof (induction n arbitrary: h)
  case 0
  then show ?case by simp
next
  case (Suc n)
  from Suc.prems(1) obtain b h1 where
    1: "hnf_reduce_1 papply n hd0 h = Inr (b, h1)"
    and 2: "(if b then hnf_reduce papply n hd0 h1 else Inr h1) = Inr h'"
    by (auto simp: andthen_eq_Inr)
  show ?case
  proof (cases b)
    case True
    with 1 2 Suc.prems(2) have "hnf_reduce papply n hd0 h1 = Inr h'"
      "hnf_reduce_last papply n hd0 h1 = Inr (k, s)" by simp_all
    then show ?thesis by (rule Suc.IH)
  next
    case False
    with 1 2 Suc.prems(2) show ?thesis by simp
  qed
qed

lemma hnf_reduce_last_total:
  "hnf_reduce papply n hd0 h = Inr h' \<Longrightarrow> \<exists>k s. k < n \<and> hnf_reduce_last papply n hd0 h = Inr (k, s)"
proof (induction n arbitrary: h)
  case 0
  then show ?case by simp
next
  case (Suc n)
  from Suc.prems(1) obtain b h1 where
    1: "hnf_reduce_1 papply n hd0 h = Inr (b, h1)"
    and 2: "(if b then hnf_reduce papply n hd0 h1 else Inr h1) = Inr h'"
    by (auto simp: andthen_eq_Inr)
  show ?case
  proof (cases b)
    case True
    with 2 have "hnf_reduce papply n hd0 h1 = Inr h'" by simp
    from Suc.IH [OF this] obtain k s where "k < n" "hnf_reduce_last papply n hd0 h1 = Inr (k, s)"
      by blast
    with 1 True show ?thesis by (intro exI [of _ k] exI [of _ s]) simp
  next
    case False
    with 1 show ?thesis by (intro exI [of _ n] exI [of _ h]) simp
  qed
qed

text \<open>
  C9. The claim: after \<^verbatim>\<open>hnf_reduce(h)\<close> has returned, \<^verbatim>\<open>hnf_reduce_1(h)\<close> returns
  false. The loop ends with a step that returns false, but such a step may have applied a
  primitive, which may have changed the graph before it rejected: with the primitive
  \<open>lazy_succ\<close> on \<open>s ((\<lambda>x. x) 0)\<close>, \<^verbatim>\<open>hnf_reduce\<close> returns after one step (the head
  is not a primitive yet), and the next \<^verbatim>\<open>hnf_reduce_1\<close> returns true and leaves the
  primitive 1 under the head.
\<close>

theorem hnf_idempotence_counterexample:
  "andthen lazy_on_redex (\<lambda>(h0, s).
     andthen (hnf_reduce lazy_succ 10 h0 s) (\<lambda>s1.
     andthen (hnf_reduce_1 lazy_succ 10 h0 s1) (\<lambda>(r, s2).
       Inr (get_prim h0 s1, r, get_prim h0 s2)))) = Inr (Inr None, True, Inr (Some 1))"
  by code_simp

text \<open>
  C9, amended: let \<^verbatim>\<open>hnf_reduce(h)\<close> return, whatever primitives its steps have
  applied, and let its last call of \<^verbatim>\<open>hnf_reduce_1\<close>, the one that returned false, have
  applied no primitive (run with the hook \<open>no_prim\<close> on the same store and with the same
  fuel, it returns). Then a following \<^verbatim>\<open>hnf_reduce_1(h)\<close> returns false and leaves the
  graph as it is, whatever the primitives are and for every fuel from that of the last
  call on. The witness is \<open>s 0\<close>: the first step applies the primitive and puts 1 under
  the head, the second and last step applies none.
\<close>

theorem hnf_reduce_then_no_progress:
  assumes run: "hnf_reduce papply n hd0 h = Inr h'"
    and last: "hnf_reduce_last papply n hd0 h = Inr (k, s)"
    and free: "hnf_reduce_1 no_prim k hd0 s = Inr (r, s')"
    and fuel: "k \<le> m"
  shows "hnf_reduce_1 papply' m hd0 h' = Inr (False, h')"
proof -
  from hnf_reduce_last_call [OF run last]
  have c: "hnf_reduce_1_node papply k (dummy hd0) s = Inr (False, h')"
    by (simp add: hnf_reduce_1_def)
  from free have f: "hnf_reduce_1_node no_prim k (dummy hd0) s = Inr (r, s')"
    by (simp add: hnf_reduce_1_def)
  from hnf_hook_irrelevant [OF f, of papply] c have "r = False" "s' = h'" by simp_all
  with f have f': "hnf_reduce_1_node no_prim k (dummy hd0) s = Inr (False, h')" by simp
  from hnf_false_same [OF this] have "h' = s" .
  with f' have "hnf_reduce_1_node no_prim k (dummy hd0) h' = Inr (False, h')" by simp
  from hnf_false_more_fuel [OF this, of "m - k"] fuel
  have "hnf_reduce_1_node no_prim m (dummy hd0) h' = Inr (False, h')" by simp
  then have "hnf_reduce_1_node papply' m (dummy hd0) h' = Inr (False, h')"
    by (rule hnf_hook_irrelevant)
  then show ?thesis by (simp add: hnf_reduce_1_def)
qed

lemma succ_on_zero_run:
  "andthen succ_on_zero (\<lambda>(h0, s).
     andthen (hnf_reduce lazy_succ 10 h0 s) (\<lambda>s1.
     andthen (hnf_reduce no_prim 10 h0 s) (\<lambda>s2. Inr True))) = Inl Abort \<and>
   andthen succ_on_zero (\<lambda>(h0, s).
     andthen (hnf_reduce lazy_succ 10 h0 s) (\<lambda>s1.
     andthen (hnf_reduce_1 lazy_succ 10 h0 s1) (\<lambda>(r, s2).
       Inr (get_prim h0 s1, r, get_prim h0 s2)))) = Inr (Inr (Some 1), False, Inr (Some 1))"
  by code_simp

theorem hnf_reduce_then_no_progress_witness:
  "hnf_reduce_1 lazy_succ 10 (fst (projr succ_on_zero))
     (projr (hnf_reduce lazy_succ 10 (fst (projr succ_on_zero)) (snd (projr succ_on_zero))))
   = Inr (False, projr (hnf_reduce lazy_succ 10 (fst (projr succ_on_zero)) (snd (projr succ_on_zero))))"
proof -
  let ?hd = "fst (projr succ_on_zero)" and ?h = "snd (projr succ_on_zero)"
  let ?L = "hnf_reduce_last lazy_succ 10 ?hd ?h"
  have "\<not> isl (hnf_reduce lazy_succ 10 ?hd ?h)" by code_simp
  then have run: "hnf_reduce lazy_succ 10 ?hd ?h = Inr (projr (hnf_reduce lazy_succ 10 ?hd ?h))"
    by (rule not_isl_projr)
  have "\<not> isl ?L" by code_simp
  then have "?L = Inr (projr ?L)" by (rule not_isl_projr)
  then have last: "?L = Inr (fst (projr ?L), snd (projr ?L))" by simp
  have "\<not> isl (hnf_reduce_1 no_prim (fst (projr ?L)) ?hd (snd (projr ?L)))" by code_simp
  then have "hnf_reduce_1 no_prim (fst (projr ?L)) ?hd (snd (projr ?L))
     = Inr (projr (hnf_reduce_1 no_prim (fst (projr ?L)) ?hd (snd (projr ?L))))"
    by (rule not_isl_projr)
  then have free: "hnf_reduce_1 no_prim (fst (projr ?L)) ?hd (snd (projr ?L))
     = Inr (fst (projr (hnf_reduce_1 no_prim (fst (projr ?L)) ?hd (snd (projr ?L)))),
            snd (projr (hnf_reduce_1 no_prim (fst (projr ?L)) ?hd (snd (projr ?L)))))"
    by simp
  have fuel: "fst (projr ?L) \<le> 10" by code_simp
  from hnf_reduce_then_no_progress [OF run last free fuel] show ?thesis .
qed

subsection \<open>Releasing nodes: \<^verbatim>\<open>cleanup\<close>\<close>

text \<open>
  \<open>shrinks X h h'\<close>: from \<open>h\<close> to \<open>h'\<close> no node is allocated, nodes are released, the
  remaining nodes keep content and cache, and an uplink record disappears only when its
  parent is released (or is in \<open>X\<close>, the nodes whose release is under way).
  \<open>ranked rk h\<close>: the function \<open>rk\<close> decreases along every owning edge, so the owning
  edges form no cycle.
\<close>

lemma nodes_store [simp]: "nodes (store a nd h) b = (if b = a then Some nd else nodes h b)"
  by (simp add: store_def)

lemma next_node_store [simp]: "next_node (store a nd h) = next_node h"
  by (simp add: store_def)

lemma next_uplink_store [simp]: "next_uplink (store a nd h) = next_uplink h"
  by (simp add: store_def)

lemma unlink_eq_Inr:
  "unlink c p t h = Inr h1 \<longleftrightarrow>
     (\<exists>cn us. nodes h c = Some cn \<and> remove_first p t (uplinks cn) = Some us \<and>
        h1 = store c (cn\<lparr>uplinks := us\<rparr>) h)"
  by (auto simp: unlink_def split: option.splits)

lemma add_eq_Inr:
  "add c p t h = Inr h1 \<longleftrightarrow>
     (\<exists>cn. nodes h c = Some cn \<and>
        h1 = h\<lparr>nodes := (nodes h)(c \<mapsto>
                cn\<lparr>uplinks := uplinks cn @ [\<lparr>uid = next_uplink h, link = p, type = t\<rparr>]\<rparr>),
              next_uplink := Suc (next_uplink h)\<rparr>)"
  by (auto simp: add_def split: option.splits)

lemma set_content_eq_Inr:
  "set_content a c h = Inr h1 \<longleftrightarrow>
     (\<exists>nd. nodes h a = Some nd \<and> h1 = store a (nd\<lparr>content := c\<rparr>) h)"
  by (auto simp: set_content_def split: option.splits)

lemma delete_node_eq_Inr:
  "delete_node a h = Inr h1 \<longleftrightarrow>
     (\<exists>nd. nodes h a = Some nd \<and> h1 = h\<lparr>nodes := (nodes h)(a := None)\<rparr>)"
  by (auto simp: delete_node_def split: option.splits)

lemma remove_first_Some:
  "remove_first p t us = Some us' \<Longrightarrow>
     set us' \<subseteq> set us \<and> length us = Suc (length us') \<and>
     (\<forall>u \<in> set us. u \<in> set us' \<or> (link u = p \<and> type u = t))"
  by (induction us arbitrary: us') (auto split: if_splits option.splits)


lemma shrinks_refl: "shrinks X h h"
  by (auto simp: shrinks_def node_shrinks_def split: option.splits)

lemma gone_mono: "gone X h a \<Longrightarrow> X \<subseteq> Y \<Longrightarrow> gone Y h a"
  by (auto simp: gone_def)

lemma node_shrinks_mono: "node_shrinks X h nd nd' \<Longrightarrow> X \<subseteq> Y \<Longrightarrow> node_shrinks Y h nd nd'"
  unfolding node_shrinks_def using gone_mono by blast

lemma shrinks_mono:
  assumes "shrinks X h h'" "X \<subseteq> Y"
  shows "shrinks Y h h'"
  unfolding shrinks_def
proof (intro conjI allI)
  fix a
  from assms(1) have "case nodes h a of
            None \<Rightarrow> nodes h' a = None
          | Some nd \<Rightarrow>
              (case nodes h' a of
                 None \<Rightarrow> \<forall>u \<in> set (uplinks nd). gone X h' (link u)
               | Some nd' \<Rightarrow> node_shrinks X h' nd nd')"
    by (simp add: shrinks_def)
  with assms(2) show "case nodes h a of
            None \<Rightarrow> nodes h' a = None
          | Some nd \<Rightarrow>
              (case nodes h' a of
                 None \<Rightarrow> \<forall>u \<in> set (uplinks nd). gone Y h' (link u)
               | Some nd' \<Rightarrow> node_shrinks Y h' nd nd')"
    by (auto split: option.splits intro: gone_mono node_shrinks_mono)
qed (use assms in \<open>simp_all add: shrinks_def\<close>)

lemma shrinks_next_node: "shrinks X h h' \<Longrightarrow> next_node h' = next_node h"
  by (simp add: shrinks_def)

lemma shrinks_at:
  "shrinks X h h' \<Longrightarrow>
   (case nodes h a of
      None \<Rightarrow> nodes h' a = None
    | Some nd \<Rightarrow>
        (case nodes h' a of
           None \<Rightarrow> \<forall>u \<in> set (uplinks nd). gone X h' (link u)
         | Some nd' \<Rightarrow> node_shrinks X h' nd nd'))"
  by (simp add: shrinks_def)

lemma shrinks_dead: "shrinks X h h' \<Longrightarrow> nodes h a = None \<Longrightarrow> nodes h' a = None"
  using shrinks_at [of X h h' a] by simp

lemma shrinks_live:
  "shrinks X h h' \<Longrightarrow> nodes h' a = Some nd' \<Longrightarrow>
   \<exists>nd. nodes h a = Some nd \<and> node_shrinks X h' nd nd'"
  using shrinks_at [of X h h' a] by (cases "nodes h a") simp_all

lemma shrinks_live2:
  "shrinks X h h' \<Longrightarrow> nodes h a = Some nd \<Longrightarrow> nodes h' a = Some nd' \<Longrightarrow> node_shrinks X h' nd nd'"
  using shrinks_at [of X h h' a] by simp

lemma shrinks_released:
  "shrinks X h h' \<Longrightarrow> nodes h a = Some nd \<Longrightarrow> nodes h' a = None \<Longrightarrow> u \<in> set (uplinks nd) \<Longrightarrow>
   gone X h' (link u)"
  using shrinks_at [of X h h' a] by simp

lemma gone_shrinks: "shrinks X h' h'' \<Longrightarrow> gone X h' a \<Longrightarrow> gone X h'' a"
  by (auto simp: gone_def dest: shrinks_dead)

lemma node_shrinks_trans:
  "node_shrinks X h' nd nd' \<Longrightarrow> node_shrinks X h'' nd' nd'' \<Longrightarrow> shrinks X h' h'' \<Longrightarrow>
   node_shrinks X h'' nd nd''"
  unfolding node_shrinks_def
  by (intro conjI ballI; elim conjE) (auto dest: gone_shrinks)

lemma shrinks_trans:
  assumes 1: "shrinks X h h'" and 2: "shrinks X h' h''"
  shows "shrinks X h h''"
  unfolding shrinks_def
proof (intro conjI allI)
  fix a
  show "case nodes h a of
            None \<Rightarrow> nodes h'' a = None
          | Some nd \<Rightarrow>
              (case nodes h'' a of
                 None \<Rightarrow> \<forall>u \<in> set (uplinks nd). gone X h'' (link u)
               | Some nd' \<Rightarrow> node_shrinks X h'' nd nd')"
  proof (cases "nodes h a")
    case None
    with 1 2 show ?thesis by (simp add: shrinks_dead)
  next
    case (Some nd)
    show ?thesis
    proof (cases "nodes h' a")
      case None
      with 2 have d: "nodes h'' a = None" by (simp add: shrinks_dead)
      from 1 Some None have "\<forall>u \<in> set (uplinks nd). gone X h' (link u)"
        by (auto dest: shrinks_released)
      with 2 have "\<forall>u \<in> set (uplinks nd). gone X h'' (link u)"
        by (auto dest: gone_shrinks)
      with Some d show ?thesis by simp
    next
      case (Some nd')
      note s' = this
      from 1 \<open>nodes h a = Some nd\<close> s' have ns: "node_shrinks X h' nd nd'"
        by (rule shrinks_live2)
      show ?thesis
      proof (cases "nodes h'' a")
        case None
        have "\<forall>u \<in> set (uplinks nd). gone X h'' (link u)"
        proof
          fix u assume u: "u \<in> set (uplinks nd)"
          from ns u have "u \<in> set (uplinks nd') \<or> gone X h' (link u)"
            by (auto simp: node_shrinks_def)
          then show "gone X h'' (link u)"
          proof
            assume "u \<in> set (uplinks nd')"
            with 2 s' None show ?thesis by (auto dest: shrinks_released)
          next
            assume "gone X h' (link u)"
            with 2 show ?thesis by (rule gone_shrinks)
          qed
        qed
        with \<open>nodes h a = Some nd\<close> None show ?thesis by simp
      next
        case (Some nd'')
        from 2 s' Some have "node_shrinks X h'' nd' nd''" by (rule shrinks_live2)
        with ns 2 have "node_shrinks X h'' nd nd''" by (auto intro: node_shrinks_trans)
        with \<open>nodes h a = Some nd\<close> Some show ?thesis by simp
      qed
    qed
  qed
qed (use assms in \<open>simp_all add: shrinks_def\<close>)


lemma node_shrinks_refl: "node_shrinks X h nd nd"
  by (simp add: node_shrinks_def)

lemma unlink_shrinks:
  assumes "unlink c p t h = Inr h1"
  shows "shrinks {p} h h1"
proof -
  from assms obtain cn us where cn: "nodes h c = Some cn"
    and rf: "remove_first p t (uplinks cn) = Some us"
    and h1: "h1 = store c (cn\<lparr>uplinks := us\<rparr>) h"
    by (auto simp: unlink_eq_Inr)
  from remove_first_Some [OF rf]
  have "node_shrinks {p} h1 cn (cn\<lparr>uplinks := us\<rparr>)"
    by (auto simp: node_shrinks_def gone_def)
  with cn h1 show ?thesis
    by (auto simp: shrinks_def node_shrinks_refl split: option.splits)
qed

lemma shrinks_delete:
  assumes s: "shrinks {x} h h4" and x: "nodes h x = Some nd" "uplinks nd = []"
    and d: "delete_node x h4 = Inr h'"
  shows "shrinks {} h h'"
proof -
  from d obtain nd4 where h': "h' = h4\<lparr>nodes := (nodes h4)(x := None)\<rparr>"
    by (auto simp: delete_node_eq_Inr)
  have g: "gone {} h' b" if "gone {x} h4 b" for b
    using that by (auto simp: gone_def h')
  have ns: "node_shrinks {} h' a b" if "node_shrinks {x} h4 a b" for a b
    using that g unfolding node_shrinks_def by blast
  show ?thesis
    unfolding shrinks_def
  proof (intro conjI allI)
    fix a
    show "case nodes h a of
            None \<Rightarrow> nodes h' a = None
          | Some nd \<Rightarrow>
              (case nodes h' a of
                 None \<Rightarrow> \<forall>u \<in> set (uplinks nd). gone {} h' (link u)
               | Some nd' \<Rightarrow> node_shrinks {} h' nd nd')"
    proof (cases "a = x")
      case True
      with x show ?thesis by (simp add: h')
    next
      case False
      then have eq: "nodes h' a = nodes h4 a" by (simp add: h')
      show ?thesis
      proof (cases "nodes h a")
        case None
        with s eq show ?thesis by (simp add: shrinks_dead)
      next
        case (Some nda)
        show ?thesis
        proof (cases "nodes h4 a")
          case None
          with s Some have "\<forall>u \<in> set (uplinks nda). gone {x} h4 (link u)"
            by (auto dest: shrinks_released)
          with g Some None eq show ?thesis by simp
        next
          case (Some nd4a)
          with s \<open>nodes h a = Some nda\<close> have "node_shrinks {x} h4 nda nd4a"
            by (auto dest: shrinks_live2)
          with ns Some \<open>nodes h a = Some nda\<close> eq show ?thesis by simp
        qed
      qed
    qed
  qed (use s in \<open>simp_all add: shrinks_def h'\<close>)
qed

lemma cleanup_Suc_cases:
  assumes "cleanup (Suc n) x h = Inr h'"
  obtains
    (keep) nd where "nodes h x = Some nd" "uplinks nd \<noteq> []" "h' = h"
  | (lam) nd body var h1 h2 where "nodes h x = Some nd" "uplinks nd = []"
      "content nd = NODE_LAMBDA body var" "unlink body x UPLINK_NA h = Inr h1"
      "cleanup n body h1 = Inr h2" "delete_node x h2 = Inr h'"
  | (app) nd left right h1 h2 nd2 left2 right2 h3 h4 where "nodes h x = Some nd" "uplinks nd = []"
      "content nd = NODE_APP left right" "unlink left x UPLINK_APPL h = Inr h1"
      "cleanup n left h1 = Inr h2" "nodes h2 x = Some nd2" "content nd2 = NODE_APP left2 right2"
      "unlink right2 x UPLINK_APPR h2 = Inr h3" "cleanup n right2 h3 = Inr h4"
      "delete_node x h4 = Inr h'"
  | (leaf) nd where "nodes h x = Some nd" "uplinks nd = []"
      "content nd = NODE_VAR \<or> (\<exists>p. content nd = NODE_PRIM p)" "delete_node x h = Inr h'"
proof -
  from assms obtain nd where nd: "nodes h x = Some nd"
    by (auto simp: andthen_eq_Inr)
  show thesis
  proof (cases "uplinks nd = []")
    case False
    with assms nd show ?thesis by (intro keep [of nd]) (simp_all add: deref_Some)
  next
    case True
    show ?thesis
    proof (cases "content nd")
      case (NODE_APP left right)
      with assms nd True obtain h1 h2 nd2 where
        1: "unlink left x UPLINK_APPL h = Inr h1" "cleanup n left h1 = Inr h2"
           "nodes h2 x = Some nd2"
        and 2: "(case content nd2 of
                   NODE_APP left2 right2 \<Rightarrow>
                     andthen (unlink right2 x UPLINK_APPR h2) (\<lambda>h3.
                     andthen (cleanup n right2 h3) (\<lambda>h4.
                       delete_node x h4))
                 | _ \<Rightarrow> Inl Undefined) = Inr h'"
        by (auto simp: deref_Some andthen_eq_Inr)
      from 2 obtain left2 right2 where c2: "content nd2 = NODE_APP left2 right2"
        by (cases "content nd2") simp_all
      with 2 obtain h3 h4 where "unlink right2 x UPLINK_APPR h2 = Inr h3"
        "cleanup n right2 h3 = Inr h4" "delete_node x h4 = Inr h'"
        by (auto simp: andthen_eq_Inr)
      with nd True NODE_APP 1 c2 show ?thesis by (intro app) auto
    next
      case (NODE_LAMBDA body var)
      with assms nd True show ?thesis
        by (auto simp: deref_Some andthen_eq_Inr intro: lam)
    next
      case NODE_VAR
      with assms nd True show ?thesis by (intro leaf [of nd]) (simp_all add: deref_Some)
    next
      case (NODE_PRIM p)
      with assms nd True show ?thesis by (intro leaf [of nd]) (simp_all add: deref_Some)
    qed
  qed
qed

lemma cleanup_shrinks: "cleanup n x h = Inr h' \<Longrightarrow> shrinks {} h h'"
proof (induction n arbitrary: x h h')
  case 0
  then show ?case by simp
next
  case (Suc n)
  from Suc.prems show ?case
  proof (cases rule: cleanup_Suc_cases)
    case keep
    then show ?thesis by (simp add: shrinks_refl)
  next
    case (lam nd body var h1 h2)
    from lam(4) have "shrinks {x} h h1" by (rule unlink_shrinks)
    moreover from Suc.IH [OF lam(5)] have "shrinks {x} h1 h2" by (rule shrinks_mono) simp
    ultimately have "shrinks {x} h h2" by (rule shrinks_trans)
    with lam show ?thesis by (auto intro: shrinks_delete)
  next
    case (app nd left right h1 h2 nd2 left2 right2 h3 h4)
    from app(4) have "shrinks {x} h h1" by (rule unlink_shrinks)
    moreover from Suc.IH [OF app(5)] have "shrinks {x} h1 h2" by (rule shrinks_mono) simp
    ultimately have "shrinks {x} h h2" by (rule shrinks_trans)
    moreover from app(8) have "shrinks {x} h2 h3" by (rule unlink_shrinks)
    ultimately have "shrinks {x} h h3" by (rule shrinks_trans)
    moreover from Suc.IH [OF app(9)] have "shrinks {x} h3 h4" by (rule shrinks_mono) simp
    ultimately have "shrinks {x} h h4" by (rule shrinks_trans)
    with app show ?thesis by (auto intro: shrinks_delete)
  next
    case (leaf nd)
    have "shrinks {x} h h" by (rule shrinks_refl)
    with leaf show ?thesis by (auto intro: shrinks_delete)
  qed
qed

lemma cleanup_releases:
  assumes a: "cleanup n x h = Inr h'" "nodes h x = Some nd" "uplinks nd = []"
  shows "nodes h' x = None"
proof (cases n)
  case 0
  with a show ?thesis by simp
next
  case (Suc m)
  with a(1) have "cleanup (Suc m) x h = Inr h'" by simp
  then show ?thesis
    using a(2,3) by (cases rule: cleanup_Suc_cases) (auto simp: delete_node_eq_Inr)
qed











lemma unlink_content:
  "unlink c p t h = Inr h1 \<Longrightarrow> nodes h a = Some nd \<Longrightarrow>
   \<exists>nd1. nodes h1 a = Some nd1 \<and> content nd1 = content nd \<and> cache nd1 = cache nd"
  by (auto simp: unlink_eq_Inr)








subsection \<open>The splice loop\<close>

lemma upreplace_edge:
  assumes "nodes h into = Some p" "(old, t) \<in> set (out_edges (content p))"
  shows "upreplace n (PTR c) into t h =
     andthen (unlink old into t h) (\<lambda>h1.
     andthen (set_content into (redirect (content p) t c) h1) (\<lambda>h2.
     andthen (add c into t h2) (\<lambda>h3. cleanup n old h3)))"
  using assms by (cases "content p") (auto simp: upreplace_def deref_Some)

lemma remove_first_head: "remove_first (link u) (type u) (u # rest) = Some rest"
  by simp









lemma edge_okD:
  "edge_ok h c u \<Longrightarrow> \<exists>p. nodes h (link u) = Some p \<and> (c, type u) \<in> set (out_edges (content p))"
  by (auto simp: edge_ok_def split: option.splits)

lemma edge_okI:
  "nodes h (link u) = Some p \<Longrightarrow> (c, type u) \<in> set (out_edges (content p)) \<Longrightarrow> edge_ok h c u"
  by (simp add: edge_ok_def)



















lemma ranked_check:
  assumes "\<forall>p. k \<le> p \<longrightarrow> nodes h p = None"
    and "list_all (\<lambda>p. case nodes h p of None \<Rightarrow> True
           | Some nd \<Rightarrow> list_all (\<lambda>(c, t). rk c < rk p) (out_edges (content nd))) [0..<k]"
  shows "ranked rk h"
  unfolding ranked_def
proof (intro allI impI)
  fix p nd c t assume p: "nodes h p = Some nd" "(c, t) \<in> set (out_edges (content nd))"
  with assms(1) have "p < k" by (metis not_le option.distinct(1))
  with assms(2) have "case nodes h p of None \<Rightarrow> True
           | Some nd \<Rightarrow> list_all (\<lambda>(c, t). rk c < rk p) (out_edges (content nd))"
    by (simp add: list_all_iff)
  with p show "rk c < rk p"
    by (auto simp: list_all_iff)
qed

lemma edges_recorded_check:
  assumes "\<forall>p. k \<le> p \<longrightarrow> nodes h p = None"
    and "list_all (\<lambda>p. case nodes h p of None \<Rightarrow> True
           | Some nd \<Rightarrow> list_all (\<lambda>(c, t). has_uplink h c p t) (out_edges (content nd))) [0..<k]"
  shows "edges_recorded h"
  unfolding edges_recorded_def
proof (intro allI impI)
  fix p nd c t assume p: "nodes h p = Some nd" "(c, t) \<in> set (out_edges (content nd))"
  with assms(1) have "p < k" by (metis not_le option.distinct(1))
  with assms(2) have "case nodes h p of None \<Rightarrow> True
           | Some nd \<Rightarrow> list_all (\<lambda>(c, t). has_uplink h c p t) (out_edges (content nd))"
    by (simp add: list_all_iff)
  with p show "has_uplink h c p t"
    by (auto simp: list_all_iff)
qed

lemma unused_argument_bound:
  "\<forall>p. 13 \<le> p \<longrightarrow> nodes (snd (projr unused_argument)) p = None"
  by (simp add: unused_argument_def Var_def App_def Fun_def make_head_def new_node_def add_def
      empty_heap_def)

lemma unused_argument_ranked: "ranked (\<lambda>a. a) (snd (projr unused_argument))"
  by (rule ranked_check [OF unused_argument_bound]) code_simp

lemma unused_argument_recorded: "edges_recorded (snd (projr unused_argument))"
  by (rule edges_recorded_check [OF unused_argument_bound]) code_simp


text \<open>
  The scenario of the specification: one step on \<open>(\<lambda>x. a) \<Omega>\<close> returns true with the
  free variable \<open>a\<close> (address 0) under the head; the lambda, the application and all of
  \<open>\<Omega>\<close> (addresses 2 to 10) are released. The variable \<open>x\<close> (address 1) of the released
  lambda stays allocated, as the variable of a dummy does.
\<close>

lemma unused_argument_step:
  "andthen unused_argument (\<lambda>(h0, s).
     andthen (hnf_reduce_1 no_prim 20 h0 s) (\<lambda>(r, s1). Inr (r, dummy h0, snapshot s1)))
   = Inr (True, 12,
       [Some \<lparr>cache = NULL, uplinks = [\<lparr>uid = 12, link = 12, type = UPLINK_NA\<rparr>], content = NODE_VAR\<rparr>,
        Some \<lparr>cache = NULL, uplinks = [], content = NODE_VAR\<rparr>,
        None, None, None, None, None, None, None, None, None,
        Some \<lparr>cache = NULL, uplinks = [], content = NODE_VAR\<rparr>,
        Some \<lparr>cache = NULL, uplinks = [], content = NODE_LAMBDA 0 11\<rparr>])"
  by code_simp

subsection \<open>The pass of \<^verbatim>\<open>upcopy\<close>\<close>

lemma lv_pred_unique:
  assumes "unique_binders h" "lv_pred h fn m n" "lv_pred h fn m' n"
  shows "m = m'"
  using assms unfolding lv_pred_def unique_binders_def is_var_def
  by (auto split: option.splits NodeUnion.splits)

lemma chained_tl: "chained h fn (n # rest) \<Longrightarrow> chained h fn rest"
  by (cases rest) auto

lemma chained_split:
  "chained h fn xs \<Longrightarrow> unique_binders h \<Longrightarrow> n \<in> set xs \<Longrightarrow> lv_pred h fn p n \<Longrightarrow>
   \<exists>ys zs. xs = ys @ n # p # zs"
proof (induction xs)
  case Nil
  then show ?case by simp
next
  case (Cons n' xs)
  show ?case
  proof (cases xs)
    case Nil
    with Cons.prems show ?thesis by auto
  next
    case c: (Cons m rest)
    show ?thesis
    proof (cases "n = n'")
      case True
      from Cons.prems c True have "lv_pred h fn m n" by simp
      with Cons.prems have "p = m" by (blast intro: lv_pred_unique)
      with True c show ?thesis by (intro exI [of _ "[]"] exI [of _ rest]) simp
    next
      case False
      from Cons.prems c have "chained h fn xs" by simp
      with False Cons obtain ys zs where "xs = ys @ n # p # zs" by auto
      then have "n' # xs = (n' # ys) @ n # p # zs" by simp
      then show ?thesis by blast
    qed
  qed
qed

lemma chained_extend:
  assumes c: "chained h fn (m # rest)" and u: "unique_binders h"
    and d: "distinct (m # rest)" and p: "lv_pred h fn m n"
  shows "n \<notin> set (m # rest)"
proof
  assume "n \<in> set (m # rest)"
  from chained_split [OF c u this p] obtain ys zs where e: "m # rest = ys @ n # m # zs"
    by blast
  show False
  proof (cases ys)
    case Nil
    with e d show ?thesis by auto
  next
    case (Cons y ys')
    with e have "y = m" "rest = ys' @ n # m # zs" by auto
    with d show ?thesis by auto
  qed
qed

lemma is_app_iff: "is_app h a \<longleftrightarrow> (\<exists>nd l r. nodes h a = Some nd \<and> content nd = NODE_APP l r)"
  by (auto simp: is_app_def kind_of_def split: option.splits NodeUnion.splits)

lemma is_lambda_iff:
  "is_lambda h a \<longleftrightarrow> (\<exists>nd b v. nodes h a = Some nd \<and> content nd = NODE_LAMBDA b v)"
  by (auto simp: is_lambda_def kind_of_def split: option.splits NodeUnion.splits)

lemma is_var_iff: "is_var h a \<longleftrightarrow> (\<exists>nd. nodes h a = Some nd \<and> content nd = NODE_VAR)"
  by (auto simp: is_var_def kind_of_def split: option.splits NodeUnion.splits)

lemma kind_of_iff: "kind_of h a = Some k \<longleftrightarrow> (\<exists>nd. nodes h a = Some nd \<and> content nd = k)"
  by (auto simp: kind_of_def)

lemma heap_boundedD: "heap_bounded h \<Longrightarrow> nodes h a = Some nd \<Longrightarrow> a < next_node h"
  unfolding heap_bounded_def by (metis not_le option.distinct(1))

lemma evolvedD:
  assumes "evolved h0 fn h" "a < next_node h0" "nodes h0 a = Some nd0"
  shows "\<exists>nd. nodes h a = Some nd \<and> content nd = content nd0 \<and> uplinks nd = uplinks nd0 \<and>
           (is_lambda h0 a \<longrightarrow> (cache nd = STOP \<longleftrightarrow> a = fn)) \<and>
           (is_app h0 a \<longrightarrow> cache nd = NULL \<or>
              (\<exists>c. cache nd = PTR c \<and> next_node h0 \<le> c \<and> is_app h c))"
proof -
  from assms(1,2) have "case nodes h0 a of
           None \<Rightarrow> nodes h a = None
         | Some nd0 \<Rightarrow>
             (\<exists>nd. nodes h a = Some nd \<and> content nd = content nd0 \<and>
                uplinks nd = uplinks nd0 \<and>
                (is_lambda h0 a \<longrightarrow> (cache nd = STOP \<longleftrightarrow> a = fn)) \<and>
                (is_app h0 a \<longrightarrow> cache nd = NULL \<or>
                   (\<exists>c. cache nd = PTR c \<and> next_node h0 \<le> c \<and> is_app h c)))"
    unfolding evolved_def by blast
  with assms(3) show ?thesis by simp
qed

lemma evolved_bounded: "evolved h0 fn h \<Longrightarrow> heap_bounded h"
  by (simp add: evolved_def)

lemma evolved_next: "evolved h0 fn h \<Longrightarrow> next_node h0 \<le> next_node h"
  by (simp add: evolved_def)

lemma evolved_refl:
  assumes "heap_bounded h" "caches_ready fn h"
  shows "evolved h fn h"
  using assms unfolding evolved_def caches_ready_def
  by (auto split: option.splits)

lemma finite_uncached [simp]: "finite (uncached N h)"
  by (simp add: uncached_def)

text \<open>An old node keeps its kind.\<close>

lemma evolved_is_app:
  assumes "evolved h0 fn h" "a < next_node h0"
  shows "is_app h a \<longleftrightarrow> is_app h0 a"
proof (cases "nodes h0 a")
  case None
  with assms have "nodes h a = None" unfolding evolved_def by (auto split: option.splits)
  with None show ?thesis by (simp add: is_app_iff)
next
  case (Some nd0)
  from evolvedD [OF assms this] Some show ?thesis by (auto simp: is_app_iff)
qed

text \<open>The three writes of a pass.\<close>

lemma evolved_new_node:
  assumes e: "evolved h0 fn h" and n: "new_node X h = (c, h1)"
  shows "c = next_node h" "next_node h0 \<le> c" "evolved h0 fn h1" "nodes h1 c = Some X"
    "uncached (next_node h0) h1 = uncached (next_node h0) h"
proof -
  from n have c: "c = next_node h"
    and h1: "h1 = h\<lparr>nodes := (nodes h)(next_node h \<mapsto> X), next_node := Suc (next_node h)\<rparr>"
    by (auto simp: new_node_def)
  show "c = next_node h" by fact
  from e c show le: "next_node h0 \<le> c" by (simp add: evolved_def)
  from h1 c show "nodes h1 c = Some X" by simp
  have old: "nodes h1 a = nodes h a" if "a < next_node h0" for a
    using that le c h1 by auto
  have app: "is_app h1 a" if "is_app h a" for a
  proof -
    from that obtain nd where "nodes h a = Some nd" by (auto simp: is_app_iff)
    from heap_boundedD [OF evolved_bounded [OF e] this] have "a \<noteq> next_node h" by simp
    with that h1 show ?thesis by (simp add: is_app_iff)
  qed
  have b: "heap_bounded h1"
    using evolved_bounded [OF e] h1 by (auto simp: heap_bounded_def)
  show "evolved h0 fn h1"
    unfolding evolved_def
  proof (intro conjI allI impI)
    from le c h1 show "next_node h0 \<le> next_node h1" by simp
    show "heap_bounded h1" by fact
    fix a assume a: "a < next_node h0"
    show "case nodes h0 a of
           None \<Rightarrow> nodes h1 a = None
         | Some nd0 \<Rightarrow>
             (\<exists>nd. nodes h1 a = Some nd \<and> content nd = content nd0 \<and>
                uplinks nd = uplinks nd0 \<and>
                (is_lambda h0 a \<longrightarrow> (cache nd = STOP \<longleftrightarrow> a = fn)) \<and>
                (is_app h0 a \<longrightarrow> cache nd = NULL \<or>
                   (\<exists>c. cache nd = PTR c \<and> next_node h0 \<le> c \<and> is_app h1 c)))"
    proof (cases "nodes h0 a")
      case None
      with e a have "nodes h a = None" unfolding evolved_def by (auto split: option.splits)
      with None old [OF a] show ?thesis by simp
    next
      case (Some nd0)
      from evolvedD [OF e a Some] obtain nd where
        "nodes h a = Some nd" "content nd = content nd0" "uplinks nd = uplinks nd0"
        "is_lambda h0 a \<longrightarrow> (cache nd = STOP \<longleftrightarrow> a = fn)"
        "is_app h0 a \<longrightarrow> cache nd = NULL \<or>
              (\<exists>c. cache nd = PTR c \<and> next_node h0 \<le> c \<and> is_app h c)"
        by blast
      with Some old [OF a] app show ?thesis by auto
    qed
  qed
  show "uncached (next_node h0) h1 = uncached (next_node h0) h"
    using old unfolding uncached_def is_app_iff by auto
qed

lemma evolved_set_cache:
  assumes e: "evolved h0 fn h" and a: "a < next_node h0" and nd: "nodes h a = Some nd"
    and okA: "is_app h0 a \<longrightarrow> next_node h0 \<le> c \<and> is_app h c"
    and okL: "is_lambda h0 a \<longrightarrow> a \<noteq> fn"
  shows "\<exists>h2. set_cache a (PTR c) h = Inr h2 \<and> evolved h0 fn h2 \<and>
           uncached (next_node h0) h2 = uncached (next_node h0) h - {a}"
proof -
  define h2 where "h2 = store a (nd\<lparr>cache := PTR c\<rparr>) h"
  from nd have s: "set_cache a (PTR c) h = Inr h2" by (simp add: set_cache_def h2_def)
  have other: "nodes h2 b = nodes h b" if "b \<noteq> a" for b
    using that by (simp add: h2_def)
  have self: "nodes h2 a = Some (nd\<lparr>cache := PTR c\<rparr>)" by (simp add: h2_def)
  have app: "is_app h2 b \<longleftrightarrow> is_app h b" for b
    using nd by (cases "b = a") (auto simp: is_app_iff h2_def)
  have b: "heap_bounded h2"
    using evolved_bounded [OF e] nd unfolding heap_bounded_def h2_def by auto
  have ev: "evolved h0 fn h2"
    unfolding evolved_def
  proof (intro conjI allI impI)
    from e show "next_node h0 \<le> next_node h2" by (simp add: evolved_def h2_def)
    show "heap_bounded h2" by fact
    fix b assume b: "b < next_node h0"
    show "case nodes h0 b of
           None \<Rightarrow> nodes h2 b = None
         | Some nd0 \<Rightarrow>
             (\<exists>nd. nodes h2 b = Some nd \<and> content nd = content nd0 \<and>
                uplinks nd = uplinks nd0 \<and>
                (is_lambda h0 b \<longrightarrow> (cache nd = STOP \<longleftrightarrow> b = fn)) \<and>
                (is_app h0 b \<longrightarrow> cache nd = NULL \<or>
                   (\<exists>c. cache nd = PTR c \<and> next_node h0 \<le> c \<and> is_app h2 c)))"
    proof (cases "nodes h0 b")
      case None
      with e b have "nodes h b = None" unfolding evolved_def by (auto split: option.splits)
      with nd have "b \<noteq> a" by auto
      with None \<open>nodes h b = None\<close> other show ?thesis by simp
    next
      case (Some nd0)
      from evolvedD [OF e b Some] obtain ndb where ndb:
        "nodes h b = Some ndb" "content ndb = content nd0" "uplinks ndb = uplinks nd0"
        "is_lambda h0 b \<longrightarrow> (cache ndb = STOP \<longleftrightarrow> b = fn)"
        "is_app h0 b \<longrightarrow> cache ndb = NULL \<or>
              (\<exists>c. cache ndb = PTR c \<and> next_node h0 \<le> c \<and> is_app h c)"
        by blast
      show ?thesis
      proof (cases "b = a")
        case True
        with ndb nd have "ndb = nd" by simp
        with True Some ndb self okA okL app show ?thesis by auto
      next
        case False
        with Some ndb other app show ?thesis by auto
      qed
    qed
  qed
  have "x \<in> uncached (next_node h0) h2 \<longleftrightarrow> x \<in> uncached (next_node h0) h - {a}" for x
    using other [of x] self by (cases "x = a") (auto simp: uncached_def app)
  then have "uncached (next_node h0) h2 = uncached (next_node h0) h - {a}" by blast
  with s ev show ?thesis by blast
qed

lemma evolved_store_new:
  assumes e: "evolved h0 fn h" and c: "next_node h0 \<le> c" and cn: "nodes h c = Some cn"
    and k: "content cn = NODE_APP cl cr" "content cn' = NODE_APP cl' cr'"
  shows "evolved h0 fn (store c cn' h)"
    "uncached (next_node h0) (store c cn' h) = uncached (next_node h0) h"
proof -
  have old: "nodes (store c cn' h) a = nodes h a" if "a < next_node h0" for a
    using that c by simp
  have app: "is_app (store c cn' h) b \<longleftrightarrow> is_app h b" for b
    using cn k by (cases "b = c") (auto simp: is_app_iff)
  have b: "heap_bounded (store c cn' h)"
    using evolved_bounded [OF e] cn unfolding heap_bounded_def by auto
  show "evolved h0 fn (store c cn' h)"
    unfolding evolved_def
  proof (intro conjI allI impI)
    from e show "next_node h0 \<le> next_node (store c cn' h)" by (simp add: evolved_def)
    show "heap_bounded (store c cn' h)" by fact
    fix a assume a: "a < next_node h0"
    show "case nodes h0 a of
           None \<Rightarrow> nodes (store c cn' h) a = None
         | Some nd0 \<Rightarrow>
             (\<exists>nd. nodes (store c cn' h) a = Some nd \<and> content nd = content nd0 \<and>
                uplinks nd = uplinks nd0 \<and>
                (is_lambda h0 a \<longrightarrow> (cache nd = STOP \<longleftrightarrow> a = fn)) \<and>
                (is_app h0 a \<longrightarrow> cache nd = NULL \<or>
                   (\<exists>ca. cache nd = PTR ca \<and> next_node h0 \<le> ca \<and> is_app (store c cn' h) ca)))"
    proof (cases "nodes h0 a")
      case None
      with e a have "nodes h a = None" unfolding evolved_def by (auto split: option.splits)
      with None old [OF a] show ?thesis by simp
    next
      case (Some nd0)
      from evolvedD [OF e a Some] obtain nd where
        "nodes h a = Some nd" "content nd = content nd0" "uplinks nd = uplinks nd0"
        "is_lambda h0 a \<longrightarrow> (cache nd = STOP \<longleftrightarrow> a = fn)"
        "is_app h0 a \<longrightarrow> cache nd = NULL \<or>
              (\<exists>c. cache nd = PTR c \<and> next_node h0 \<le> c \<and> is_app h c)"
        by blast
      with Some old [OF a] app show ?thesis unfolding old [OF a] by auto
    qed
  qed
  have "x \<in> uncached (next_node h0) (store c cn' h) \<longleftrightarrow> x \<in> uncached (next_node h0) h" for x
    using c by (cases "x = c") (auto simp: uncached_def app)
  then show "uncached (next_node h0) (store c cn' h) = uncached (next_node h0) h" by blast
qed

lemma need_mono:
  assumes "k' \<le> k"
  shows "need h0 fn k' cpath p \<le> need h0 fn k cpath p"
proof -
  from assms have "k' * Suc (next_node h0) \<le> k * Suc (next_node h0)"
    by (rule mult_le_mono1)
  then show ?thesis unfolding need_def by auto
qed

lemma need_pos: "0 < need h0 fn k cpath p"
  by (simp add: need_def)

lemma distinct_bound:
  assumes "distinct xs" "set xs \<subseteq> {..<N::nat}"
  shows "length xs \<le> N"
proof -
  from assms(1) have "length xs = card (set xs)" by (simp add: distinct_card)
  also from assms(2) have "\<dots> \<le> card {..<N}" by (intro card_mono) auto
  finally show ?thesis by simp
qed

text \<open>The parents of a node that is being copied, and the variable of a lambda, may be
  visited next.\<close>

lemma parent_callable:
  assumes r: "records_ok h0" and hb: "heap_bounded h0" and ub: "unique_binders h0"
    and nd0: "nodes h0 into = Some nd0" and u: "u \<in> set (uplinks nd0)"
    and into: "callable h0 fn cpath into" "into \<noteq> fn"
  shows "callable h0 fn (if is_app h0 into then [] else into # cpath) (link u)"
proof -
  from r nd0 u have "edge_ok h0 into u" unfolding records_ok_def by blast
  then obtain pn where pn: "nodes h0 (link u) = Some pn"
    "(into, type u) \<in> set (out_edges (content pn))"
    by (auto simp: edge_ok_def split: option.splits)
  from heap_boundedD [OF hb pn(1)] have lt: "link u < next_node h0" .
  show ?thesis
  proof (cases "content pn")
    case (NODE_APP l r)
    with pn have "is_app h0 (link u)" by (auto simp: is_app_iff)
    with lt show ?thesis by (simp add: callable_def)
  next
    case (NODE_LAMBDA b v)
    with pn have b: "b = into" by simp
    from NODE_LAMBDA pn b have k: "kind_of h0 (link u) = Some (NODE_LAMBDA into v)"
      by (simp add: kind_of_iff)
    from NODE_LAMBDA pn have lam: "is_lambda h0 (link u)" by (auto simp: is_lambda_iff)
    from lam have nv: "\<not> is_var h0 (link u)" by (auto simp: is_lambda_iff is_var_iff)
    show ?thesis
    proof (cases "is_app h0 into")
      case True
      have "\<not> lv_pred h0 fn m (link u)" for m
        using k nv True by (auto simp: lv_pred_def)
      with True lt lam show ?thesis by (simp add: callable_def)
    next
      case False
      with into have c: "chained h0 fn (into # cpath)" "distinct (into # cpath)"
        "set (into # cpath) \<subseteq> {..<next_node h0}"
        by (auto simp: callable_def)
      from False k have p: "lv_pred h0 fn into (link u)" by (auto simp: lv_pred_def)
      from chained_extend [OF c(1) ub c(2) p] have "link u \<notin> set (into # cpath)" .
      with False lt lam c p show ?thesis by (simp add: callable_def)
    qed
  next
    case NODE_VAR
    with pn show ?thesis by simp
  next
    case (NODE_PRIM x)
    with pn show ?thesis by simp
  qed
qed

lemma var_callable:
  assumes v: "vars_ok h0" and hb: "heap_bounded h0" and ub: "unique_binders h0"
    and nd0: "nodes h0 into = Some nd0" "content nd0 = NODE_LAMBDA b var"
    and into: "callable h0 fn cpath into" "into \<noteq> fn"
  shows "callable h0 fn (into # cpath) var"
proof -
  from nd0 have k: "kind_of h0 into = Some (NODE_LAMBDA b var)" by (simp add: kind_of_iff)
  with v have iv: "is_var h0 var" unfolding vars_ok_def by blast
  then obtain vn where "nodes h0 var = Some vn" by (auto simp: is_var_iff)
  from heap_boundedD [OF hb this] have lt: "var < next_node h0" .
  from nd0 have "\<not> is_app h0 into" by (auto simp: is_app_iff)
  with into have c: "chained h0 fn (into # cpath)" "distinct (into # cpath)"
    "set (into # cpath) \<subseteq> {..<next_node h0}"
    by (auto simp: callable_def)
  from k iv into have p: "lv_pred h0 fn into var" by (auto simp: lv_pred_def)
  from chained_extend [OF c(1) ub c(2) p] have "var \<notin> set (into # cpath)" .
  with lt iv c p show ?thesis by (simp add: callable_def)
qed

lemma returns_ok_refl: "evolved h0 fn h \<Longrightarrow> returns_ok h0 fn h (Inr h)"
  by (simp add: returns_ok_def)

lemma returns_okE:
  assumes "returns_ok h0 fn h r"
  obtains h' where "r = Inr h'" "evolved h0 fn h'"
    "uncached (next_node h0) h' \<subseteq> uncached (next_node h0) h"
    "card (uncached (next_node h0) h') \<le> card (uncached (next_node h0) h)"
proof -
  from assms obtain h' where h': "r = Inr h'" "evolved h0 fn h'"
    "uncached (next_node h0) h' \<subseteq> uncached (next_node h0) h"
    unfolding returns_ok_def by blast
  from h'(3) have "card (uncached (next_node h0) h') \<le> card (uncached (next_node h0) h)"
    by (intro card_mono) auto
  with h' that show thesis by blast
qed

lemma returns_ok_after:
  assumes "uncached (next_node h0) h1 \<subseteq> uncached (next_node h0) h"
    and "returns_ok h0 fn h1 r"
  shows "returns_ok h0 fn h r"
  using assms unfolding returns_ok_def by blast

lemma upcopy_uplinks_returns:
  assumes calls: "\<And>h p t. evolved h0 fn h \<Longrightarrow> callable h0 fn cpath p \<Longrightarrow>
      need h0 fn (card (uncached (next_node h0) h)) cpath p \<le> n \<Longrightarrow>
      returns_ok h0 fn h (upcopy n newNode p t h)"
  shows "evolved h0 fn h \<Longrightarrow> \<forall>u \<in> set us. callable h0 fn cpath (link u) \<Longrightarrow>
      \<forall>u \<in> set us. need h0 fn (card (uncached (next_node h0) h)) cpath (link u) \<le> n \<Longrightarrow>
      returns_ok h0 fn h (upcopy_uplinks n newNode us h)"
proof (induction us arbitrary: h)
  case Nil
  then show ?case by (simp add: returns_ok_refl)
next
  case (Cons u us)
  from Cons.prems have "returns_ok h0 fn h (upcopy n newNode (link u) (type u) h)"
    by (intro calls) auto
  then obtain h1 where h1: "upcopy n newNode (link u) (type u) h = Inr h1" "evolved h0 fn h1"
    "uncached (next_node h0) h1 \<subseteq> uncached (next_node h0) h"
    "card (uncached (next_node h0) h1) \<le> card (uncached (next_node h0) h)"
    by (rule returns_okE)
  have "\<forall>u \<in> set us. need h0 fn (card (uncached (next_node h0) h1)) cpath (link u) \<le> n"
  proof
    fix u' assume u': "u' \<in> set us"
    from need_mono [OF h1(4)]
    have "need h0 fn (card (uncached (next_node h0) h1)) cpath (link u')
        \<le> need h0 fn (card (uncached (next_node h0) h)) cpath (link u')" .
    also from Cons.prems u' have "\<dots> \<le> n" by simp
    finally show "need h0 fn (card (uncached (next_node h0) h1)) cpath (link u') \<le> n" .
  qed
  with Cons.prems h1 have "returns_ok h0 fn h1 (upcopy_uplinks n newNode us h1)"
    by (intro Cons.IH) auto
  with h1(3) have "returns_ok h0 fn h (upcopy_uplinks n newNode us h1)"
    by (rule returns_ok_after)
  with h1(1) show ?case by simp
qed

lemma need_after_app:
  assumes "k' < k" and p: "p < next_node h0"
  shows "need h0 fn k' [] p \<le> k * Suc (next_node h0)"
proof -
  from assms have "Suc k' \<le> k" by simp
  then have "Suc k' * Suc (next_node h0) \<le> k * Suc (next_node h0)" by (rule mult_le_mono1)
  moreover from p have "need h0 fn k' [] p \<le> Suc k' * Suc (next_node h0)"
    by (auto simp: need_def)
  ultimately show ?thesis by simp
qed

lemma need_step:
  assumes p: "callable h0 fn (into # cpath) p" and into: "\<not> is_app h0 into" "into \<noteq> fn"
    and k: "k' \<le> k"
  shows "need h0 fn k' (into # cpath) p < need h0 fn k cpath into"
proof -
  from k have m: "k' * Suc (next_node h0) \<le> k * Suc (next_node h0)" by (rule mult_le_mono1)
  show ?thesis
  proof (cases "p = fn \<or> is_app h0 p")
    case True
    with m into show ?thesis by (auto simp: need_def)
  next
    case False
    with p have "distinct (p # into # cpath)" "set (p # into # cpath) \<subseteq> {..<next_node h0}"
      by (auto simp: callable_def)
    from distinct_bound [OF this] have "Suc (Suc (length cpath)) \<le> next_node h0" by simp
    with m False into show ?thesis by (auto simp: need_def)
  qed
qed

lemma upcopy_returns:
  assumes r: "records_ok h0" and v: "vars_ok h0" and ub: "unique_binders h0"
    and hb: "heap_bounded h0" and fl: "is_lambda h0 fn"
  shows "evolved h0 fn h \<Longrightarrow> callable h0 fn cpath into \<Longrightarrow>
      need h0 fn (card (uncached (next_node h0) h)) cpath into \<le> n \<Longrightarrow>
      returns_ok h0 fn h (upcopy n nc into t h)"
proof (induction n arbitrary: h cpath into nc t)
  case 0
  with need_pos [of h0 fn "card (uncached (next_node h0) h)" cpath into] show ?case by simp
next
  case (Suc n)
  note e = \<open>evolved h0 fn h\<close> and c = \<open>callable h0 fn cpath into\<close>
  let ?N = "next_node h0"
  let ?k = "card (uncached ?N h)"
  from c have lt: "into < ?N" and kind: "is_app h0 into \<or> is_lambda h0 into \<or> is_var h0 into"
    by (auto simp: callable_def)
  from kind obtain nd0 where nd0: "nodes h0 into = Some nd0"
    by (auto simp: is_app_iff is_lambda_iff is_var_iff)
  from evolvedD [OF e lt nd0] obtain nd where nd: "nodes h into = Some nd"
    "content nd = content nd0" "uplinks nd = uplinks nd0"
    "is_lambda h0 into \<longrightarrow> (cache nd = STOP \<longleftrightarrow> into = fn)"
    "is_app h0 into \<longrightarrow> cache nd = NULL \<or>
              (\<exists>c. cache nd = PTR c \<and> ?N \<le> c \<and> is_app h c)"
    by blast
  have loop: "returns_ok h0 fn h' (upcopy_uplinks n newNode (uplinks nd) h')"
    if e': "evolved h0 fn h'" and ne: "into \<noteq> fn"
      and fuel: "\<And>p. callable h0 fn (if is_app h0 into then [] else into # cpath) p \<Longrightarrow>
         need h0 fn (card (uncached ?N h')) (if is_app h0 into then [] else into # cpath) p \<le> n"
    for h' newNode
  proof (rule upcopy_uplinks_returns [where cpath = "if is_app h0 into then [] else into # cpath"])
    show "evolved h0 fn h'" by fact
    show pc: "\<forall>u \<in> set (uplinks nd).
        callable h0 fn (if is_app h0 into then [] else into # cpath) (link u)"
      using parent_callable [OF r hb ub nd0 _ c ne] nd(3) by simp
    show "\<forall>u \<in> set (uplinks nd). need h0 fn (card (uncached ?N h'))
        (if is_app h0 into then [] else into # cpath) (link u) \<le> n"
      using pc fuel by blast
    show "returns_ok h0 fn h'' (upcopy n newNode p t' h'')"
      if "evolved h0 fn h''" "callable h0 fn (if is_app h0 into then [] else into # cpath) p"
        "need h0 fn (card (uncached ?N h'')) (if is_app h0 into then [] else into # cpath) p \<le> n"
      for h'' p t'
      using that by (rule Suc.IH)
  qed
  show ?case
  proof (cases "content nd0")
    case (NODE_APP l rr)
    with nd0 have app: "is_app h0 into" by (auto simp: is_app_iff)
    with fl have ne: "into \<noteq> fn" by (auto simp: is_app_iff is_lambda_iff)
    from app ne Suc.prems have fuel: "?k * Suc ?N \<le> n" by (simp add: need_def)
    from nd app consider (fresh) "cache nd = NULL"
      | (again) c where "cache nd = PTR c" "?N \<le> c" "is_app h c"
      by blast
    then show ?thesis
    proof cases
      case fresh
      define X where "X = \<lparr>cache = NULL, uplinks = [],
         content = (if t = UPLINK_APPL then NODE_APP nc rr else NODE_APP l nc)\<rparr>"
      obtain c h1 where n1: "new_node X h = (c, h1)" by (cases "new_node X h")
      note a1 = evolved_new_node [OF e n1]
      from a1(1) lt evolved_next [OF e] have "into \<noteq> c" by simp
      with n1 nd have nd1: "nodes h1 into = Some nd" by (auto simp: new_node_def)
      from a1(4) have "is_app h1 c" by (auto simp: is_app_iff X_def)
      with a1(2) have "is_app h0 into \<longrightarrow> ?N \<le> c \<and> is_app h1 c" by simp
      from evolved_set_cache [OF a1(3) lt nd1 this] ne
      obtain h2 where h2: "set_cache into (PTR c) h1 = Inr h2" "evolved h0 fn h2"
        "uncached ?N h2 = uncached ?N h1 - {into}"
        by blast
      from lt nd fresh app evolved_is_app [OF e lt] have "into \<in> uncached ?N h"
        by (simp add: uncached_def)
      with h2(3) a1(5) have sub: "uncached ?N h2 \<subset> uncached ?N h" by auto
      then have less: "card (uncached ?N h2) < ?k" by (intro psubset_card_mono) auto
      from sub have sub': "uncached ?N h2 \<subseteq> uncached ?N h" by (rule psubset_imp_subset)
      have "returns_ok h0 fn h2 (upcopy_uplinks n c (uplinks nd) h2)"
      proof (rule loop [OF h2(2) ne])
        fix p assume "callable h0 fn (if is_app h0 into then [] else into # cpath) p"
        then have "p < ?N" by (simp add: callable_def)
        from need_after_app [OF less this, where fn = fn] fuel app
        show "need h0 fn (card (uncached ?N h2)) (if is_app h0 into then [] else into # cpath) p \<le> n"
          by simp
      qed
      with sub' have "returns_ok h0 fn h (upcopy_uplinks n c (uplinks nd) h2)"
        by (rule returns_ok_after)
      with nd NODE_APP fresh n1 h2(1) show ?thesis by (simp add: deref_def X_def)
    next
      case again
      from again(3) obtain cn cl cr where cn: "nodes h c = Some cn" "content cn = NODE_APP cl cr"
        by (auto simp: is_app_iff)
      define cn' where "cn' = cn\<lparr>content := (if t = UPLINK_APPL then NODE_APP nc cr
                                               else NODE_APP cl nc)\<rparr>"
      have "\<exists>cl' cr'. content cn' = NODE_APP cl' cr'" by (simp add: cn'_def)
      then obtain cl' cr' where "content cn' = NODE_APP cl' cr'" by blast
      from evolved_store_new [OF e again(2) cn this]
      have "returns_ok h0 fn h (Inr (store c cn' h))" by (simp add: returns_ok_def)
      with nd NODE_APP again(1) cn show ?thesis by (simp add: deref_def cn'_def)
    qed
  next
    case (NODE_LAMBDA b var)
    with nd0 have lam: "is_lambda h0 into" by (auto simp: is_lambda_iff)
    then have napp: "\<not> is_app h0 into" by (auto simp: is_app_iff is_lambda_iff)
    show ?thesis
    proof (cases "cache nd = STOP")
      case True
      with nd NODE_LAMBDA e show ?thesis by (simp add: deref_def returns_ok_refl)
    next
      case False
      with nd lam have ne: "into \<noteq> fn" by simp
      define XV where "XV = \<lparr>cache = NULL, uplinks = [], content = NODE_VAR\<rparr>"
      obtain c1 h1 where n1: "new_node XV h = (c1, h1)" by (cases "new_node XV h")
      define XL where "XL = \<lparr>cache = NULL, uplinks = [], content = NODE_LAMBDA nc c1\<rparr>"
      obtain c2 h2 where n2: "new_node XL h1 = (c2, h2)" by (cases "new_node XL h1")
      note a1 = evolved_new_node [OF e n1]
      note a2 = evolved_new_node [OF a1(3) n2]
      from a1(1) a2(1) n1 have "into \<noteq> c1" "into \<noteq> c2"
        using lt evolved_next [OF e] by (auto simp: new_node_def)
      with n1 n2 nd have nd2: "nodes h2 into = Some nd" by (auto simp: new_node_def)
      from napp have "is_app h0 into \<longrightarrow> ?N \<le> c2 \<and> is_app h2 c2" by simp
      from evolved_set_cache [OF a2(3) lt nd2 this] ne
      obtain h3 where h3: "set_cache into (PTR c2) h2 = Inr h3" "evolved h0 fn h3"
        "uncached ?N h3 = uncached ?N h2 - {into}"
        by blast
      from h3(3) a2(5) a1(5) have sub3: "uncached ?N h3 \<subseteq> uncached ?N h" by auto
      then have k3: "card (uncached ?N h3) \<le> ?k" by (intro card_mono) auto
      from NODE_LAMBDA have "content nd0 = NODE_LAMBDA b var" .
      from var_callable [OF v hb ub nd0 this c ne] have vc: "callable h0 fn (into # cpath) var" .
      from need_step [OF vc napp ne k3] Suc.prems
      have "need h0 fn (card (uncached ?N h3)) (into # cpath) var \<le> n" by simp
      with h3(2) vc have "returns_ok h0 fn h3 (upcopy n c1 var UPLINK_NA h3)"
        by (rule Suc.IH)
      then obtain h4 where h4: "upcopy n c1 var UPLINK_NA h3 = Inr h4" "evolved h0 fn h4"
        "uncached ?N h4 \<subseteq> uncached ?N h3" "card (uncached ?N h4) \<le> card (uncached ?N h3)"
        by (rule returns_okE)
      from h4(4) k3 have k4: "card (uncached ?N h4) \<le> ?k" by simp
      have "returns_ok h0 fn h4 (upcopy_uplinks n c2 (uplinks nd) h4)"
      proof (rule loop [OF h4(2) ne])
        fix p assume "callable h0 fn (if is_app h0 into then [] else into # cpath) p"
        with napp have "callable h0 fn (into # cpath) p" by simp
        from need_step [OF this napp ne k4] Suc.prems napp
        show "need h0 fn (card (uncached ?N h4)) (if is_app h0 into then [] else into # cpath) p \<le> n"
          by simp
      qed
      with order_trans [OF h4(3) sub3]
      have "returns_ok h0 fn h (upcopy_uplinks n c2 (uplinks nd) h4)"
        by (rule returns_ok_after)
      with nd NODE_LAMBDA False n1 n2 h3(1) h4(1) show ?thesis
        by (simp add: deref_def XV_def XL_def)
    qed
  next
    case NODE_VAR
    with nd0 have var: "is_var h0 into" by (auto simp: is_var_iff)
    then have napp: "\<not> is_app h0 into" and nlam: "\<not> is_lambda h0 into"
      by (auto simp: is_app_iff is_lambda_iff is_var_iff)
    from nlam fl have ne: "into \<noteq> fn" by auto
    from napp have "is_app h0 into \<longrightarrow> ?N \<le> nc \<and> is_app h nc" by simp
    from evolved_set_cache [OF e lt nd(1) this] nlam
    obtain h1 where h1: "set_cache into (PTR nc) h = Inr h1" "evolved h0 fn h1"
      "uncached ?N h1 = uncached ?N h - {into}"
      by blast
    from h1(3) have sub: "uncached ?N h1 \<subseteq> uncached ?N h" by auto
    then have k1: "card (uncached ?N h1) \<le> ?k" by (intro card_mono) auto
    have "returns_ok h0 fn h1 (upcopy_uplinks n nc (uplinks nd) h1)"
    proof (rule loop [OF h1(2) ne])
      fix p assume "callable h0 fn (if is_app h0 into then [] else into # cpath) p"
      with napp have "callable h0 fn (into # cpath) p" by simp
      from need_step [OF this napp ne k1] Suc.prems napp
      show "need h0 fn (card (uncached ?N h1)) (if is_app h0 into then [] else into # cpath) p \<le> n"
        by simp
    qed
    with sub have "returns_ok h0 fn h (upcopy_uplinks n nc (uplinks nd) h1)"
      by (rule returns_ok_after)
    with nd NODE_VAR h1(1) show ?thesis by (simp add: deref_def)
  next
    case (NODE_PRIM p)
    with kind nd0 show ?thesis by (auto simp: is_app_iff is_lambda_iff is_var_iff)
  qed
qed

lemma card_uncached: "card (uncached N h) \<le> N"
proof -
  have "uncached N h \<subseteq> {..<N}" by (auto simp: uncached_def)
  then have "card (uncached N h) \<le> card {..<N}" by (intro card_mono) auto
  then show ?thesis by simp
qed

lemma need_bound:
  assumes "p < next_node h0"
  shows "need h0 fn (card (uncached (next_node h0) h)) [] p \<le> Suc (next_node h0) * Suc (next_node h0)"
proof -
  have "card (uncached (next_node h0) h) * Suc (next_node h0) \<le> next_node h0 * Suc (next_node h0)"
    by (rule mult_le_mono1) (rule card_uncached)
  with assms show ?thesis by (auto simp: need_def)
qed

text \<open>The three ways in which the recursion stops.\<close>

lemma upcopy_stops_at_STOP:
  assumes "nodes h into = Some nd" "content nd = NODE_LAMBDA body var" "cache nd = STOP"
  shows "upcopy (Suc n) newchild into t h = Inr h"
  using assms by (simp add: deref_def)

lemma upcopy_stops_at_copied_app:
  assumes "nodes h into = Some nd" "content nd = NODE_APP l r" "cache nd = PTR c"
    and "nodes h c = Some cn" "content cn = NODE_APP cl cr"
  shows "upcopy (Suc n) newchild into t h =
    Inr (store c (cn\<lparr>content := (if t = UPLINK_APPL then NODE_APP newchild cr
                                   else NODE_APP cl newchild)\<rparr>) h)"
  using assms by (simp add: deref_def)

lemma upcopy_stops_without_uplinks: "upcopy_uplinks n newNode [] h = Inr h"
  by simp

text \<open>Marking the lambda that is being reduced.\<close>

lemma mark_STOP:
  assumes wf: "well_formed h" and fn: "kind_of h fn = Some (NODE_LAMBDA body var)"
  shows "\<exists>h1. set_cache fn STOP h = Inr h1 \<and> next_node h1 = next_node h \<and>
     records_ok h1 \<and> vars_ok h1 \<and> unique_binders h1 \<and> heap_bounded h1 \<and>
     caches_ready fn h1 \<and> kind_of h1 = kind_of h"
proof -
  from fn obtain fnd where fnd: "nodes h fn = Some fnd" "content fnd = NODE_LAMBDA body var"
    by (auto simp: kind_of_iff)
  define h1 where "h1 = store fn (fnd\<lparr>cache := STOP\<rparr>) h"
  from fnd have s: "set_cache fn STOP h = Inr h1" by (simp add: set_cache_def h1_def)
  have k: "kind_of h1 = kind_of h"
    using fnd by (auto simp: kind_of_def h1_def fun_eq_iff)
  have live: "(nodes h1 a = None) = (nodes h a = None)" for a
    using fnd by (simp add: h1_def)
  have ups: "nodes h1 a = Some nd1 \<Longrightarrow> \<exists>nd. nodes h a = Some nd \<and> uplinks nd1 = uplinks nd \<and>
      content nd1 = content nd \<and> (a \<noteq> fn \<longrightarrow> cache nd1 = cache nd) \<and> (a = fn \<longrightarrow> cache nd1 = STOP)"
    for a nd1
    using fnd by (cases "a = fn") (auto simp: h1_def)
  have eo: "edge_ok h1 c u = edge_ok h c u" for c u
    using fnd by (auto simp: edge_ok_def h1_def)
  from wf have w: "heap_bounded h" "records_ok h" "vars_ok h" "unique_binders h" "caches_clear h"
    by (auto simp: well_formed_def)
  have 1: "records_ok h1"
    unfolding records_ok_def eo using w(2) ups unfolding records_ok_def by metis
  have 2: "vars_ok h1" using w(3) by (simp add: vars_ok_def is_var_def k)
  have 3: "unique_binders h1" using w(4) by (simp add: unique_binders_def k)
  have 4: "heap_bounded h1" using w(1) live by (simp add: heap_bounded_def h1_def)
  have 5: "caches_ready fn h1"
    unfolding caches_ready_def
  proof (intro allI impI conjI)
    fix a nd1 assume a: "nodes h1 a = Some nd1"
    from ups [OF a] obtain nd where nd: "nodes h a = Some nd" "uplinks nd1 = uplinks nd"
      "content nd1 = content nd" "a \<noteq> fn \<longrightarrow> cache nd1 = cache nd" "a = fn \<longrightarrow> cache nd1 = STOP"
      by blast
    show "cache nd1 = NULL" if "is_app h1 a"
    proof -
      from that have app: "is_app h a" by (simp add: is_app_def k)
      with fnd have "a \<noteq> fn" by (auto simp: is_app_iff)
      with nd w(5) app show ?thesis by (auto simp: caches_clear_def)
    qed
    show "cache nd1 = STOP \<longleftrightarrow> a = fn" if "is_lambda h1 a"
    proof -
      from that have "is_lambda h a" by (simp add: is_lambda_def k)
      with nd(1) w(5) have "cache nd \<noteq> STOP" unfolding caches_clear_def by blast
      with nd(4,5) show ?thesis by (cases "a = fn") auto
    qed
  qed
  from s 1 2 3 4 5 k show ?thesis by (auto simp: h1_def)
qed

lemma root_callable:
  assumes v: "vars_ok h" and hb: "heap_bounded h" and ub: "unique_binders h"
    and fn: "kind_of h fn = Some (NODE_LAMBDA body var)"
  shows "callable h fn [] var"
proof -
  from v fn have iv: "is_var h var" unfolding vars_ok_def by blast
  then obtain vn where "nodes h var = Some vn" by (auto simp: is_var_iff)
  from heap_boundedD [OF hb this] have lt: "var < next_node h" .
  have "\<not> lv_pred h fn m var" for m
  proof
    assume "lv_pred h fn m var"
    with iv obtain b where "m \<noteq> fn" "kind_of h m = Some (NODE_LAMBDA b var)"
      by (auto simp: lv_pred_def is_var_iff kind_of_iff)
    with ub fn show False unfolding unique_binders_def by blast
  qed
  with lt iv show ?thesis by (simp add: callable_def)
qed

text \<open>
  C8. The pass of \<^verbatim>\<open>upcopy\<close> that \<^verbatim>\<open>beta_reduce\<close> starts terminates on a
  well-formed graph: when every uplink record names a live parent that has the node in
  that slot, the variable of every lambda is a live Var node that no other lambda binds,
  no application is copied and no lambda marked yet, then \<^verbatim>\<open>beta_reduce\<close> can put the
  sentinel into the lambda \<open>fn\<close> that it reduces, and the call of \<^verbatim>\<open>upcopy\<close> on the
  variable of \<open>fn\<close> returns, for every fuel from the square of the number of addresses
  on. The recursion stops at the lambda with the sentinel (\<open>upcopy_stops_at_STOP\<close>), at
  an application that has its copy (\<open>upcopy_stops_at_copied_app\<close>) and at a node without
  uplinks (\<open>upcopy_stops_without_uplinks\<close>); an application is copied once, and between
  two copies the calls go through lambdas and variables that are all different. That
  the owning edges have no cycle is not needed.
\<close>

theorem upcopy_pass_terminates:
  assumes wf: "well_formed h" and fn: "kind_of h fn = Some (NODE_LAMBDA body var)"
    and fuel: "Suc (next_node h) * Suc (next_node h) \<le> n"
  shows "\<exists>h1 h2. set_cache fn STOP h = Inr h1 \<and> upcopy n arg var UPLINK_NA h1 = Inr h2"
proof -
  from mark_STOP [OF wf fn] obtain h1 where h1: "set_cache fn STOP h = Inr h1"
    "next_node h1 = next_node h" "records_ok h1" "vars_ok h1" "unique_binders h1"
    "heap_bounded h1" "caches_ready fn h1" "kind_of h1 = kind_of h"
    by blast
  from fn h1(8) have fn1: "kind_of h1 fn = Some (NODE_LAMBDA body var)" by simp
  then have fl: "is_lambda h1 fn" by (simp add: is_lambda_def)
  from evolved_refl [OF h1(6,7)] have e: "evolved h1 fn h1" .
  from root_callable [OF h1(4,6,5) fn1] have c: "callable h1 fn [] var" .
  then have "var < next_node h1" by (simp add: callable_def)
  from need_bound [OF this, of fn h1] fuel h1(2)
  have "need h1 fn (card (uncached (next_node h1) h1)) [] var \<le> n" by simp
  from upcopy_returns [OF h1(3,4,5,6) fl e c this]
  have "returns_ok h1 fn h1 (upcopy n arg var UPLINK_NA h1)" .
  with h1(1) show ?thesis by (auto simp: returns_ok_def)
qed

text \<open>Checking the hypotheses on a store whose addresses are all below \<open>k\<close>.\<close>

lemma live_below:
  assumes "\<forall>p. k \<le> p \<longrightarrow> nodes h p = None" "nodes h a = Some nd"
  shows "a \<in> set [0..<k]"
  using assms by (metis atLeast0LessThan lessThan_iff not_le option.distinct(1) set_upt)

lemma well_formed_check:
  assumes b: "\<forall>p. k \<le> p \<longrightarrow> nodes h p = None" and n: "next_node h = k"
    and r: "list_all (\<lambda>c. case nodes h c of None \<Rightarrow> True
           | Some cn \<Rightarrow> list_all (edge_ok h c) (uplinks cn)) [0..<k]"
    and v: "list_all (\<lambda>a. case kind_of h a of Some (NODE_LAMBDA b v) \<Rightarrow> is_var h v
           | _ \<Rightarrow> True) [0..<k]"
    and u: "list_all (\<lambda>a. list_all (\<lambda>a'. case kind_of h a of
             Some (NODE_LAMBDA b v) \<Rightarrow>
               (case kind_of h a' of Some (NODE_LAMBDA b' v') \<Rightarrow> v = v' \<longrightarrow> a = a' | _ \<Rightarrow> True)
           | _ \<Rightarrow> True) [0..<k]) [0..<k]"
    and c: "list_all (\<lambda>a. case nodes h a of None \<Rightarrow> True
           | Some nd \<Rightarrow> (is_app h a \<longrightarrow> cache nd = NULL) \<and>
               (is_lambda h a \<longrightarrow> cache nd \<noteq> STOP)) [0..<k]"
  shows "well_formed h"
proof -
  have 1: "heap_bounded h" using b n by (simp add: heap_bounded_def)
  have 2: "records_ok h"
    unfolding records_ok_def
  proof (intro allI impI)
    fix c cn u assume a: "nodes h c = Some cn" "u \<in> set (uplinks cn)"
    from live_below [OF b a(1)] r
    have "case nodes h c of None \<Rightarrow> True | Some cn \<Rightarrow> list_all (edge_ok h c) (uplinks cn)"
      by (simp add: list_all_iff)
    with a show "edge_ok h c u" by (simp add: list_all_iff)
  qed
  have 3: "vars_ok h"
    unfolding vars_ok_def
  proof (intro allI impI)
    fix a b v assume a: "kind_of h a = Some (NODE_LAMBDA b v)"
    then obtain nd where "nodes h a = Some nd" by (auto simp: kind_of_iff)
    from live_below [OF b this] v
    have "case kind_of h a of Some (NODE_LAMBDA b v) \<Rightarrow> is_var h v | _ \<Rightarrow> True"
      by (simp add: list_all_iff)
    with a show "is_var h v" by simp
  qed
  have 4: "unique_binders h"
    unfolding unique_binders_def
  proof (intro allI impI)
    fix a a' b b' v
    assume a: "kind_of h a = Some (NODE_LAMBDA b v)" and a': "kind_of h a' = Some (NODE_LAMBDA b' v)"
    from a obtain nd where "nodes h a = Some nd" by (auto simp: kind_of_iff)
    from live_below [OF b this] have 1: "a \<in> set [0..<k]" .
    from a' obtain nd' where "nodes h a' = Some nd'" by (auto simp: kind_of_iff)
    from live_below [OF b this] have 2: "a' \<in> set [0..<k]" .
    from u 1 2 have "case kind_of h a of
             Some (NODE_LAMBDA b v) \<Rightarrow>
               (case kind_of h a' of Some (NODE_LAMBDA b' v') \<Rightarrow> v = v' \<longrightarrow> a = a' | _ \<Rightarrow> True)
           | _ \<Rightarrow> True"
      unfolding list_all_iff by blast
    with a a' show "a = a'" by simp
  qed
  have 5: "caches_clear h"
    unfolding caches_clear_def
  proof (intro allI impI)
    fix a nd assume a: "nodes h a = Some nd"
    from live_below [OF b a] c
    have "case nodes h a of None \<Rightarrow> True
           | Some nd \<Rightarrow> (is_app h a \<longrightarrow> cache nd = NULL) \<and>
               (is_lambda h a \<longrightarrow> cache nd \<noteq> STOP)"
      by (simp add: list_all_iff)
    with a show "(is_app h a \<longrightarrow> cache nd = NULL) \<and> (is_lambda h a \<longrightarrow> cache nd \<noteq> STOP)"
      by simp
  qed
  from 1 2 3 4 5 show ?thesis by (simp add: well_formed_def)
qed

lemma nested_binder_bound:
  "\<forall>p. 9 \<le> p \<longrightarrow> nodes (snd (projr nested_binder)) p = None"
  by (simp add: nested_binder_def Var_def App_def Fun_def make_head_def new_node_def add_def
      empty_heap_def)

lemma nested_binder_well_formed: "well_formed (snd (projr nested_binder))"
  by (rule well_formed_check [OF nested_binder_bound]; code_simp)

theorem upcopy_pass_terminates_witness:
  "\<exists>h1 h2. set_cache 5 STOP (snd (projr nested_binder)) = Inr h1 \<and>
     upcopy 100 0 1 UPLINK_NA h1 = Inr h2"
proof -
  have k: "kind_of (snd (projr nested_binder)) 5 = Some (NODE_LAMBDA 4 1)" by code_simp
  have n: "Suc (next_node (snd (projr nested_binder))) * Suc (next_node (snd (projr nested_binder))) \<le> 100"
    by code_simp
  from upcopy_pass_terminates [OF nested_binder_well_formed k n] show ?thesis .
qed

subsection \<open>The uplink records through a release and a splice\<close>

lemma match_exceptD1:
  assumes "match_except X h" "nodes h p = Some nd" "p \<notin> X" "(c, t) \<in> set (out_edges (content nd))"
  shows "\<exists>cn. nodes h c = Some cn \<and> count_rec p t (uplinks cn) = 1"
  using assms unfolding match_except_def by blast

lemma match_exceptD2:
  assumes "match_except X h" "nodes h c = Some cn" "u \<in> set (uplinks cn)"
  shows "edge_ok h c u" "count_rec (link u) (type u) (uplinks cn) = 1"
  using assms unfolding match_except_def by blast+

lemma match_exceptD3:
  assumes "match_except X h" "p \<in> X"
  shows "\<exists>nd. nodes h p = Some nd \<and> uplinks nd = []"
  using assms unfolding match_except_def by blast

lemma count_rec_pos: "u \<in> set us \<Longrightarrow> 0 < count_rec (link u) (type u) us"
  by (auto simp: count_rec_def filter_empty_conv)

lemma count_rec_zero: "count_rec p t us = 0 \<longleftrightarrow> (\<forall>u \<in> set us. \<not> (link u = p \<and> type u = t))"
  by (auto simp: count_rec_def filter_empty_conv)

lemma count_rec_remove_first:
  "remove_first p t us = Some us' \<Longrightarrow>
   count_rec p' t' us' = (if p' = p \<and> t' = t then count_rec p' t' us - 1 else count_rec p' t' us)"
  by (induction us arbitrary: us') (auto simp: count_rec_def split: if_splits option.splits)

lemma count_rec_append [simp]:
  "count_rec p t (us @ vs) = count_rec p t us + count_rec p t vs"
  by (simp add: count_rec_def)

lemma count_rec_Nil [simp]: "count_rec p t [] = 0"
  by (simp add: count_rec_def)

lemma count_rec_single [simp]:
  "count_rec p t [u] = (if link u = p \<and> type u = t then 1 else 0)"
  by (simp add: count_rec_def)

lemma remove_first_found:
  "remove_first p t us = Some us' \<Longrightarrow> \<exists>w \<in> set us. link w = p \<and> type w = t"
  by (induction us arbitrary: us') (auto split: if_splits option.splits)

lemma match_except_insert:
  assumes "match_except X h" "nodes h x = Some nd" "uplinks nd = []"
  shows "match_except (insert x X) h"
  using assms unfolding match_except_def by auto

text \<open>Removing the record of a node that is being released.\<close>

lemma unlink_match:
  assumes m: "match_except X h" and x: "x \<in> X" and u: "unlink c x t h = Inr h1"
  shows "match_except X h1"
    "\<forall>cn1 u. nodes h1 c = Some cn1 \<longrightarrow> u \<in> set (uplinks cn1) \<longrightarrow> \<not> (link u = x \<and> type u = t)"
    "\<forall>a. a \<noteq> c \<longrightarrow> nodes h1 a = nodes h a"
    "\<forall>a nd1. nodes h1 a = Some nd1 \<longrightarrow> (\<exists>nd. nodes h a = Some nd \<and> content nd1 = content nd \<and>
        cache nd1 = cache nd \<and> set (uplinks nd1) \<subseteq> set (uplinks nd))"
proof -
  from u obtain cn us where cn: "nodes h c = Some cn" "remove_first x t (uplinks cn) = Some us"
    and h1: "h1 = store c (cn\<lparr>uplinks := us\<rparr>) h"
    by (auto simp: unlink_eq_Inr)
  note rf = remove_first_Some [OF cn(2)]
  from rf have ne: "uplinks cn \<noteq> []" by auto
  with match_exceptD3 [OF m] cn(1) have cX: "c \<notin> X" by fastforce
  have nodes1: "nodes h1 a = (if a = c then Some (cn\<lparr>uplinks := us\<rparr>) else nodes h a)" for a
    by (simp add: h1)
  show "\<forall>a. a \<noteq> c \<longrightarrow> nodes h1 a = nodes h a" by (simp add: nodes1)
  show fr: "\<forall>a nd1. nodes h1 a = Some nd1 \<longrightarrow> (\<exists>nd. nodes h a = Some nd \<and> content nd1 = content nd \<and>
        cache nd1 = cache nd \<and> set (uplinks nd1) \<subseteq> set (uplinks nd))"
    using cn(1) rf by (auto simp: nodes1)
  have eo: "edge_ok h1 a w = edge_ok h a w" for a w
    using cn(1) by (auto simp: edge_ok_def nodes1)
  from remove_first_found [OF cn(2)] obtain w where
    w: "w \<in> set (uplinks cn)" "link w = x" "type w = t" by blast
  from match_exceptD2(2) [OF m cn(1) w(1)] w have c1: "count_rec x t (uplinks cn) = 1" by simp
  with count_rec_remove_first [OF cn(2), of x t] have c0: "count_rec x t us = 0" by simp
  then show "\<forall>cn1 u. nodes h1 c = Some cn1 \<longrightarrow> u \<in> set (uplinks cn1) \<longrightarrow>
      \<not> (link u = x \<and> type u = t)"
    by (auto simp: nodes1 count_rec_zero)
  show "match_except X h1"
    unfolding match_except_def
  proof (intro conjI allI impI ballI)
    fix p nd c' t'
    assume p: "nodes h1 p = Some nd" "p \<notin> X" "(c', t') \<in> set (out_edges (content nd))"
    from p(1) fr obtain nd0 where nd0: "nodes h p = Some nd0" "content nd = content nd0" by blast
    from match_exceptD1 [OF m nd0(1) p(2)] p(3) nd0(2) obtain cn' where
      cn': "nodes h c' = Some cn'" "count_rec p t' (uplinks cn') = 1" by auto
    show "\<exists>cn. nodes h1 c' = Some cn \<and> count_rec p t' (uplinks cn) = 1"
    proof (cases "c' = c")
      case True
      from p(2) x have "p \<noteq> x" by auto
      with count_rec_remove_first [OF cn(2), of p t'] cn' cn(1) True show ?thesis
        by (simp add: nodes1)
    next
      case False
      with cn' show ?thesis by (simp add: nodes1)
    qed
  next
    fix a an w' assume a: "nodes h1 a = Some an" "w' \<in> set (uplinks an)"
    show "edge_ok h1 a w'"
    proof (cases "a = c")
      case True
      with a rf have "w' \<in> set (uplinks cn)" by (auto simp: nodes1)
      from match_exceptD2(1) [OF m cn(1) this] True show ?thesis by (simp add: eo)
    next
      case False
      with a match_exceptD2(1) [OF m] show ?thesis by (simp add: nodes1 eo)
    qed
    show "count_rec (link w') (type w') (uplinks an) = 1"
    proof (cases "a = c")
      case True
      with a have an: "an = cn\<lparr>uplinks := us\<rparr>" and w': "w' \<in> set us" by (auto simp: nodes1)
      with rf have "w' \<in> set (uplinks cn)" by auto
      from match_exceptD2(2) [OF m cn(1) this]
      have 1: "count_rec (link w') (type w') (uplinks cn) = 1" .
      from w' c0 have "\<not> (link w' = x \<and> type w' = t)" by (auto simp: count_rec_zero)
      with count_rec_remove_first [OF cn(2), of "link w'" "type w'"] 1 an show ?thesis by auto
    next
      case False
      with a match_exceptD2(2) [OF m] show ?thesis by (simp add: nodes1)
    qed
  next
    fix p assume "p \<in> X"
    with match_exceptD3 [OF m] cX show "\<exists>nd. nodes h1 p = Some nd \<and> uplinks nd = []"
      by (auto simp: nodes1)
  qed
qed

text \<open>Releasing a node that no record names.\<close>

lemma delete_match:
  assumes m: "match_except (insert x X) h" and xX: "x \<notin> X"
    and none: "\<forall>c cn u. nodes h c = Some cn \<longrightarrow> u \<in> set (uplinks cn) \<longrightarrow> link u \<noteq> x"
    and d: "delete_node x h = Inr h'"
  shows "match_except X h'"
proof -
  from d obtain xn where xn: "nodes h x = Some xn" and h': "h' = h\<lparr>nodes := (nodes h)(x := None)\<rparr>"
    by (auto simp: delete_node_eq_Inr)
  have nodes': "nodes h' a = (if a = x then None else nodes h a)" for a by (simp add: h')
  from match_exceptD3 [OF m, of x] xn have xe: "uplinks xn = []" by simp
  show ?thesis
    unfolding match_except_def
  proof (intro conjI allI impI ballI)
    fix p nd c t
    assume p: "nodes h' p = Some nd" "p \<notin> X" "(c, t) \<in> set (out_edges (content nd))"
    then have px: "p \<noteq> x" and ph: "nodes h p = Some nd" by (auto simp: nodes' split: if_splits)
    with p(2) have "p \<notin> insert x X" by simp
    from match_exceptD1 [OF m ph this p(3)] obtain cn where
      cn: "nodes h c = Some cn" "count_rec p t (uplinks cn) = 1" by blast
    have "c \<noteq> x"
    proof
      assume "c = x"
      with cn xn xe show False by (simp add: count_rec_def)
    qed
    with cn show "\<exists>cn. nodes h' c = Some cn \<and> count_rec p t (uplinks cn) = 1"
      by (simp add: nodes')
  next
    fix c cn u assume c: "nodes h' c = Some cn" "u \<in> set (uplinks cn)"
    then have ch: "nodes h c = Some cn" by (auto simp: nodes' split: if_splits)
    from none ch c(2) have "link u \<noteq> x" by blast
    with match_exceptD2(1) [OF m ch c(2)] show "edge_ok h' c u"
      by (auto simp: edge_ok_def nodes' split: option.splits)
    from match_exceptD2(2) [OF m ch c(2)] show "count_rec (link u) (type u) (uplinks cn) = 1" .
  next
    fix p assume "p \<in> X"
    with match_exceptD3 [OF m, of p] xX show "\<exists>nd. nodes h' p = Some nd \<and> uplinks nd = []"
      by (auto simp: nodes')
  qed
qed

lemma cleanup_kept:
  assumes "cleanup n x h = Inr h'" "nodes h' a = Some nd'"
  shows "\<exists>nd. nodes h a = Some nd \<and> content nd' = content nd \<and> cache nd' = cache nd \<and>
     set (uplinks nd') \<subseteq> set (uplinks nd)"
  using shrinks_live [OF cleanup_shrinks [OF assms(1)] assms(2)]
  by (auto simp: node_shrinks_def)

lemma cleanup_match:
  "match_except X h \<Longrightarrow> x \<notin> X \<Longrightarrow> cleanup n x h = Inr h' \<Longrightarrow>
   match_except X h' \<and> (\<forall>p \<in> X. nodes h' p = nodes h p)"
proof (induction n arbitrary: X x h h')
  case 0
  then show ?case by simp
next
  case (Suc n)
  note m = \<open>match_except X h\<close> and xX = \<open>x \<notin> X\<close>
  from Suc.prems(3) show ?case
  proof (cases rule: cleanup_Suc_cases)
    case (keep nd)
    with m show ?thesis by simp
  next
    case (lam nd body var h1 h2)
    from match_except_insert [OF m lam(1,2)] have m0: "match_except (insert x X) h" .
    note u = unlink_match [OF m0 _ lam(4)]
    from u(1) have m1: "match_except (insert x X) h1" by simp
    from lam(1,3) match_exceptD1 [OF m lam(1) xX, of body UPLINK_NA] obtain bn where
      bn: "nodes h body = Some bn" "count_rec x UPLINK_NA (uplinks bn) = 1" by auto
    then have bne: "uplinks bn \<noteq> []" by (auto simp: count_rec_def)
    with match_exceptD3 [OF m0] bn(1) have bX: "body \<notin> insert x X" by fastforce
    from Suc.IH [OF m1 bX lam(5)]
    have m2: "match_except (insert x X) h2" and f2: "\<forall>p \<in> insert x X. nodes h2 p = nodes h1 p"
      by simp_all
    from bX have xb: "x \<noteq> body" by simp
    with u(3) lam(1) f2 have x2: "nodes h2 x = Some nd" by simp
    have none: "\<forall>c cn w. nodes h2 c = Some cn \<longrightarrow> w \<in> set (uplinks cn) \<longrightarrow> link w \<noteq> x"
    proof (intro allI impI notI)
      fix c cn w assume c: "nodes h2 c = Some cn" "w \<in> set (uplinks cn)" "link w = x"
      from match_exceptD2(1) [OF m2 c(1,2)] c(3) x2 lam(3) have "c = body" "type w = UPLINK_NA"
        by (auto simp: edge_ok_def)
      moreover from cleanup_kept [OF lam(5) c(1)] c(2) obtain cn1 where
        "nodes h1 c = Some cn1" "w \<in> set (uplinks cn1)" by auto
      ultimately show False using u(2) c(3) by blast
    qed
    from delete_match [OF m2 xX none lam(6)] have "match_except X h'" .
    moreover have "\<forall>p \<in> X. nodes h' p = nodes h p"
    proof
      fix p assume p: "p \<in> X"
      with xX have px: "p \<noteq> x" by auto
      from p bX have pb: "p \<noteq> body" by auto
      from lam(6) px have "nodes h' p = nodes h2 p" by (auto simp: delete_node_eq_Inr)
      with f2 p u(3) pb show "nodes h' p = nodes h p" by simp
    qed
    ultimately show ?thesis by simp
  next
    case (app nd left right h1 h2 nd2 left2 right2 h3 h4)
    from match_except_insert [OF m app(1,2)] have m0: "match_except (insert x X) h" .
    note u = unlink_match [OF m0 _ app(4)]
    from u(1) have m1: "match_except (insert x X) h1" by simp
    from app(1,3) match_exceptD1 [OF m app(1) xX, of left UPLINK_APPL] obtain ln where
      ln: "nodes h left = Some ln" "count_rec x UPLINK_APPL (uplinks ln) = 1" by auto
    then have "uplinks ln \<noteq> []" by (auto simp: count_rec_def)
    with match_exceptD3 [OF m0] ln(1) have lX: "left \<notin> insert x X" by fastforce
    from Suc.IH [OF m1 lX app(5)]
    have m2: "match_except (insert x X) h2" and f2: "\<forall>p \<in> insert x X. nodes h2 p = nodes h1 p"
      by simp_all
    from lX have xl: "x \<noteq> left" by simp
    with u(3) app(1) f2 have x2: "nodes h2 x = Some nd" by simp
    with app(6,7,3) have same: "left2 = left" "right2 = right" by simp_all
    note u3 = unlink_match [OF m2 _ app(8)]
    from u3(1) have m3: "match_except (insert x X) h3" by simp
    from app(8) obtain rn where rn: "nodes h2 right2 = Some rn" "uplinks rn \<noteq> []"
      using remove_first_Some by (fastforce simp: unlink_eq_Inr)
    with match_exceptD3 [OF m2] have rX: "right2 \<notin> insert x X" by fastforce
    from Suc.IH [OF m3 rX app(9)]
    have m4: "match_except (insert x X) h4" and f4: "\<forall>p \<in> insert x X. nodes h4 p = nodes h3 p"
      by simp_all
    from rX have xr: "x \<noteq> right2" by simp
    with u3(3) x2 f4 have x4: "nodes h4 x = Some nd" by simp
    have none: "\<forall>c cn w. nodes h4 c = Some cn \<longrightarrow> w \<in> set (uplinks cn) \<longrightarrow> link w \<noteq> x"
    proof (intro allI impI notI)
      fix c cn w assume c: "nodes h4 c = Some cn" "w \<in> set (uplinks cn)" "link w = x"
      from match_exceptD2(1) [OF m4 c(1,2)] c(3) x4 app(3)
      consider "c = left" "type w = UPLINK_APPL" | "c = right" "type w = UPLINK_APPR"
        by (auto simp: edge_ok_def)
      then show False
      proof cases
        case 1
        from cleanup_kept [OF app(9) c(1)] c(2) obtain cn3 where
          3: "nodes h3 c = Some cn3" "w \<in> set (uplinks cn3)" by auto
        from u3(4) 3 obtain cn2 where 2: "nodes h2 c = Some cn2" "w \<in> set (uplinks cn2)" by blast
        from cleanup_kept [OF app(5) 2(1)] 2(2) obtain cn1 where
          "nodes h1 c = Some cn1" "w \<in> set (uplinks cn1)" by auto
        with u(2) 1 c(3) show ?thesis by blast
      next
        case 2
        from cleanup_kept [OF app(9) c(1)] c(2) obtain cn3 where
          "nodes h3 c = Some cn3" "w \<in> set (uplinks cn3)" by auto
        with u3(2) 2 c(3) same show ?thesis by blast
      qed
    qed
    from delete_match [OF m4 xX none app(10)] have "match_except X h'" .
    moreover have "\<forall>p \<in> X. nodes h' p = nodes h p"
    proof
      fix p assume p: "p \<in> X"
      with xX have px: "p \<noteq> x" by auto
      from p lX rX have pb: "p \<noteq> left" "p \<noteq> right2" by auto
      from app(10) px have "nodes h' p = nodes h4 p" by (auto simp: delete_node_eq_Inr)
      with f4 f2 p u(3) u3(3) pb show "nodes h' p = nodes h p" by simp
    qed
    ultimately show ?thesis by simp
  next
    case (leaf nd)
    from match_except_insert [OF m leaf(1,2)] have m0: "match_except (insert x X) h" .
    have none: "\<forall>c cn w. nodes h c = Some cn \<longrightarrow> w \<in> set (uplinks cn) \<longrightarrow> link w \<noteq> x"
    proof (intro allI impI notI)
      fix c cn w assume c: "nodes h c = Some cn" "w \<in> set (uplinks cn)" "link w = x"
      from match_exceptD2(1) [OF m c(1,2)] c(3) leaf(1,3) show False
        by (auto simp: edge_ok_def)
    qed
    from delete_match [OF m0 xX none leaf(4)] have "match_except X h'" .
    moreover from leaf(4) xX have "\<forall>p \<in> X. nodes h' p = nodes h p"
      by (auto simp: delete_node_eq_Inr)
    ultimately show ?thesis by simp
  qed
qed

text \<open>A release leaves no node behind that has lost its last uplink.\<close>

lemma cleanup_no_orphan:
  "cleanup n x h = Inr h' \<Longrightarrow> nodes h' c = Some cn' \<Longrightarrow> uplinks cn' = [] \<Longrightarrow>
   \<exists>cn. nodes h c = Some cn \<and> uplinks cn = []"
proof (induction n arbitrary: x h h' cn')
  case 0
  then show ?case by simp
next
  case (Suc n)
  from Suc.prems(1) show ?case
  proof (cases rule: cleanup_Suc_cases)
    case (keep nd)
    with Suc.prems show ?thesis by simp
  next
    case (lam nd body var h1 h2)
    from lam(6) Suc.prems(2) have c2: "nodes h2 c = Some cn'" "c \<noteq> x"
      by (auto simp: delete_node_eq_Inr split: if_splits)
    from Suc.IH [OF lam(5) c2(1) Suc.prems(3)] obtain cn1 where
      cn1: "nodes h1 c = Some cn1" "uplinks cn1 = []" by blast
    from cleanup_releases [OF lam(5)] c2(1) have "c \<noteq> body \<or> (\<forall>bn. nodes h1 body = Some bn \<longrightarrow> uplinks bn \<noteq> [])"
      by fastforce
    with cn1 have "c \<noteq> body" by auto
    with lam(4) cn1 show ?thesis by (auto simp: unlink_eq_Inr)
  next
    case (app nd left right h1 h2 nd2 left2 right2 h3 h4)
    from app(10) Suc.prems(2) have c4: "nodes h4 c = Some cn'" "c \<noteq> x"
      by (auto simp: delete_node_eq_Inr split: if_splits)
    from Suc.IH [OF app(9) c4(1) Suc.prems(3)] obtain cn3 where
      cn3: "nodes h3 c = Some cn3" "uplinks cn3 = []" by blast
    from cleanup_releases [OF app(9)] c4(1)
    have "c \<noteq> right2 \<or> (\<forall>bn. nodes h3 right2 = Some bn \<longrightarrow> uplinks bn \<noteq> [])" by fastforce
    with cn3 have "c \<noteq> right2" by auto
    with app(8) cn3 have cn2: "nodes h2 c = Some cn3" by (auto simp: unlink_eq_Inr)
    from Suc.IH [OF app(5) cn2 cn3(2)] obtain cn1 where
      cn1: "nodes h1 c = Some cn1" "uplinks cn1 = []" by blast
    from cleanup_releases [OF app(5)] cn2
    have "c \<noteq> left \<or> (\<forall>bn. nodes h1 left = Some bn \<longrightarrow> uplinks bn \<noteq> [])" by fastforce
    with cn1 have "c \<noteq> left" by auto
    with app(4) cn1 show ?thesis by (auto simp: unlink_eq_Inr)
  next
    case (leaf nd)
    with Suc.prems show ?thesis by (auto simp: delete_node_eq_Inr split: if_splits)
  qed
qed

lemma uplinks_matchD1:
  assumes "uplinks_match h" "nodes h p = Some nd" "(c, t) \<in> set (out_edges (content nd))"
  shows "\<exists>cn. nodes h c = Some cn \<and> count_rec p t (uplinks cn) = 1"
  using assms match_exceptD1 [of "{}" h p nd c t] by (simp add: uplinks_match_def)

lemma uplinks_matchD2:
  assumes "uplinks_match h" "nodes h c = Some cn" "u \<in> set (uplinks cn)"
  shows "edge_ok h c u" "count_rec (link u) (type u) (uplinks cn) = 1"
  using assms match_exceptD2 [of "{}" h c cn u] by (simp_all add: uplinks_match_def)

lemma uplinks_matchI:
  assumes "\<And>p nd c t. nodes h p = Some nd \<Longrightarrow> (c, t) \<in> set (out_edges (content nd)) \<Longrightarrow>
      \<exists>cn. nodes h c = Some cn \<and> count_rec p t (uplinks cn) = 1"
    and "\<And>c cn u. nodes h c = Some cn \<Longrightarrow> u \<in> set (uplinks cn) \<Longrightarrow>
      edge_ok h c u \<and> count_rec (link u) (type u) (uplinks cn) = 1"
  shows "uplinks_match h"
  using assms unfolding uplinks_match_def match_except_def by blast

lemma out_edges_type_unique:
  "(a, t) \<in> set (out_edges k) \<Longrightarrow> (b, t) \<in> set (out_edges k) \<Longrightarrow> a = b"
  by (cases k) auto

lemma out_edges_redirect:
  "(old, t) \<in> set (out_edges k) \<Longrightarrow>
   set (out_edges (redirect k t c)) = insert (c, t) (set (out_edges k) - {(old, t)})"
  by (cases k) auto

lemma swap_nodes:
  assumes u: "unlink old into t h = Inr h1" and s: "set_content into k' h1 = Inr h2"
    and a: "add c into t h2 = Inr h3"
  shows "\<exists>on us'. nodes h old = Some on \<and> remove_first into t (uplinks on) = Some us' \<and>
    (\<forall>a. nodes h3 a = (case nodes h a of None \<Rightarrow> None
       | Some n \<Rightarrow> Some (n\<lparr>content := (if a = into then k' else content n),
           uplinks := (if a = old then us' else uplinks n) @
             (if a = c then [\<lparr>uid = next_uplink h, link = into, type = t\<rparr>] else [])\<rparr>))) \<and>
    next_node h3 = next_node h \<and> nodes h into \<noteq> None \<and> nodes h c \<noteq> None"
proof -
  from u obtain on us' where on: "nodes h old = Some on" "remove_first into t (uplinks on) = Some us'"
    and h1: "h1 = store old (on\<lparr>uplinks := us'\<rparr>) h"
    by (auto simp: unlink_eq_Inr)
  from s obtain n1 where n1: "nodes h1 into = Some n1" and h2: "h2 = store into (n1\<lparr>content := k'\<rparr>) h1"
    by (auto simp: set_content_eq_Inr)
  from a obtain n2 where n2: "nodes h2 c = Some n2"
    and h3: "h3 = h2\<lparr>nodes := (nodes h2)(c \<mapsto>
                n2\<lparr>uplinks := uplinks n2 @ [\<lparr>uid = next_uplink h2, link = into, type = t\<rparr>]\<rparr>),
              next_uplink := Suc (next_uplink h2)\<rparr>"
    by (auto simp: add_eq_Inr)
  have nu: "next_uplink h2 = next_uplink h" by (simp add: h1 h2)
  let ?r = "\<lparr>uid = next_uplink h, link = into, type = t\<rparr>"
  have e1: "nodes h1 a = map_option (\<lambda>n. n\<lparr>uplinks := (if a = old then us' else uplinks n)\<rparr>) (nodes h a)"
    for a
    using on by (cases "nodes h a") (auto simp: h1)
  have e2: "nodes h2 a = map_option (\<lambda>n. n\<lparr>content := (if a = into then k' else content n)\<rparr>) (nodes h1 a)"
    for a
    using n1 by (cases "nodes h1 a") (auto simp: h2)
  have e3: "nodes h3 a = map_option (\<lambda>n. n\<lparr>uplinks := uplinks n @ (if a = c then [?r] else [])\<rparr>) (nodes h2 a)"
    for a
    using n2 by (cases "nodes h2 a") (auto simp: h3 nu)
  have 1: "nodes h3 a = (case nodes h a of None \<Rightarrow> None
       | Some n \<Rightarrow> Some (n\<lparr>content := (if a = into then k' else content n),
           uplinks := (if a = old then us' else uplinks n) @
             (if a = c then [\<lparr>uid = next_uplink h, link = into, type = t\<rparr>] else [])\<rparr>))" for a
    unfolding e3 e2 e1 by (cases "nodes h a") simp_all
  have 2: "next_node h3 = next_node h" by (simp add: h1 h2 h3)
  from n1 have 3: "nodes h into \<noteq> None" unfolding e1 by auto
  from n2 have 4: "nodes h c \<noteq> None" unfolding e2 e1 by auto
  from 1 have "\<forall>a. nodes h3 a = (case nodes h a of None \<Rightarrow> None
       | Some n \<Rightarrow> Some (n\<lparr>content := (if a = into then k' else content n),
           uplinks := (if a = old then us' else uplinks n) @
             (if a = c then [\<lparr>uid = next_uplink h, link = into, type = t\<rparr>] else [])\<rparr>))" ..
  with on 2 3 4 show ?thesis by (intro exI [of _ on] exI [of _ us'] conjI)
qed

lemma swap_match:
  assumes m: "uplinks_match h" and p: "nodes h into = Some nd" "(old, t) \<in> set (out_edges (content nd))"
    and k: "set (out_edges k') = insert (c, t) (set (out_edges (content nd)) - {(old, t)})"
    and u: "unlink old into t h = Inr h1" and s: "set_content into k' h1 = Inr h2"
    and a: "add c into t h2 = Inr h3"
  shows "uplinks_match h3"
proof -
  from swap_nodes [OF u s a] obtain on us' where on: "nodes h old = Some on"
    "remove_first into t (uplinks on) = Some us'"
    and n3': "\<forall>a. nodes h3 a = (case nodes h a of None \<Rightarrow> None
       | Some n \<Rightarrow> Some (n\<lparr>content := (if a = into then k' else content n),
           uplinks := (if a = old then us' else uplinks n) @
             (if a = c then [\<lparr>uid = next_uplink h, link = into, type = t\<rparr>] else [])\<rparr>))"
    and cl: "nodes h c \<noteq> None"
    by (elim exE conjE)
  note n3 = n3' [rule_format]
  let ?r = "\<lparr>uid = next_uplink h, link = into, type = t\<rparr>"
  define B where "B a n = (if a = old then us' else uplinks n)" for a and n :: Node
  have live3: "nodes h3 a = Some n3 \<Longrightarrow> \<exists>n. nodes h a = Some n \<and>
      content n3 = (if a = into then k' else content n) \<and>
      uplinks n3 = B a n @ (if a = c then [?r] else [])" for a n3
    using n3 [of a] by (auto simp: B_def split: option.splits)
  have live3': "nodes h a = Some n \<Longrightarrow> \<exists>n3. nodes h3 a = Some n3 \<and>
      content n3 = (if a = into then k' else content n) \<and>
      uplinks n3 = B a n @ (if a = c then [?r] else [])" for a n
    using n3 [of a] by (auto simp: B_def split: option.splits)
  note rf = remove_first_Some [OF on(2)]
  from uplinks_matchD1 [OF m p] on have c1: "count_rec into t (uplinks on) = 1" by simp
  with count_rec_remove_first [OF on(2), of into t] have c0: "count_rec into t us' = 0" by simp
  have Bsub: "set (B a n) \<subseteq> set (uplinks n)" if "nodes h a = Some n" for a n
    using that on rf by (auto simp: B_def)
  have Bcount: "count_rec q t' (B a n) = count_rec q t' (uplinks n)"
    if "nodes h a = Some n" "\<not> (q = into \<and> t' = t)" for a n q t'
    using that on count_rec_remove_first [OF on(2), of q t'] by (auto simp: B_def)
  have Bnone: "count_rec into t (B a n) = 0" if "nodes h a = Some n" "a = c \<or> a = old" for a n
  proof (cases "a = old")
    case True
    with c0 show ?thesis by (simp add: B_def)
  next
    case False
    with that have ac: "a = c" by simp
    have "\<not> (link w = into \<and> type w = t)" if w: "w \<in> set (uplinks n)" for w
    proof
      assume e: "link w = into \<and> type w = t"
      from uplinks_matchD2(1) [OF m \<open>nodes h a = Some n\<close> w] e p(1)
      have "(a, t) \<in> set (out_edges (content nd))" by (auto simp: edge_ok_def)
      from out_edges_type_unique [OF this p(2)] False show False by simp
    qed
    with False show ?thesis by (auto simp: B_def count_rec_zero)
  qed
  show ?thesis
  proof (rule uplinks_matchI)
    fix q n3 y t' assume q: "nodes h3 q = Some n3" "(y, t') \<in> set (out_edges (content n3))"
    from live3 [OF q(1)] obtain n where n: "nodes h q = Some n"
      "content n3 = (if q = into then k' else content n)" by blast
    show "\<exists>cn. nodes h3 y = Some cn \<and> count_rec q t' (uplinks cn) = 1"
    proof (cases "q = into \<and> (y, t') = (c, t)")
      case True
      from cl obtain cn where cn: "nodes h c = Some cn" by auto
      from live3' [OF cn] obtain c3 where "nodes h3 c = Some c3" "uplinks c3 = B c cn @ [?r]"
        by auto
      with Bnone [OF cn] True show ?thesis by simp
    next
      case False
      have e: "(y, t') \<in> set (out_edges (content n))" "\<not> (q = into \<and> t' = t)"
      proof -
        show 1: "(y, t') \<in> set (out_edges (content n))"
          using q(2) n k p(1) False by (cases "q = into") auto
        show "\<not> (q = into \<and> t' = t)"
        proof
          assume qi: "q = into \<and> t' = t"
          with 1 n p have "y = old" using out_edges_type_unique by fastforce
          with qi q(2) n k False show False by auto
        qed
      qed
      from uplinks_matchD1 [OF m n(1) e(1)] obtain yn where
        yn: "nodes h y = Some yn" "count_rec q t' (uplinks yn) = 1" by blast
      from live3' [OF yn(1)] obtain y3 where y3: "nodes h3 y = Some y3"
        "uplinks y3 = B y yn @ (if y = c then [?r] else [])" by blast
      with Bcount [OF yn(1) e(2)] yn(2) e(2) show ?thesis by auto
    qed
  next
    fix a a3 w assume a: "nodes h3 a = Some a3" "w \<in> set (uplinks a3)"
    from live3 [OF a(1)] obtain n where n: "nodes h a = Some n"
      "uplinks a3 = B a n @ (if a = c then [?r] else [])" by blast
    show "edge_ok h3 a w \<and> count_rec (link w) (type w) (uplinks a3) = 1"
    proof (cases "w \<in> set (B a n)")
      case True
      with Bsub [OF n(1)] have w: "w \<in> set (uplinks n)" by auto
      note eo = uplinks_matchD2 [OF m n(1) w]
      have np: "\<not> (link w = into \<and> type w = t \<and> (a = c \<or> a = old))"
        using Bnone [OF n(1)] True by (auto simp: count_rec_zero)
      have npair: "\<not> (link w = into \<and> type w = t)" if "a = c"
        using np that by simp
      from eo(1) obtain pn where pn: "nodes h (link w) = Some pn"
        "(a, type w) \<in> set (out_edges (content pn))"
        by (auto simp: edge_ok_def split: option.splits)
      from live3' [OF pn(1)] obtain p3 where p3: "nodes h3 (link w) = Some p3"
        "content p3 = (if link w = into then k' else content pn)" by blast
      have "(a, type w) \<in> set (out_edges (content p3))"
      proof (cases "link w = into")
        case True
        with pn p(1) have "pn = nd" by simp
        with pn(2) np True have "(a, type w) \<noteq> (old, t)" by auto
        with p3 True k pn(2) \<open>pn = nd\<close> show ?thesis by auto
      next
        case False
        with p3 pn show ?thesis by simp
      qed
      with p3 have 1: "edge_ok h3 a w" by (simp add: edge_ok_def)
      have "count_rec (link w) (type w) (B a n) = 1"
      proof (cases "link w = into \<and> type w = t")
        case True
        with np have "a \<noteq> old" by simp
        with eo(2) show ?thesis by (simp add: B_def)
      next
        case False
        with Bcount [OF n(1) False] eo(2) show ?thesis by simp
      qed
      with n(2) npair have 2: "count_rec (link w) (type w) (uplinks a3) = 1" by auto
      from 1 2 show ?thesis by simp
    next
      case False
      with a(2) n(2) have ac: "a = c" and w: "w = ?r" by (auto split: if_splits)
      from live3' [OF p(1)] obtain i3 where "nodes h3 into = Some i3" "content i3 = k'" by auto
      with k ac w have 1: "edge_ok h3 a w" by (simp add: edge_ok_def)
      from Bnone [OF n(1)] ac n(2) w have 2: "count_rec (link w) (type w) (uplinks a3) = 1"
        by simp
      from 1 2 show ?thesis by simp
    qed
  qed
qed

lemma count_rec_distinct:
  assumes "\<forall>u \<in> set us. count_rec (link u) (type u) us = 1"
  shows "distinct (map (\<lambda>u. (link u, type u)) us)"
  using assms
proof (induction us)
  case Nil
  then show ?case by simp
next
  case (Cons u us)
  have 1: "(link u, type u) \<notin> set (map (\<lambda>u. (link u, type u)) us)"
  proof
    assume "(link u, type u) \<in> set (map (\<lambda>u. (link u, type u)) us)"
    then obtain u' where "u' \<in> set us" "link u' = link u" "type u' = type u" by auto
    then have "filter (\<lambda>w. link w = link u \<and> type w = type u) us \<noteq> []"
      by (auto simp: filter_empty_conv)
    then have "0 < length (filter (\<lambda>w. link w = link u \<and> type w = type u) us)" by simp
    moreover from Cons.prems have "count_rec (link u) (type u) (u # us) = 1" by simp
    ultimately show False by (simp add: count_rec_def)
  qed
  have "\<forall>w \<in> set us. count_rec (link w) (type w) us = 1"
  proof
    fix w assume w: "w \<in> set us"
    with Cons.prems have c: "count_rec (link w) (type w) (u # us) = 1" by simp
    from w 1 have "\<not> (link u = link w \<and> type u = type w)" by force
    with c show "count_rec (link w) (type w) us = 1" by (simp add: count_rec_def)
  qed
  from Cons.IH [OF this] 1 show ?case by simp
qed



lemma find_uplink_mem: "find_uplink u us = Some (cur, nexty) \<Longrightarrow> cur \<in> set us"
  by (induction us) (auto split: if_splits)

text \<open>
  One round of the splice loop, and the loop: the records stay in step with the edges,
  the list of a node other than the new child only loses records, and no node is left
  behind that has lost its last uplink.
\<close>

lemma upreplace_match:
  assumes m: "uplinks_match h" and app: "nodes h app = Some an" "cur \<in> set (uplinks an)"
    and r: "upreplace n (PTR c) (link cur) (type cur) h = Inr h'"
  shows "uplinks_match h'"
    "\<forall>a an'. nodes h' a = Some an' \<longrightarrow> a \<noteq> c \<longrightarrow>
       (\<exists>an0. nodes h a = Some an0 \<and> set (uplinks an') \<subseteq> set (uplinks an0))"
    "\<forall>a an'. nodes h' a = Some an' \<longrightarrow> uplinks an' = [] \<longrightarrow>
       (\<exists>an0. nodes h a = Some an0 \<and> uplinks an0 = [])"
proof -
  from uplinks_matchD2(1) [OF m app] obtain pn where pn: "nodes h (link cur) = Some pn"
    "(app, type cur) \<in> set (out_edges (content pn))"
    by (auto dest: edge_okD)
  from r upreplace_edge [OF pn, of n c] obtain h1 h2 h3 where
    w: "unlink app (link cur) (type cur) h = Inr h1"
    "set_content (link cur) (redirect (content pn) (type cur) c) h1 = Inr h2"
    "add c (link cur) (type cur) h2 = Inr h3" "cleanup n app h3 = Inr h'"
    by (auto simp: andthen_eq_Inr)
  from swap_match [OF m pn out_edges_redirect [OF pn(2)] w(1,2,3)] have m3: "uplinks_match h3" .
  then have "match_except {} h3" by (simp add: uplinks_match_def)
  from cleanup_match [OF this _ w(4)] show "uplinks_match h'" by (simp add: uplinks_match_def)
  from swap_nodes [OF w(1,2,3)] obtain on us' where on: "nodes h app = Some on"
    "remove_first (link cur) (type cur) (uplinks on) = Some us'"
    and n3': "\<forall>a. nodes h3 a = (case nodes h a of None \<Rightarrow> None
       | Some n \<Rightarrow> Some (n\<lparr>content := (if a = link cur then redirect (content pn) (type cur) c
                                   else content n),
           uplinks := (if a = app then us' else uplinks n) @
             (if a = c then [\<lparr>uid = next_uplink h, link = link cur, type = type cur\<rparr>] else [])\<rparr>))"
    by (elim exE conjE)
  note n3 = n3' [rule_format]
  note rf = remove_first_Some [OF on(2)]
  show "\<forall>a an'. nodes h' a = Some an' \<longrightarrow> a \<noteq> c \<longrightarrow>
       (\<exists>an0. nodes h a = Some an0 \<and> set (uplinks an') \<subseteq> set (uplinks an0))"
  proof (intro allI impI)
    fix a an' assume a: "nodes h' a = Some an'" "a \<noteq> c"
    from cleanup_kept [OF w(4) a(1)] obtain a3 where a3: "nodes h3 a = Some a3"
      "set (uplinks an') \<subseteq> set (uplinks a3)" by blast
    with n3 [of a] a(2) on rf
    show "\<exists>an0. nodes h a = Some an0 \<and> set (uplinks an') \<subseteq> set (uplinks an0)"
      by (auto split: option.splits if_splits)
  qed
  show "\<forall>a an'. nodes h' a = Some an' \<longrightarrow> uplinks an' = [] \<longrightarrow>
       (\<exists>an0. nodes h a = Some an0 \<and> uplinks an0 = [])"
  proof (intro allI impI)
    fix a an' assume a: "nodes h' a = Some an'" "uplinks an' = []"
    from cleanup_no_orphan [OF w(4) a] obtain a3 where a3: "nodes h3 a = Some a3"
      "uplinks a3 = []" by blast
    have "a \<noteq> app"
    proof
      assume "a = app"
      with cleanup_releases [OF w(4)] a3 a(1) show False by simp
    qed
    with a3 n3 [of a]
    show "\<exists>an0. nodes h a = Some an0 \<and> uplinks an0 = []"
      by (auto split: option.splits if_splits)
  qed
qed

lemma replace_uplinks_match:
  "uplinks_match h \<Longrightarrow> replace_uplinks n (PTR c) app cur h = Inr h' \<Longrightarrow>
   uplinks_match h' \<and>
   (\<forall>a an'. nodes h' a = Some an' \<longrightarrow> a \<noteq> c \<longrightarrow>
       (\<exists>an0. nodes h a = Some an0 \<and> set (uplinks an') \<subseteq> set (uplinks an0))) \<and>
   (\<forall>a an'. nodes h' a = Some an' \<longrightarrow> uplinks an' = [] \<longrightarrow>
       (\<exists>an0. nodes h a = Some an0 \<and> uplinks an0 = []))"
proof (induction n arbitrary: cur h)
  case 0
  then show ?case by simp
next
  case (Suc n)
  show ?case
  proof (cases cur)
    case None
    with Suc.prems show ?thesis by auto
  next
    case (Some u)
    with Suc.prems(2) obtain an w nexty h1 where an: "nodes h app = Some an"
      and f: "find_uplink u (uplinks an) = Some (w, nexty)"
      and r: "upreplace n (PTR c) (link w) (type w) h = Inr h1"
      and l: "replace_uplinks n (PTR c) app nexty h1 = Inr h'"
      by (auto simp: andthen_eq_Inr deref_Some split: option.splits)
    note u1 = upreplace_match [OF Suc.prems(1) an find_uplink_mem [OF f] r]
    from Suc.IH [OF u1(1) l] have m': "uplinks_match h'"
      and s': "\<forall>a an'. nodes h' a = Some an' \<longrightarrow> a \<noteq> c \<longrightarrow>
       (\<exists>an0. nodes h1 a = Some an0 \<and> set (uplinks an') \<subseteq> set (uplinks an0))"
      and o': "\<forall>a an'. nodes h' a = Some an' \<longrightarrow> uplinks an' = [] \<longrightarrow>
       (\<exists>an0. nodes h1 a = Some an0 \<and> uplinks an0 = [])"
      by simp_all
    have 2: "\<forall>a an'. nodes h' a = Some an' \<longrightarrow> a \<noteq> c \<longrightarrow>
       (\<exists>an0. nodes h a = Some an0 \<and> set (uplinks an') \<subseteq> set (uplinks an0))"
    proof (intro allI impI)
      fix a an' assume a: "nodes h' a = Some an'" "a \<noteq> c"
      with s' obtain a1 where a1: "nodes h1 a = Some a1" "set (uplinks an') \<subseteq> set (uplinks a1)"
        by blast
      with u1(2) a(2) obtain a0 where "nodes h a = Some a0" "set (uplinks a1) \<subseteq> set (uplinks a0)"
        by blast
      with a1 show "\<exists>an0. nodes h a = Some an0 \<and> set (uplinks an') \<subseteq> set (uplinks an0)"
        by auto
    qed
    have 3: "\<forall>a an'. nodes h' a = Some an' \<longrightarrow> uplinks an' = [] \<longrightarrow>
       (\<exists>an0. nodes h a = Some an0 \<and> uplinks an0 = [])"
      using o' u1(3) by blast
    from m' 2 3 show ?thesis by simp
  qed
qed












subsection \<open>The uplink records across the public operations\<close>

subsubsection \<open>Chains of lambdas and variables\<close>

lemma below_refl [simp]: "below h0 fn a a"
  by (simp add: below_def)

lemma below_step: "below h0 fn a b \<Longrightarrow> lv_pred h0 fn b c \<Longrightarrow> below h0 fn a c"
  by (simp add: below_def)

lemma below_trans: "below h0 fn a b \<Longrightarrow> below h0 fn b c \<Longrightarrow> below h0 fn a c"
  by (simp add: below_def)

lemma below_cases:
  assumes "below h0 fn a b"
  obtains "a = b" | m where "below h0 fn a m" "lv_pred h0 fn m b"
  using assms unfolding below_def by (auto elim: rtranclp.cases)

lemma below_rootless: "below h0 fn a e \<Longrightarrow> rootless h0 fn e \<Longrightarrow> a = e"
  by (erule below_cases) (auto simp: rootless_def)

text \<open>The lambdas and variables above a node form one line.\<close>

lemma below_linear:
  assumes u: "unique_binders h0" and a: "below h0 fn a n" and b: "below h0 fn b n"
  shows "below h0 fn a b \<or> below h0 fn b a"
  using a [unfolded below_def] b
proof (induction arbitrary: rule: rtranclp_induct)
  case base
  then show ?case by simp
next
  case (step m n)
  from step.prems show ?case
  proof (cases rule: below_cases)
    case 1
    with step.hyps have "below h0 fn a b" by (simp add: below_def)
    then show ?thesis by simp
  next
    case (2 m')
    from lv_pred_unique [OF u step.hyps(2) 2(2)] have "m = m'" .
    with 2 step.IH show ?thesis by simp
  qed
qed

lemma entry_unique:
  assumes u: "unique_binders h0" and a: "below h0 fn e n" "rootless h0 fn e"
    and b: "below h0 fn e' n" "rootless h0 fn e'"
  shows "e = e'"
  using below_linear [OF u a(1) b(1)] below_rootless a(2) b(2) by metis

lemma no_cycle:
  assumes u: "unique_binders h0" and e: "below h0 fn e n" "rootless h0 fn e"
  shows "\<not> (lv_pred h0 fn m n \<and> below h0 fn n m)"
  using e(1) [unfolded below_def] e(2)
proof (induction arbitrary: m rule: rtranclp_induct)
  case base
  then show ?case by (simp add: rootless_def)
next
  case (step k n)
  show ?case
  proof
    assume a: "lv_pred h0 fn m n \<and> below h0 fn n m"
    from lv_pred_unique [OF u step.hyps(2)] a have km: "k = m" by blast
    from a km have nk: "below h0 fn n k" by simp
    then show False
    proof (cases rule: below_cases)
      case 1
      with step.hyps(2) have "lv_pred h0 fn k k \<and> below h0 fn k k" by simp
      with step.IH [OF step.prems] show ?thesis by blast
    next
      case (2 j)
      from 2(1) step.hyps(2) have "below h0 fn k j"
        by (meson below_def converse_rtranclp_into_rtranclp)
      with 2(2) step.IH [OF step.prems] show ?thesis by blast
    qed
  qed
qed

lemma siblings_apart:
  assumes u: "unique_binders h0" and e: "below h0 fn e c" "rootless h0 fn e"
    and p: "lv_pred h0 fn c p" "lv_pred h0 fn c q" "p \<noteq> q"
  shows "\<not> below h0 fn p q"
proof
  assume "below h0 fn p q"
  then show False
  proof (cases rule: below_cases)
    case 1
    with p show ?thesis by simp
  next
    case (2 m)
    from lv_pred_unique [OF u p(2) 2(2)] have "c = m" .
    with 2 have "below h0 fn p c" by simp
    with no_cycle [OF u below_step [OF e(1) p(1)] e(2)] p(1) show ?thesis by blast
  qed
qed

lemma siblings_disjoint:
  assumes u: "unique_binders h0" and e: "below h0 fn e c" "rootless h0 fn e"
    and p: "lv_pred h0 fn c p" "lv_pred h0 fn c q" "p \<noteq> q"
  shows "\<not> (below h0 fn p n \<and> below h0 fn q n)"
proof
  assume a: "below h0 fn p n \<and> below h0 fn q n"
  with below_linear [OF u] have "below h0 fn p q \<or> below h0 fn q p" by blast
  with siblings_apart [OF u e p] siblings_apart [OF u e p(2,1)] p(3) show False by auto
qed

lemma old_node_live: "heap_bounded h0 \<Longrightarrow> old_node h0 a \<Longrightarrow> a < next_node h0"
  by (auto simp: old_node_def is_app_iff is_lambda_iff dest: heap_boundedD)

lemma marks_kept_refl [simp]: "marks_kept h0 h h"
  by (simp add: marks_kept_def)

lemma marks_kept_trans: "marks_kept h0 h h1 \<Longrightarrow> marks_kept h0 h1 h2 \<Longrightarrow> marks_kept h0 h h2"
  unfolding marks_kept_def by metis

lemma marks_kept_marked:
  "marks_kept h0 h h' \<Longrightarrow> old_node h0 a \<Longrightarrow> marked h a \<Longrightarrow> marked h' a"
  unfolding marks_kept_def marked_def by metis

lemma entry_ok_mono:
  assumes "marks_kept h0 h h'" "entry_ok h0 fn x h e"
  shows "entry_ok h0 fn x h' e"
  using assms marks_kept_marked [OF assms(1)]
  unfolding entry_ok_def old_node_def by blast

lemma rooted_mono:
  assumes "marks_kept h0 h h'" "rooted h0 fn x h n"
  shows "rooted h0 fn x h' n"
  using assms entry_ok_mono unfolding rooted_def by blast

lemma rooted_step: "rooted h0 fn x h m \<Longrightarrow> lv_pred h0 fn m n \<Longrightarrow> rooted h0 fn x h n"
  unfolding rooted_def by (blast intro: below_step)

lemma fresh_entry_mono:
  assumes k1: "marks_kept h0 h h1" and k2: "marks_kept h0 h2 h'"
    and f: "fresh_entry h0 fn h1 h2 P"
  shows "fresh_entry h0 fn h h' P"
proof -
  from f obtain A e v where a: "is_app h0 A" "\<not> marked h1 A" "marked h2 A"
    "kind_of h0 e = Some (NODE_LAMBDA A v)" "below h0 fn e P"
    unfolding fresh_entry_def by blast
  from a(1) have o: "old_node h0 A" by (simp add: old_node_def)
  from a(2) marks_kept_marked [OF k1 o] have "\<not> marked h A" by blast
  moreover from a(3) marks_kept_marked [OF k2 o] have "marked h' A" by blast
  ultimately show ?thesis using a unfolding fresh_entry_def by blast
qed

text \<open>A lambda over an application, and the variable that is bound by \<open>fn\<close>, are visited
  from an application or not at all.\<close>

lemma rootless_over_app:
  assumes "kind_of h0 e = Some (NODE_LAMBDA A v)" "is_app h0 A"
  shows "rootless h0 fn e"
  using assms by (auto simp: rootless_def lv_pred_def is_var_def)

lemma rootless_root:
  assumes "unique_binders h0" "kind_of h0 fn = Some (NODE_LAMBDA body x)" "vars_sound h0"
  shows "rootless h0 fn x"
  unfolding rootless_def
proof (intro allI notI)
  fix m assume "lv_pred h0 fn m x"
  then consider v where "kind_of h0 x = Some (NODE_LAMBDA m v)"
    | b where "m \<noteq> fn" "is_var h0 x" "kind_of h0 m = Some (NODE_LAMBDA b x)"
    unfolding lv_pred_def by blast
  then show False
  proof cases
    case 1
    then have "is_lambda h0 x" by (simp add: is_lambda_def)
    with assms(2,3) show ?thesis unfolding vars_sound_def by blast
  next
    case 2
    with assms show ?thesis unfolding unique_binders_def by blast
  qed
qed

subsubsection \<open>The copies of a pass of \<^verbatim>\<open>upcopy\<close>\<close>

lemma copyingD:
  assumes "copying h0 fn x h"
  shows "evolved h0 fn h" "lam_copies h0 fn h" "inj_copies h0 h" "new_nodes h0 h"
    "new_vars h0 h" "marks_rooted h0 fn x h"
  using assms by (simp_all add: copying_def)

lemma pass_startD:
  assumes "pass_start fn x h0"
  shows "heap_bounded h0" "uplinks_match h0" "unique_binders h0" "vars_sound h0"
    "\<exists>body. kind_of h0 fn = Some (NODE_LAMBDA body x)"
  using assms by (simp_all add: pass_start_def)

lemma kind_of_store_cache:
  assumes "nodes h a = Some nd"
  shows "kind_of (store a (nd\<lparr>cache := k\<rparr>) h) = kind_of h"
  using assms by (auto simp: kind_of_def fun_eq_iff)

lemma is_kind_cong:
  assumes "kind_of h' = kind_of h"
  shows "is_app h' = is_app h" "is_lambda h' = is_lambda h" "is_var h' = is_var h"
  using assms by (auto simp: is_app_def is_lambda_def is_var_def fun_eq_iff)

text \<open>The cache of a copied node points to a node of the store.\<close>

lemma copy_live:
  assumes c: "copying h0 fn x h" and a: "old_node h0 a" "nodes h a = Some nd" "cache nd = PTR k"
    and hb: "heap_bounded h0"
  shows "next_node h0 \<le> k" "k < next_node h"
proof -
  from old_node_live [OF hb a(1)] have lt: "a < next_node h0" .
  from a(1) consider "is_app h0 a" | "is_lambda h0 a" "a \<noteq> fn" | "is_lambda h0 a" "a = fn"
    unfolding old_node_def by blast
  then have "next_node h0 \<le> k \<and> (is_app h k \<or> is_lambda h k)"
  proof cases
    case 1
    then obtain nd0 where nd0: "nodes h0 a = Some nd0" by (auto simp: is_app_iff)
    from evolvedD [OF copyingD(1) [OF c] lt nd0] a 1 show ?thesis by auto
  next
    case 2
    with copyingD(2) [OF c] a show ?thesis unfolding lam_copies_def by fastforce
  next
    case 3
    then obtain nd0 where nd0: "nodes h0 a = Some nd0" by (auto simp: is_lambda_iff)
    from evolvedD [OF copyingD(1) [OF c] lt nd0] a 3 show ?thesis by auto
  qed
  then show "next_node h0 \<le> k" "k < next_node h"
    using heap_boundedD [OF evolved_bounded [OF copyingD(1) [OF c]]]
    by (auto simp: is_app_iff is_lambda_iff)
qed

lemma mark_step:
  assumes st: "pass_start fn x h0" and c: "copying h0 fn x h"
    and a: "old_node h0 a" "nodes h a = Some nd" "cache nd = NULL"
    and X: "cache X = NULL" "uplinks X = []"
    and n: "new_node X h = (k, h1)" and s: "set_cache a (PTR k) h1 = Inr h2"
    and kind: "(is_app h0 a \<and> (\<exists>l r. content X = NODE_APP l r)) \<or>
       (is_lambda h0 a \<and> a \<noteq> fn \<and> rooted h0 fn x h a \<and>
        (\<exists>b v. content X = NODE_LAMBDA b v \<and> next_node h0 \<le> v \<and> is_var h v \<and>
           (\<forall>c' b'. kind_of h c' \<noteq> Some (NODE_LAMBDA b' v))))"
  shows "copying h0 fn x h2" "marks_kept h0 h h2" "marked h2 a"
    "\<forall>b. b \<noteq> a \<longrightarrow> b \<noteq> k \<longrightarrow> nodes h2 b = nodes h b"
proof -
  note hb = pass_startD(1) [OF st]
  note e = copyingD(1) [OF c]
  from old_node_live [OF hb a(1)] have lt: "a < next_node h0" .
  note a1 = evolved_new_node [OF e n]
  from a1(1,2) lt have ak: "a \<noteq> k" by simp
  from n have h1: "h1 = h\<lparr>nodes := (nodes h)(next_node h \<mapsto> X), next_node := Suc (next_node h)\<rparr>"
    by (auto simp: new_node_def)
  with ak a1(1) a(2) have nd1: "nodes h1 a = Some nd" by simp
  with s have h2: "h2 = store a (nd\<lparr>cache := PTR k\<rparr>) h1" by (simp add: set_cache_def)
  have nodes2: "nodes h2 b = (if b = a then Some (nd\<lparr>cache := PTR k\<rparr>)
      else if b = k then Some X else nodes h b)" for b
    using h1 h2 a1(1) by simp
  have next2: "next_node h2 = Suc k" using h1 h2 a1(1) by simp
  have kdead: "nodes h k = None"
    using evolved_bounded [OF e] a1(1) by (simp add: heap_bounded_def)
  have kind2: "kind_of h2 b = (if b = k then Some (content X) else kind_of h b)" for b
    using nodes2 [of b] a(2) ak by (auto simp: kind_of_def)
  have app2: "is_app h b \<Longrightarrow> is_app h2 b" for b
    using kind2 [of b] kdead by (auto simp: is_app_def kind_of_def)
  have lam2: "is_lambda h b \<Longrightarrow> is_lambda h2 b" for b
    using kind2 [of b] kdead by (auto simp: is_lambda_def kind_of_def)
  have var2: "is_var h b \<Longrightarrow> is_var h2 b" for b
    using kind2 [of b] kdead by (auto simp: is_var_def kind_of_def)
  have excl: "\<not> (is_app h0 a \<and> is_lambda h0 a)" by (auto simp: is_app_iff is_lambda_iff)
  have kindL: "rooted h0 fn x h a \<and>
        (\<exists>b v. content X = NODE_LAMBDA b v \<and> next_node h0 \<le> v \<and> is_var h v \<and>
           (\<forall>c' b'. kind_of h c' \<noteq> Some (NODE_LAMBDA b' v)))" if "is_lambda h0 a"
    using kind that excl by blast
  have kindA: "\<exists>l r. content X = NODE_APP l r" if "\<not> is_lambda h0 a"
    using kind that by blast
  have okA: "is_app h0 a \<longrightarrow> next_node h0 \<le> k \<and> is_app h1 k"
    using kindA excl a1(2,4) by (auto simp: is_app_iff)
  have okL: "is_lambda h0 a \<longrightarrow> a \<noteq> fn"
    using kind excl by blast
  from evolved_set_cache [OF a1(3) lt nd1 okA okL] s have e2: "evolved h0 fn h2" by auto
  show kept: "marks_kept h0 h h2"
    unfolding marks_kept_def using nodes2 a kdead by auto
  show m: "marked h2 a" using nodes2 [of a] by (simp add: marked_def)
  show "\<forall>b. b \<noteq> a \<longrightarrow> b \<noteq> k \<longrightarrow> nodes h2 b = nodes h b" using nodes2 by simp
  have ptr: "next_node h0 \<le> j \<and> j < k"
    if "old_node h0 b" "nodes h b = Some bn" "cache bn = PTR j" for b bn j
    using copy_live [OF c that hb] a1(1) by simp
  have 2: "lam_copies h0 fn h2"
    unfolding lam_copies_def
  proof (intro allI impI)
    fix b bn assume b: "nodes h2 b = Some bn" "is_lambda h0 b" "b \<noteq> fn"
    show "cache bn = NULL \<or> (\<exists>c. cache bn = PTR c \<and> next_node h0 \<le> c \<and> is_lambda h2 c)"
    proof (cases "b = a")
      case True
      with b nodes2 [of a] have "cache bn = PTR k" by auto
      moreover from True b kindL have "is_lambda h2 k"
        using kind2 [of k] by (auto simp: is_lambda_def)
      ultimately show ?thesis using a1(2) by simp
    next
      case False
      from b have "b < next_node h0" using old_node_live [OF hb] by (simp add: old_node_def)
      with a1(2) have "b \<noteq> k" by simp
      with False b nodes2 [of b] have "nodes h b = Some bn" by simp
      with copyingD(2) [OF c] b lam2 show ?thesis unfolding lam_copies_def by blast
    qed
  qed
  have 3: "inj_copies h0 h2"
    unfolding inj_copies_def
  proof (intro allI impI)
    fix b b' bn bn' j
    assume b: "old_node h0 b" "old_node h0 b'" "nodes h2 b = Some bn" "nodes h2 b' = Some bn'"
      "cache bn = PTR j" "cache bn' = PTR j"
    from b(1,2) a1(2) old_node_live [OF hb] have nk: "b \<noteq> k" "b' \<noteq> k" by fastforce+
    show "b = b'"
    proof (cases "b = a")
      case True
      with b nodes2 [of a] have j: "j = k" by auto
      show ?thesis
      proof (rule ccontr)
        assume "b \<noteq> b'"
        with True nk b nodes2 [of b'] have "nodes h b' = Some bn'" by simp
        from ptr [OF b(2) this b(6)] j show False by simp
      qed
    next
      case False
      with nk b nodes2 [of b] have nb: "nodes h b = Some bn" by simp
      show ?thesis
      proof (cases "b' = a")
        case True
        with b nodes2 [of a] have j: "j = k" by auto
        from ptr [OF b(1) nb b(5)] j show ?thesis by simp
      next
        case False
        with nk b nodes2 [of b'] have "nodes h b' = Some bn'" by simp
        with copyingD(3) [OF c] b nb show ?thesis unfolding inj_copies_def by blast
      qed
    qed
  qed
  have pend: "pending h0 h j \<Longrightarrow> pending h0 h2 j" for j
    unfolding pending_def using nodes2 a kdead
    by (metis NodePtr.distinct(3) option.distinct(1) option.inject)
  have 4: "new_nodes h0 h2"
    unfolding new_nodes_def
  proof (intro allI impI)
    fix j assume j: "next_node h0 \<le> j" "j < next_node h2"
    show "\<exists>cn. nodes h2 j = Some cn \<and> uplinks cn = [] \<and> cache cn = NULL \<and>
           (is_app h2 j \<or> is_lambda h2 j \<longrightarrow> pending h0 h2 j)"
    proof (cases "j = k")
      case True
      have "pending h0 h2 k"
        unfolding pending_def using a(1) nodes2 [of a] by auto
      with True ak X nodes2 [of k] show ?thesis by simp
    next
      case False
      with j next2 a1(1) have "j < next_node h" by simp
      with copyingD(4) [OF c] j obtain cn where cn: "nodes h j = Some cn" "uplinks cn = []"
        "cache cn = NULL" "is_app h j \<or> is_lambda h j \<longrightarrow> pending h0 h j"
        unfolding new_nodes_def by blast
      from j lt have "j \<noteq> a" by simp
      with False cn nodes2 [of j] kind2 [of j] pend show ?thesis
        by (auto simp: is_app_def is_lambda_def)
    qed
  qed
  have 5: "new_vars h0 h2"
    unfolding new_vars_def
  proof (intro allI impI)
    fix j b v assume j: "next_node h0 \<le> j" "kind_of h2 j = Some (NODE_LAMBDA b v)"
    show "next_node h0 \<le> v \<and> is_var h2 v \<and>
        (\<forall>c' b'. kind_of h2 c' = Some (NODE_LAMBDA b' v) \<longrightarrow> c' = j)"
    proof (cases "j = k")
      case True
      with j kind2 [of k] have cx: "content X = NODE_LAMBDA b v" by simp
      with kindA have "is_lambda h0 a" by auto
      from kindL [OF this] cx have v: "next_node h0 \<le> v" "is_var h v"
        "\<forall>c' b'. kind_of h c' \<noteq> Some (NODE_LAMBDA b' v)"
        by auto
      from v(3) kind2 True have "\<forall>c' b'. kind_of h2 c' = Some (NODE_LAMBDA b' v) \<longrightarrow> c' = j"
        by (metis)
      with v var2 show ?thesis by simp
    next
      case False
      with j kind2 [of j] have kj: "kind_of h j = Some (NODE_LAMBDA b v)" by simp
      with copyingD(5) [OF c] j(1) have v: "next_node h0 \<le> v" "is_var h v"
        "\<forall>c' b'. kind_of h c' = Some (NODE_LAMBDA b' v) \<longrightarrow> c' = j"
        unfolding new_vars_def by blast+
      have "c' = j" if "kind_of h2 c' = Some (NODE_LAMBDA b' v)" for c' b'
      proof (cases "c' = k")
        case True
        with that kind2 [of k] have cx: "content X = NODE_LAMBDA b' v" by simp
        with kindA have "is_lambda h0 a" by auto
        from kindL [OF this] cx kj show ?thesis by auto
      next
        case False
        with that kind2 [of c'] v(3) show ?thesis by simp
      qed
      with v var2 show ?thesis by blast
    qed
  qed
  have 6: "marks_rooted h0 fn x h2"
    unfolding marks_rooted_def
  proof (intro allI impI)
    fix P assume P: "is_lambda h0 P" "P \<noteq> fn" "marked h2 P"
    show "rooted h0 fn x h2 P"
    proof (cases "P = a")
      case True
      with P kindL have "rooted h0 fn x h a" by simp
      with True rooted_mono [OF kept] show ?thesis by simp
    next
      case False
      from P have "P < next_node h0" using old_node_live [OF hb] by (simp add: old_node_def)
      with a1(2) have "P \<noteq> k" by simp
      with False P nodes2 [of P] have "marked h P" by (simp add: marked_def)
      with copyingD(6) [OF c] P have "rooted h0 fn x h P" unfolding marks_rooted_def by blast
      with rooted_mono [OF kept] show ?thesis by simp
    qed
  qed
  from e2 2 3 4 5 6 show "copying h0 fn x h2" by (simp add: copying_def)
qed

text \<open>A write that leaves the old applications and lambdas, and the kinds, as they are.\<close>

lemma quiet_step:
  assumes st: "pass_start fn x h0" and c: "copying h0 fn x h" and e': "evolved h0 fn h'"
    and old: "\<And>b bn. old_node h0 b \<Longrightarrow> nodes h' b = nodes h b"
    and news: "\<And>j. next_node h0 \<le> j \<Longrightarrow> j < next_node h \<Longrightarrow>
        \<exists>cn cn'. nodes h j = Some cn \<and> nodes h' j = Some cn' \<and> uplinks cn' = uplinks cn \<and>
          cache cn' = cache cn"
    and kinds: "\<And>j. is_app h' j = is_app h j \<and> is_lambda h' j = is_lambda h j \<and>
        (is_var h j \<longrightarrow> is_var h' j) \<and>
        (\<forall>b v. (kind_of h' j = Some (NODE_LAMBDA b v)) = (kind_of h j = Some (NODE_LAMBDA b v)))"
    and nx: "next_node h' = next_node h"
  shows "copying h0 fn x h'" "marks_kept h0 h h'"
    "\<forall>b. old_node h0 b \<longrightarrow> marked h' b = marked h b"
proof -
  show kept: "marks_kept h0 h h'"
    unfolding marks_kept_def using old by auto
  show mk: "\<forall>b. old_node h0 b \<longrightarrow> marked h' b = marked h b"
    using old by (simp add: marked_def)
  have 2: "lam_copies h0 fn h'"
    using copyingD(2) [OF c] old kinds unfolding lam_copies_def old_node_def by metis
  have 3: "inj_copies h0 h'"
    using copyingD(3) [OF c] old unfolding inj_copies_def by metis
  have pend: "pending h0 h' j = pending h0 h j" for j
    unfolding pending_def using old by metis
  have 4: "new_nodes h0 h'"
    unfolding new_nodes_def
  proof (intro allI impI)
    fix j assume j: "next_node h0 \<le> j" "j < next_node h'"
    with nx copyingD(4) [OF c] obtain cn where cn: "nodes h j = Some cn" "uplinks cn = []"
      "cache cn = NULL" "is_app h j \<or> is_lambda h j \<longrightarrow> pending h0 h j"
      unfolding new_nodes_def by metis
    from news [OF j(1)] j(2) nx cn obtain cn' where "nodes h' j = Some cn'"
      "uplinks cn' = []" "cache cn' = NULL"
      by auto
    with cn(4) kinds [of j] pend [of j]
    show "\<exists>cn. nodes h' j = Some cn \<and> uplinks cn = [] \<and> cache cn = NULL \<and>
           (is_app h' j \<or> is_lambda h' j \<longrightarrow> pending h0 h' j)"
      by auto
  qed
  have 5: "new_vars h0 h'"
    using copyingD(5) [OF c] kinds unfolding new_vars_def by metis
  have 6: "marks_rooted h0 fn x h'"
    unfolding marks_rooted_def
  proof (intro allI impI)
    fix P assume P: "is_lambda h0 P" "P \<noteq> fn" "marked h' P"
    with mk have "marked h P" by (simp add: old_node_def)
    with copyingD(6) [OF c] P have "rooted h0 fn x h P" unfolding marks_rooted_def by blast
    with rooted_mono [OF kept] show "rooted h0 fn x h' P" by simp
  qed
  from e' 2 3 4 5 6 show "copying h0 fn x h'" by (simp add: copying_def)
qed

lemma over_step:
  assumes st: "pass_start fn x h0" and c: "copying h0 fn x h"
    and k: "next_node h0 \<le> k" "nodes h k = Some cn" "content cn = NODE_APP cl cr"
    and cn': "cn' = cn\<lparr>content := NODE_APP cl' cr'\<rparr>"
  shows "copying h0 fn x (store k cn' h)" "marks_kept h0 h (store k cn' h)"
    "\<forall>b. old_node h0 b \<longrightarrow> marked (store k cn' h) b = marked h b"
proof -
  note hb = pass_startD(1) [OF st]
  note e = copyingD(1) [OF c]
  from cn' have ck: "content cn' = NODE_APP cl' cr'" by simp
  note e' = evolved_store_new(1) [OF e k ck]
  have old: "nodes (store k cn' h) b = nodes h b" if "old_node h0 b" for b
    using old_node_live [OF hb that] k(1) by simp
  have news: "\<exists>cn0 cn1. nodes h j = Some cn0 \<and> nodes (store k cn' h) j = Some cn1 \<and>
      uplinks cn1 = uplinks cn0 \<and> cache cn1 = cache cn0"
    if "next_node h0 \<le> j" "j < next_node h" for j
  proof -
    from copyingD(4) [OF c] that obtain cj where "nodes h j = Some cj"
      unfolding new_nodes_def by blast
    with k cn' show ?thesis by (cases "j = k") auto
  qed
  have kinds: "is_app (store k cn' h) j = is_app h j \<and>
      is_lambda (store k cn' h) j = is_lambda h j \<and>
      (is_var h j \<longrightarrow> is_var (store k cn' h) j) \<and>
      (\<forall>b v. (kind_of (store k cn' h) j = Some (NODE_LAMBDA b v)) =
         (kind_of h j = Some (NODE_LAMBDA b v)))" for j
    using k ck by (cases "j = k") (auto simp: is_app_iff is_lambda_iff is_var_iff kind_of_iff)
  have nx: "next_node (store k cn' h) = next_node h" by simp
  note q = quiet_step [OF st c e' old news kinds nx]
  from q(1) show "copying h0 fn x (store k cn' h)" .
  from q(2) show "marks_kept h0 h (store k cn' h)" .
  from q(3) show "\<forall>b. old_node h0 b \<longrightarrow> marked (store k cn' h) b = marked h b" .
qed

lemma vcache_step:
  assumes st: "pass_start fn x h0" and c: "copying h0 fn x h"
    and a: "a < next_node h0" "is_var h0 a" and s: "set_cache a (PTR k) h = Inr h'"
  shows "copying h0 fn x h'" "marks_kept h0 h h'"
    "\<forall>b. old_node h0 b \<longrightarrow> marked h' b = marked h b"
proof -
  note hb = pass_startD(1) [OF st]
  note e = copyingD(1) [OF c]
  from s obtain nd where nd: "nodes h a = Some nd" and h': "h' = store a (nd\<lparr>cache := PTR k\<rparr>) h"
    by (auto simp: set_cache_def split: option.splits)
  from a(2) have na: "\<not> is_app h0 a" "\<not> is_lambda h0 a"
    by (auto simp: is_app_iff is_lambda_iff is_var_iff)
  from na have "is_app h0 a \<longrightarrow> next_node h0 \<le> k \<and> is_app h k" "is_lambda h0 a \<longrightarrow> a \<noteq> fn"
    by simp_all
  from evolved_set_cache [OF e a(1) nd this] s have e': "evolved h0 fn h'" by auto
  have old: "nodes h' b = nodes h b" if "old_node h0 b" for b
    using that na h' by (cases "b = a") (auto simp: old_node_def)
  have news: "\<exists>cn0 cn1. nodes h j = Some cn0 \<and> nodes h' j = Some cn1 \<and>
      uplinks cn1 = uplinks cn0 \<and> cache cn1 = cache cn0"
    if "next_node h0 \<le> j" "j < next_node h" for j
  proof -
    from copyingD(4) [OF c] that obtain cj where "nodes h j = Some cj"
      unfolding new_nodes_def by blast
    with that a(1) h' show ?thesis by auto
  qed
  from kind_of_store_cache [OF nd] h' have kk: "kind_of h' = kind_of h" by simp
  have kinds: "is_app h' j = is_app h j \<and> is_lambda h' j = is_lambda h j \<and>
      (is_var h j \<longrightarrow> is_var h' j) \<and>
      (\<forall>b v. (kind_of h' j = Some (NODE_LAMBDA b v)) = (kind_of h j = Some (NODE_LAMBDA b v)))" for j
    using kk is_kind_cong [OF kk] by simp
  have nx: "next_node h' = next_node h" using h' by simp
  note q = quiet_step [OF st c e' old news kinds nx]
  from q(1) show "copying h0 fn x h'" .
  from q(2) show "marks_kept h0 h h'" .
  from q(3) show "\<forall>b. old_node h0 b \<longrightarrow> marked h' b = marked h b" .
qed

text \<open>An old lambda has its old variable.\<close>

lemma evolved_kind:
  assumes "evolved h0 fn h" "a < next_node h0"
  shows "kind_of h a = kind_of h0 a"
proof (cases "nodes h0 a")
  case None
  with assms have "nodes h a = None" unfolding evolved_def by (auto split: option.splits)
  with None show ?thesis by (simp add: kind_of_def)
next
  case (Some nd0)
  from evolvedD [OF assms this] Some show ?thesis by (auto simp: kind_of_def)
qed

lemma var_step:
  assumes st: "pass_start fn x h0" and c: "copying h0 fn x h"
    and n: "new_node \<lparr>cache = NULL, uplinks = [], content = NODE_VAR\<rparr> h = (k, h1)"
  shows "copying h0 fn x h1" "marks_kept h0 h h1"
    "\<forall>b. b \<noteq> k \<longrightarrow> nodes h1 b = nodes h b"
    "next_node h0 \<le> k" "is_var h1 k" "\<forall>c' b'. kind_of h1 c' \<noteq> Some (NODE_LAMBDA b' k)"
proof -
  let ?X = "\<lparr>cache = NULL, uplinks = [], content = NODE_VAR\<rparr>"
  note hb = pass_startD(1) [OF st]
  note e = copyingD(1) [OF c]
  note a1 = evolved_new_node [OF e n]
  from n have h1: "h1 = h\<lparr>nodes := (nodes h)(next_node h \<mapsto> ?X), next_node := Suc (next_node h)\<rparr>"
    by (auto simp: new_node_def)
  have nodes1: "nodes h1 b = (if b = k then Some ?X else nodes h b)" for b
    using h1 a1(1) by simp
  have next1: "next_node h1 = Suc k" using h1 a1(1) by simp
  have kdead: "nodes h k = None"
    using evolved_bounded [OF e] a1(1) by (simp add: heap_bounded_def)
  have kind1: "kind_of h1 b = (if b = k then Some NODE_VAR else kind_of h b)" for b
    using nodes1 [of b] by (auto simp: kind_of_def)
  have app1: "is_app h1 b = is_app h b" for b
    using kind1 [of b] kdead by (auto simp: is_app_def kind_of_def)
  have lam1: "is_lambda h1 b = is_lambda h b" for b
    using kind1 [of b] kdead by (auto simp: is_lambda_def kind_of_def)
  have var1: "is_var h b \<Longrightarrow> is_var h1 b" for b
    using kind1 [of b] kdead by (auto simp: is_var_def kind_of_def)
  have lamk: "(kind_of h1 b = Some (NODE_LAMBDA bb v)) = (kind_of h b = Some (NODE_LAMBDA bb v))"
    for b bb v
    using kind1 [of b] kdead by (auto simp: kind_of_def)
  show "next_node h0 \<le> k" by fact
  show "is_var h1 k" using kind1 [of k] by (simp add: is_var_def)
  show "\<forall>b. b \<noteq> k \<longrightarrow> nodes h1 b = nodes h b" using nodes1 by simp
  have old: "nodes h1 b = nodes h b" if "old_node h0 b" for b
    using old_node_live [OF hb that] a1(2) nodes1 [of b] by simp
  show kept: "marks_kept h0 h h1"
    unfolding marks_kept_def using old by auto
  have mk: "old_node h0 b \<Longrightarrow> marked h1 b = marked h b" for b
    using old by (simp add: marked_def)
  have 2: "lam_copies h0 fn h1"
    using copyingD(2) [OF c] old lam1 unfolding lam_copies_def old_node_def by metis
  have 3: "inj_copies h0 h1"
    using copyingD(3) [OF c] old unfolding inj_copies_def by metis
  have pend: "pending h0 h1 j = pending h0 h j" for j
    unfolding pending_def using old by metis
  have 4: "new_nodes h0 h1"
    unfolding new_nodes_def
  proof (intro allI impI)
    fix j assume j: "next_node h0 \<le> j" "j < next_node h1"
    show "\<exists>cn. nodes h1 j = Some cn \<and> uplinks cn = [] \<and> cache cn = NULL \<and>
           (is_app h1 j \<or> is_lambda h1 j \<longrightarrow> pending h0 h1 j)"
    proof (cases "j = k")
      case True
      with nodes1 [of k] kind1 [of k] show ?thesis by (simp add: is_app_def is_lambda_def)
    next
      case False
      with j next1 a1(1) have "j < next_node h" by simp
      with copyingD(4) [OF c] j obtain cn where cn: "nodes h j = Some cn" "uplinks cn = []"
        "cache cn = NULL" "is_app h j \<or> is_lambda h j \<longrightarrow> pending h0 h j"
        unfolding new_nodes_def by blast
      with False nodes1 [of j] app1 lam1 pend show ?thesis by simp
    qed
  qed
  have 5: "new_vars h0 h1"
    using copyingD(5) [OF c] lamk var1 unfolding new_vars_def by metis
  have 6: "marks_rooted h0 fn x h1"
    unfolding marks_rooted_def
  proof (intro allI impI)
    fix P assume P: "is_lambda h0 P" "P \<noteq> fn" "marked h1 P"
    with mk have "marked h P" by (simp add: old_node_def)
    with copyingD(6) [OF c] P have "rooted h0 fn x h P" unfolding marks_rooted_def by blast
    with rooted_mono [OF kept] show "rooted h0 fn x h1 P" by simp
  qed
  from a1(3) 2 3 4 5 6 show "copying h0 fn x h1" by (simp add: copying_def)
  show "\<forall>c' b'. kind_of h1 c' \<noteq> Some (NODE_LAMBDA b' k)"
  proof (intro allI notI)
    fix c' b' assume "kind_of h1 c' = Some (NODE_LAMBDA b' k)"
    with lamk have l: "kind_of h c' = Some (NODE_LAMBDA b' k)" by simp
    show False
    proof (cases "c' < next_node h0")
      case True
      from l evolved_kind [OF e True] have "kind_of h0 c' = Some (NODE_LAMBDA b' k)" by simp
      with pass_startD(4) [OF st] have "k < next_node h0" unfolding vars_sound_def by blast
      with a1(2) show ?thesis by simp
    next
      case False
      then have "next_node h0 \<le> c'" by simp
      from copyingD(5) [OF c, unfolded new_vars_def, rule_format, OF this l]
      have "is_var h k" by simp
      with kdead show ?thesis by (simp add: is_var_iff)
    qed
  qed
qed

lemma upcopy_dead: "nodes h into = None \<Longrightarrow> upcopy n nc into t h \<noteq> Inr h'"
  by (cases n) (auto simp: deref_def)

text \<open>What the records of a node say about its parents.\<close>

lemma parent_facts:
  assumes st: "pass_start fn x h0" and nd0: "nodes h0 c = Some nd0" and u: "u \<in> set (uplinks nd0)"
  shows "link u < next_node h0" "nodes h0 (link u) \<noteq> None" "old_node h0 (link u)"
    "is_lambda h0 (link u) \<longrightarrow> type u = UPLINK_NA \<and>
       (\<exists>v. kind_of h0 (link u) = Some (NODE_LAMBDA c v))"
proof -
  from uplinks_matchD2(1) [OF pass_startD(2) [OF st] nd0 u] have "edge_ok h0 c u" .
  then obtain pn where pn: "nodes h0 (link u) = Some pn"
    "(c, type u) \<in> set (out_edges (content pn))"
    by (auto simp: edge_ok_def split: option.splits)
  from heap_boundedD [OF pass_startD(1) [OF st] pn(1)] show "link u < next_node h0" .
  from pn show "nodes h0 (link u) \<noteq> None" by simp
  from pn show "old_node h0 (link u)"
    by (cases "content pn") (auto simp: old_node_def is_app_iff is_lambda_iff)
  from pn show "is_lambda h0 (link u) \<longrightarrow> type u = UPLINK_NA \<and>
       (\<exists>v. kind_of h0 (link u) = Some (NODE_LAMBDA c v))"
    by (cases "content pn") (auto simp: is_lambda_iff kind_of_iff)
qed

lemma records_distinct:
  assumes st: "pass_start fn x h0" and nd0: "nodes h0 c = Some nd0"
  shows "distinct (map (\<lambda>u. (link u, type u)) (uplinks nd0))"
  using uplinks_matchD2(2) [OF pass_startD(2) [OF st] nd0]
  by (intro count_rec_distinct) blast

lemma root_not_lambda:
  assumes st: "pass_start fn x h0"
  shows "\<not> is_lambda h0 x"
  using pass_startD(4,5) [OF st] unfolding vars_sound_def by blast

lemma fresh_entry_apart:
  assumes st: "pass_start fn x h0" and r: "rooted h0 fn x h p" and b: "below h0 fn p P"
    and f: "fresh_entry h0 fn h h1 P"
  shows False
proof -
  from f obtain A e v where a: "is_app h0 A" "\<not> marked h A"
    "kind_of h0 e = Some (NODE_LAMBDA A v)" "below h0 fn e P"
    unfolding fresh_entry_def by blast
  from r obtain e0 where e0: "below h0 fn e0 p" "entry_ok h0 fn x h e0"
    unfolding rooted_def by blast
  from e0(1) b have "below h0 fn e0 P" by (rule below_trans)
  from entry_unique [OF pass_startD(3) [OF st] this _ a(4) rootless_over_app [OF a(3,1)]] e0(2)
  have "e0 = e" by (simp add: entry_ok_def)
  with e0(2) a(3) consider "e = x" | "marked h A" by (auto simp: entry_ok_def)
  then show False
  proof cases
    case 1
    with a(3) root_not_lambda [OF st] show ?thesis by (simp add: is_lambda_def)
  next
    case 2
    with a(2) show ?thesis by simp
  qed
qed



lemma upcopy_uplinks_copying:
  assumes st: "pass_start fn x h0"
    and calls: "\<And>h into t h'. copying h0 fn x h \<Longrightarrow> into < next_node h0 \<Longrightarrow>
      nodes h0 into \<noteq> None \<Longrightarrow>
      (into \<noteq> fn \<longrightarrow> is_lambda h0 into \<or> is_var h0 into \<longrightarrow>
         rooted h0 fn x h into \<and> fresh h0 fn h into) \<Longrightarrow>
      upcopy n newNode into t h = Inr h' \<Longrightarrow>
      copying h0 fn x h' \<and> marks_kept h0 h h' \<and> marks_within h0 fn into h h'"
    and apart: "\<And>p q P. p \<in> link ` set us0 \<Longrightarrow> q \<in> link ` set us0 \<Longrightarrow> p \<noteq> q \<Longrightarrow>
      is_lambda h0 p \<Longrightarrow> is_lambda h0 q \<Longrightarrow> \<not> (below h0 fn p P \<and> below h0 fn q P)"
    and nd0: "nodes h0 c = Some nd0" "set us0 \<subseteq> set (uplinks nd0)"
  shows "copying h0 fn x h \<Longrightarrow> set us \<subseteq> set us0 \<Longrightarrow>
      distinct (map (\<lambda>u. (link u, type u)) us) \<Longrightarrow>
      (\<forall>u \<in> set us. is_lambda h0 (link u) \<longrightarrow> link u \<noteq> fn \<longrightarrow>
         rooted h0 fn x h (link u) \<and> fresh h0 fn h (link u)) \<Longrightarrow>
      upcopy_uplinks n newNode us h = Inr h' \<Longrightarrow>
      copying h0 fn x h' \<and> marks_kept h0 h h' \<and> loop_marks h0 fn us h h'"
proof (induction us arbitrary: h)
  case Nil
  then show ?case by (simp add: loop_marks_def)
next
  case (Cons u us)
  from Cons.prems(5) obtain h1 where h1: "upcopy n newNode (link u) (type u) h = Inr h1"
    "upcopy_uplinks n newNode us h1 = Inr h'"
    by (auto simp: andthen_eq_Inr)
  from Cons.prems(2) nd0 have u0: "u \<in> set (uplinks nd0)" by auto
  note pf = parent_facts [OF st nd0(1) u0]
  from pf(3) have nv: "\<not> is_var h0 (link u)"
    by (auto simp: old_node_def is_app_iff is_lambda_iff is_var_iff)
  have pre: "link u \<noteq> fn \<longrightarrow> is_lambda h0 (link u) \<or> is_var h0 (link u) \<longrightarrow>
         rooted h0 fn x h (link u) \<and> fresh h0 fn h (link u)"
    using Cons.prems(4) nv by simp
  from calls [OF Cons.prems(1) pf(1,2) pre h1(1)]
  have c1: "copying h0 fn x h1" and k1: "marks_kept h0 h h1"
    and w1: "marks_within h0 fn (link u) h h1"
    by simp_all
  have fresh1: "\<forall>u' \<in> set us. is_lambda h0 (link u') \<longrightarrow> link u' \<noteq> fn \<longrightarrow>
         rooted h0 fn x h1 (link u') \<and> fresh h0 fn h1 (link u')"
  proof (intro ballI impI)
    fix u' assume u': "u' \<in> set us" "is_lambda h0 (link u')" "link u' \<noteq> fn"
    with Cons.prems(4) have r: "rooted h0 fn x h (link u')" and f: "fresh h0 fn h (link u')"
      by simp_all
    from Cons.prems(2) u' nd0 have u0': "u' \<in> set (uplinks nd0)" by auto
    have f1: "fresh h0 fn h1 (link u')"
      unfolding fresh_def
    proof (intro allI impI notI)
      fix P assume P: "below h0 fn (link u') P" "is_lambda h0 P" "marked h1 P"
      from f P have "\<not> marked h P" by (simp add: fresh_def)
      with w1 P consider "\<not> is_app h0 (link u)" "link u \<noteq> fn" "below h0 fn (link u) P"
        | "fresh_entry h0 fn h h1 P"
        unfolding marks_within_def by blast
      then show False
      proof cases
        case 1
        with pf(3) have lu: "is_lambda h0 (link u)" by (simp add: old_node_def)
        have "link u \<noteq> link u'"
        proof
          assume eq: "link u = link u'"
          from pf(4) lu have "type u = UPLINK_NA" by simp
          moreover from parent_facts(4) [OF st nd0(1) u0'] u'(2) have "type u' = UPLINK_NA"
            by simp
          ultimately have "(link u, type u) = (link u', type u')" using eq by simp
          with u'(1) Cons.prems(3) show False by force
        qed
        moreover from Cons.prems(2) u'(1) have "link u \<in> link ` set us0" "link u' \<in> link ` set us0"
          by auto
        ultimately show ?thesis using apart lu u'(2) 1(3) P(1) by blast
      next
        case 2
        from fresh_entry_apart [OF st r P(1) 2] show ?thesis .
      qed
    qed
    from rooted_mono [OF k1 r] f1
    show "rooted h0 fn x h1 (link u') \<and> fresh h0 fn h1 (link u')" by simp
  qed
  from Cons.prems(2,3) have "set us \<subseteq> set us0" "distinct (map (\<lambda>u. (link u, type u)) us)"
    by auto
  from Cons.IH [OF c1 this fresh1 h1(2)]
  have c': "copying h0 fn x h'" and k': "marks_kept h0 h1 h'" and l': "loop_marks h0 fn us h1 h'"
    by simp_all
  have "loop_marks h0 fn (u # us) h h'"
    unfolding loop_marks_def
  proof (intro allI impI)
    fix P assume P: "is_lambda h0 P" "\<not> marked h P" "marked h' P"
    show "(\<exists>u \<in> set (u # us). is_lambda h0 (link u) \<and> link u \<noteq> fn \<and> below h0 fn (link u) P) \<or>
        fresh_entry h0 fn h h' P"
    proof (cases "marked h1 P")
      case True
      with w1 P consider "\<not> is_app h0 (link u)" "link u \<noteq> fn" "below h0 fn (link u) P"
        | "fresh_entry h0 fn h h1 P"
        unfolding marks_within_def by blast
      then show ?thesis
      proof cases
        case 1
        with pf(3) show ?thesis by (auto simp: old_node_def)
      next
        case 2
        from fresh_entry_mono [OF marks_kept_refl k' 2] show ?thesis by simp
      qed
    next
      case False
      with l' P consider u' where "u' \<in> set us" "is_lambda h0 (link u')" "link u' \<noteq> fn"
          "below h0 fn (link u') P"
        | "fresh_entry h0 fn h1 h' P"
        unfolding loop_marks_def by blast
      then show ?thesis
      proof cases
        case 1
        then show ?thesis by auto
      next
        case 2
        from fresh_entry_mono [OF k1 marks_kept_refl 2] show ?thesis by simp
      qed
    qed
  qed
  with c' marks_kept_trans [OF k1 k'] show ?case by simp
qed

lemma marked_cache: "nodes h a = Some nd \<Longrightarrow> marked h a \<longleftrightarrow> (\<exists>c. cache nd = PTR c)"
  by (simp add: marked_def)

lemma frame_marked:
  assumes "nodes h' P = nodes h P"
  shows "marked h' P = marked h P"
  using assms by (simp add: marked_def)

lemma upcopy_prim:
  assumes "nodes h into = Some nd" "content nd = NODE_PRIM p"
  shows "upcopy n nc into t h \<noteq> Inr h'"
  using assms by (cases n) (auto simp: deref_def)

lemma upcopy_copying:
  assumes st: "pass_start fn x h0"
  shows "copying h0 fn x h \<Longrightarrow> into < next_node h0 \<Longrightarrow> nodes h0 into \<noteq> None \<Longrightarrow>
      (into \<noteq> fn \<longrightarrow> is_lambda h0 into \<or> is_var h0 into \<longrightarrow>
         rooted h0 fn x h into \<and> fresh h0 fn h into) \<Longrightarrow>
      upcopy n nc into t h = Inr h' \<Longrightarrow>
      copying h0 fn x h' \<and> marks_kept h0 h h' \<and> marks_within h0 fn into h h'"
proof (induction n arbitrary: h into nc t h')
  case 0
  then show ?case by simp
next
  case (Suc n)
  note c = \<open>copying h0 fn x h\<close> and lt = \<open>into < next_node h0\<close>
  note run = \<open>upcopy (Suc n) nc into t h = Inr h'\<close>
  note hb = pass_startD(1) [OF st] and ub = pass_startD(3) [OF st]
  note e = copyingD(1) [OF c]
  from Suc.prems(3) obtain nd0 where nd0: "nodes h0 into = Some nd0" by auto
  from evolvedD [OF e lt nd0] obtain nd where nd: "nodes h into = Some nd"
    "content nd = content nd0" "uplinks nd = uplinks nd0"
    "is_lambda h0 into \<longrightarrow> (cache nd = STOP \<longleftrightarrow> into = fn)"
    "is_app h0 into \<longrightarrow> cache nd = NULL \<or>
              (\<exists>c. cache nd = PTR c \<and> next_node h0 \<le> c \<and> is_app h c)"
    by blast
  from pass_startD(5) [OF st] obtain body where fnk: "kind_of h0 fn = Some (NODE_LAMBDA body x)"
    by blast
  then have fl: "is_lambda h0 fn" by (simp add: is_lambda_def)
  have not_fn: "\<not> marked h1 fn" if "copying h0 fn x h1" for h1
  proof -
    from fnk obtain fd where fd: "nodes h0 fn = Some fd" by (auto simp: kind_of_iff)
    from heap_boundedD [OF hb fd] have "fn < next_node h0" .
    from evolvedD [OF copyingD(1) [OF that] this fd] fl show ?thesis by (auto simp: marked_def)
  qed
  have loop: "copying h0 fn x h2 \<and> marks_kept h0 h1 h2 \<and> loop_marks h0 fn (uplinks nd0) h1 h2"
    if c1: "copying h0 fn x h1"
      and fr: "\<forall>u \<in> set (uplinks nd0). is_lambda h0 (link u) \<longrightarrow> link u \<noteq> fn \<longrightarrow>
         rooted h0 fn x h1 (link u) \<and> fresh h0 fn h1 (link u)"
      and apart: "\<And>p q P. p \<in> link ` set (uplinks nd0) \<Longrightarrow> q \<in> link ` set (uplinks nd0) \<Longrightarrow>
         p \<noteq> q \<Longrightarrow> is_lambda h0 p \<Longrightarrow> is_lambda h0 q \<Longrightarrow>
         \<not> (below h0 fn p P \<and> below h0 fn q P)"
      and r: "upcopy_uplinks n newNode (uplinks nd0) h1 = Inr h2"
    for h1 h2 newNode
  proof (rule upcopy_uplinks_copying [OF st _ apart nd0 _ c1 _ records_distinct [OF st nd0] fr r])
    show "set (uplinks nd0) \<subseteq> set (uplinks nd0)" by simp
    show "set (uplinks nd0) \<subseteq> set (uplinks nd0)" by simp
    show "copying h0 fn x h'' \<and> marks_kept h0 ha h'' \<and> marks_within h0 fn intoa ha h''"
      if "copying h0 fn x ha" "intoa < next_node h0" "nodes h0 intoa \<noteq> None"
        "intoa \<noteq> fn \<longrightarrow> is_lambda h0 intoa \<or> is_var h0 intoa \<longrightarrow>
           rooted h0 fn x ha intoa \<and> fresh h0 fn ha intoa"
        "upcopy n newNode intoa ta ha = Inr h''"
      for ha intoa ta h''
      using that by (rule Suc.IH)
  qed
  have parents_lv: "rooted h0 fn x h1 (link u) \<and> fresh h0 fn h1 (link u)"
    if lv: "\<not> is_app h0 into" "into \<noteq> fn" "rooted h0 fn x h1 into"
      and u: "u \<in> set (uplinks nd0)" "is_lambda h0 (link u)"
      and fr: "\<And>P. below h0 fn (link u) P \<Longrightarrow> is_lambda h0 P \<Longrightarrow> marked h1 P \<Longrightarrow> False"
    for h1 u
  proof -
    from parent_facts(4) [OF st nd0 u(1)] u(2) obtain v where
      "kind_of h0 (link u) = Some (NODE_LAMBDA into v)" by blast
    with lv(1) have "lv_pred h0 fn into (link u)" by (auto simp: lv_pred_def)
    from rooted_step [OF lv(3) this] fr show ?thesis unfolding fresh_def by blast
  qed
  have pred_parent: "lv_pred h0 fn into (link u)"
    if "\<not> is_app h0 into" "u \<in> set (uplinks nd0)" "is_lambda h0 (link u)" for u
  proof -
    from parent_facts(4) [OF st nd0 that(2)] that(3) obtain v where
      "kind_of h0 (link u) = Some (NODE_LAMBDA into v)" by blast
    with that(1) show ?thesis by (auto simp: lv_pred_def)
  qed
  have apart_lv: "\<not> (below h0 fn p P \<and> below h0 fn q P)"
    if lv: "\<not> is_app h0 into" "rooted h0 fn x h1 into"
      and pq: "p \<in> link ` set (uplinks nd0)" "q \<in> link ` set (uplinks nd0)" "p \<noteq> q"
        "is_lambda h0 p" "is_lambda h0 q"
    for h1 p q P
  proof -
    from lv(2) obtain e0 where e0: "below h0 fn e0 into" "rootless h0 fn e0"
      by (auto simp: rooted_def entry_ok_def)
    from pq pred_parent [OF lv(1)] have "lv_pred h0 fn into p" "lv_pred h0 fn into q" by auto
    from siblings_disjoint [OF ub e0 this pq(3)] show ?thesis .
  qed
  show ?case
  proof (cases "content nd0")
    case (NODE_APP l rr)
    with nd0 have app: "is_app h0 into" by (auto simp: is_app_iff)
    then have old: "old_node h0 into" by (simp add: old_node_def)
    from app fl have ne: "into \<noteq> fn" by (auto simp: is_app_iff is_lambda_iff)
    from nd app consider (fresh) "cache nd = NULL"
      | (again) k where "cache nd = PTR k" "next_node h0 \<le> k" "is_app h k"
      by blast
    then show ?thesis
    proof cases
      case fresh
      define X where "X = \<lparr>cache = NULL, uplinks = [],
         content = (if t = UPLINK_APPL then NODE_APP nc rr else NODE_APP l nc)\<rparr>"
      obtain k h1 where n1: "new_node X h = (k, h1)" by (cases "new_node X h")
      from run nd NODE_APP fresh n1 obtain h2 where h2: "set_cache into (PTR k) h1 = Inr h2"
        "upcopy_uplinks n k (uplinks nd0) h2 = Inr h'"
        by (auto simp: deref_def X_def andthen_eq_Inr)
      have kx: "(is_app h0 into \<and> (\<exists>l r. content X = NODE_APP l r)) \<or>
       (is_lambda h0 into \<and> into \<noteq> fn \<and> rooted h0 fn x h into \<and>
        (\<exists>b v. content X = NODE_LAMBDA b v \<and> next_node h0 \<le> v \<and> is_var h v \<and>
           (\<forall>c' b'. kind_of h c' \<noteq> Some (NODE_LAMBDA b' v))))"
        using app by (simp add: X_def)
      have X2: "cache X = NULL" "uplinks X = []" by (simp_all add: X_def)
      note m = mark_step [OF st c old nd(1) fresh X2 n1 h2(1) kx]
      from evolved_new_node(2) [OF e n1] have kN: "next_node h0 \<le> k" .
      have same: "marked h2 P = marked h P" if "is_lambda h0 P" for P
      proof -
        from that app have "P \<noteq> into" by (auto simp: is_app_iff is_lambda_iff)
        moreover from that have "P < next_node h0"
          using old_node_live [OF hb] by (simp add: old_node_def)
        with kN have "P \<noteq> k" by simp
        ultimately show ?thesis using m(4) by (intro frame_marked) simp
      qed
      have nm: "\<not> marked h into" using nd(1) fresh by (simp add: marked_def)
      have fr: "\<forall>u \<in> set (uplinks nd0). is_lambda h0 (link u) \<longrightarrow> link u \<noteq> fn \<longrightarrow>
         rooted h0 fn x h2 (link u) \<and> fresh h0 fn h2 (link u)"
      proof (intro ballI impI)
        fix u assume u: "u \<in> set (uplinks nd0)" "is_lambda h0 (link u)" "link u \<noteq> fn"
        from parent_facts(4) [OF st nd0 u(1)] u(2) obtain v where
          k: "kind_of h0 (link u) = Some (NODE_LAMBDA into v)" by blast
        note rl = rootless_over_app [OF k app]
        from rl k app m(3) have "entry_ok h0 fn x h2 (link u)" by (auto simp: entry_ok_def)
        then have 1: "rooted h0 fn x h2 (link u)" unfolding rooted_def by (meson below_refl)
        have 2: "fresh h0 fn h2 (link u)"
          unfolding fresh_def
        proof (intro allI impI notI)
          fix P assume P: "below h0 fn (link u) P" "is_lambda h0 P" "marked h2 P"
          with same have mP: "marked h P" by simp
          with not_fn [OF c] have "P \<noteq> fn" by auto
          with copyingD(6) [OF c] P(2) mP obtain e1 where
            e1: "below h0 fn e1 P" "entry_ok h0 fn x h e1"
            unfolding marks_rooted_def rooted_def by blast
          from entry_unique [OF ub e1(1) _ P(1) rl] e1(2) have "e1 = link u"
            by (simp add: entry_ok_def)
          with e1(2) k consider "link u = x" | "marked h into" by (auto simp: entry_ok_def)
          then show False
          proof cases
            case 1
            with u(2) root_not_lambda [OF st] show ?thesis by simp
          next
            case 2
            with nm show ?thesis by simp
          qed
        qed
        from 1 2 show "rooted h0 fn x h2 (link u) \<and> fresh h0 fn h2 (link u)" by simp
      qed
      have apart: "\<not> (below h0 fn p P \<and> below h0 fn q P)"
        if pq: "p \<in> link ` set (uplinks nd0)" "q \<in> link ` set (uplinks nd0)" "p \<noteq> q"
          "is_lambda h0 p" "is_lambda h0 q"
        for p q P
      proof
        assume b: "below h0 fn p P \<and> below h0 fn q P"
        from pq(1,4) parent_facts(4) [OF st nd0] obtain v where
          "kind_of h0 p = Some (NODE_LAMBDA into v)" by blast
        from rootless_over_app [OF this app] have rp: "rootless h0 fn p" .
        from pq(2,5) parent_facts(4) [OF st nd0] obtain v' where
          "kind_of h0 q = Some (NODE_LAMBDA into v')" by blast
        from rootless_over_app [OF this app] have rq: "rootless h0 fn q" .
        from entry_unique [OF ub _ rp _ rq] b pq(3) show False by blast
      qed
      from loop [OF m(1) fr apart h2(2)]
      have c': "copying h0 fn x h'" and k': "marks_kept h0 h2 h'"
        and l': "loop_marks h0 fn (uplinks nd0) h2 h'"
        by simp_all
      have "marks_within h0 fn into h h'"
        unfolding marks_within_def
      proof (intro allI impI)
        fix P assume P: "is_lambda h0 P" "\<not> marked h P" "marked h' P"
        with same have "\<not> marked h2 P" by simp
        with l' P consider u where "u \<in> set (uplinks nd0)" "is_lambda h0 (link u)"
            "below h0 fn (link u) P"
          | "fresh_entry h0 fn h2 h' P"
          unfolding loop_marks_def by blast
        then have "fresh_entry h0 fn h h' P"
        proof cases
          case 1
          from parent_facts(4) [OF st nd0 1(1)] 1(2) obtain v where
            "kind_of h0 (link u) = Some (NODE_LAMBDA into v)" by blast
          moreover from marks_kept_marked [OF k' old m(3)] have "marked h' into" .
          ultimately show ?thesis using app nm 1(3) unfolding fresh_entry_def by blast
        next
          case 2
          from fresh_entry_mono [OF m(2) marks_kept_refl 2] show ?thesis .
        qed
        then show "(\<not> is_app h0 into \<and> into \<noteq> fn \<and> below h0 fn into P) \<or>
          fresh_entry h0 fn h h' P" by simp
      qed
      with c' marks_kept_trans [OF m(2) k'] show ?thesis by simp
    next
      case again
      from again(3) obtain cn cl cr where cn: "nodes h k = Some cn" "content cn = NODE_APP cl cr"
        by (auto simp: is_app_iff)
      define cn' where "cn' = cn\<lparr>content := (if t = UPLINK_APPL then NODE_APP nc cr
                                               else NODE_APP cl nc)\<rparr>"
      from run nd NODE_APP again(1) cn have h': "h' = store k cn' h"
        by (simp add: deref_def cn'_def)
      have "\<exists>cl' cr'. cn' = cn\<lparr>content := NODE_APP cl' cr'\<rparr>"
        by (cases "t = UPLINK_APPL") (auto simp: cn'_def)
      then obtain cl' cr' where "cn' = cn\<lparr>content := NODE_APP cl' cr'\<rparr>" by blast
      note o = over_step [OF st c again(2) cn this]
      have "marks_within h0 fn into h h'"
        unfolding marks_within_def using o(3) h' by (simp add: old_node_def)
      with o(1,2) h' show ?thesis by simp
    qed
  next
    case (NODE_LAMBDA b var)
    with nd0 have lam: "is_lambda h0 into" by (auto simp: is_lambda_iff)
    then have napp: "\<not> is_app h0 into" and old: "old_node h0 into"
      by (auto simp: is_app_iff is_lambda_iff old_node_def)
    from nd0 NODE_LAMBDA have kin: "kind_of h0 into = Some (NODE_LAMBDA b var)"
      by (simp add: kind_of_iff)
    show ?thesis
    proof (cases "cache nd = STOP")
      case True
      with run nd NODE_LAMBDA have "h' = h" by (simp add: deref_def)
      with c show ?thesis by (simp add: marks_within_def)
    next
      case False
      with nd lam have ne: "into \<noteq> fn" by simp
      with Suc.prems(4) lam have ro: "rooted h0 fn x h into" and fr0: "fresh h0 fn h into"
        by simp_all
      from fr0 lam have nm: "\<not> marked h into" by (simp add: fresh_def)
      with copyingD(2) [OF c] nd(1) lam ne have null: "cache nd = NULL"
        unfolding lam_copies_def marked_def by fastforce
      define XV where "XV = \<lparr>cache = NULL, uplinks = [], content = NODE_VAR\<rparr>"
      obtain k1 h1 where n1: "new_node XV h = (k1, h1)" by (cases "new_node XV h")
      define XL where "XL = \<lparr>cache = NULL, uplinks = [], content = NODE_LAMBDA nc k1\<rparr>"
      obtain k2 h2 where n2: "new_node XL h1 = (k2, h2)" by (cases "new_node XL h1")
      from run nd NODE_LAMBDA False n1 n2 obtain h3 h4 where
        h3: "set_cache into (PTR k2) h2 = Inr h3" and h4: "upcopy n k1 var UPLINK_NA h3 = Inr h4"
        and r: "upcopy_uplinks n k2 (uplinks nd0) h4 = Inr h'"
        by (auto simp: deref_def XV_def XL_def andthen_eq_Inr)
      note v = var_step [OF st c n1 [unfolded XV_def]]
      from v(4) lt have "into \<noteq> k1" by simp
      with v(3) nd(1) have nd1: "nodes h1 into = Some nd" by simp
      have kx: "(is_app h0 into \<and> (\<exists>l r. content XL = NODE_APP l r)) \<or>
       (is_lambda h0 into \<and> into \<noteq> fn \<and> rooted h0 fn x h1 into \<and>
        (\<exists>b v. content XL = NODE_LAMBDA b v \<and> next_node h0 \<le> v \<and> is_var h1 v \<and>
           (\<forall>c' b'. kind_of h1 c' \<noteq> Some (NODE_LAMBDA b' v))))"
        using lam ne rooted_mono [OF v(2) ro] v(4,5,6) by (simp add: XL_def)
      have X2: "cache XL = NULL" "uplinks XL = []" by (simp_all add: XL_def)
      note m = mark_step [OF st v(1) old nd1 null X2 n2 h3 kx]
      from evolved_new_node(2) [OF copyingD(1) [OF v(1)] n2] have k2N: "next_node h0 \<le> k2" .
      have k03: "marks_kept h0 h h3" using marks_kept_trans [OF v(2) m(2)] .
      have same: "marked h3 P = marked h P" if "is_lambda h0 P" "P \<noteq> into" for P
      proof -
        from that have "P < next_node h0"
          using old_node_live [OF hb] by (simp add: old_node_def)
        with k2N v(4) have "P \<noteq> k2" "P \<noteq> k1" by simp_all
        with that m(4) v(3) have "nodes h3 P = nodes h P" by simp
        then show ?thesis by (rule frame_marked)
      qed
      from ro obtain e0 where e0: "below h0 fn e0 into" "rootless h0 fn e0"
        by (auto simp: rooted_def entry_ok_def)
      have ro3: "rooted h0 fn x h3 into" using rooted_mono [OF k03 ro] .
      from pass_startD(4) [OF st] kin have vlt: "var < next_node h0"
        and vk: "\<not> is_app h0 var" "\<not> is_lambda h0 var"
        unfolding vars_sound_def by blast+
      have vlive: "nodes h0 var \<noteq> None"
      proof
        assume "nodes h0 var = None"
        with copyingD(1) [OF m(1)] vlt have "nodes h3 var = None"
          unfolding evolved_def by (auto split: option.splits)
        from upcopy_dead [OF this] h4 show False by blast
      qed
      have iv: "is_var h0 var"
      proof -
        from vlive obtain vd where vd: "nodes h0 var = Some vd" by auto
        from evolvedD [OF copyingD(1) [OF m(1)] vlt vd] obtain vd3 where
          vd3: "nodes h3 var = Some vd3" "content vd3 = content vd" by blast
        show ?thesis
        proof (cases "content vd")
          case (NODE_APP l r)
          with vd vk show ?thesis by (simp add: is_app_iff)
        next
          case (NODE_LAMBDA l r)
          with vd vk show ?thesis by (simp add: is_lambda_iff)
        next
          case NODE_VAR
          with vd show ?thesis by (simp add: is_var_iff)
        next
          case (NODE_PRIM p)
          with upcopy_prim [OF vd3(1)] vd3(2) h4 show ?thesis by auto
        qed
      qed
      have pv: "lv_pred h0 fn into var" if "is_var h0 var"
        using that ne kin by (auto simp: lv_pred_def)
      have vpre: "var \<noteq> fn \<longrightarrow> is_lambda h0 var \<or> is_var h0 var \<longrightarrow>
         rooted h0 fn x h3 var \<and> fresh h0 fn h3 var"
      proof (intro impI)
        assume "is_lambda h0 var \<or> is_var h0 var"
        with vk have iv: "is_var h0 var" by simp
        have "fresh h0 fn h3 var"
          unfolding fresh_def
        proof (intro allI impI notI)
          fix P assume P: "below h0 fn var P" "is_lambda h0 P" "marked h3 P"
          have "P \<noteq> into"
          proof
            assume "P = into"
            with P(1) no_cycle [OF ub below_step [OF e0(1) pv [OF iv]] e0(2)] pv [OF iv]
            show False by blast
          qed
          with same P have "marked h P" by simp
          moreover from P(1) pv [OF iv] have "below h0 fn into P"
            by (meson below_def converse_rtranclp_into_rtranclp)
          ultimately show False using fr0 P(2) by (simp add: fresh_def)
        qed
        with rooted_step [OF ro3 pv [OF iv]]
        show "rooted h0 fn x h3 var \<and> fresh h0 fn h3 var" by simp
      qed
      from Suc.IH [OF m(1) vlt vlive vpre h4]
      have c4: "copying h0 fn x h4" and k4: "marks_kept h0 h3 h4"
        and w4: "marks_within h0 fn var h3 h4"
        by simp_all
      have ro4: "rooted h0 fn x h4 into" using rooted_mono [OF k4 ro3] .
      have fr: "\<forall>u \<in> set (uplinks nd0). is_lambda h0 (link u) \<longrightarrow> link u \<noteq> fn \<longrightarrow>
         rooted h0 fn x h4 (link u) \<and> fresh h0 fn h4 (link u)"
      proof (intro ballI impI)
        fix u assume u: "u \<in> set (uplinks nd0)" "is_lambda h0 (link u)" "link u \<noteq> fn"
        note pp = pred_parent [OF napp u(1,2)]
        show "rooted h0 fn x h4 (link u) \<and> fresh h0 fn h4 (link u)"
        proof (rule parents_lv [OF napp ne ro4 u(1,2)])
          fix P assume P: "below h0 fn (link u) P" "is_lambda h0 P" "marked h4 P"
          have Pi: "P \<noteq> into"
          proof
            assume "P = into"
            with P(1) no_cycle [OF ub below_step [OF e0(1) pp] e0(2)] pp show False by blast
          qed
          from P(1) pp have bi: "below h0 fn into P"
            by (meson below_def converse_rtranclp_into_rtranclp)
          with fr0 P(2) have "\<not> marked h P" by (simp add: fresh_def)
          with same P(2) Pi have "\<not> marked h3 P" by simp
          with w4 P consider "var \<noteq> fn" "\<not> is_app h0 var" "below h0 fn var P"
            | "fresh_entry h0 fn h3 h4 P"
            unfolding marks_within_def by blast
          then show False
          proof cases
            case 1
            from u(2) iv have "var \<noteq> link u" by (auto simp: is_lambda_iff is_var_iff)
            from siblings_disjoint [OF ub e0 pv [OF iv] pp this] 1(3) P(1)
            show ?thesis by blast
          next
            case 2
            from rooted_step [OF ro3 pp] have "rooted h0 fn x h3 (link u)" .
            from fresh_entry_apart [OF st this P(1) 2] show ?thesis .
          qed
        qed
      qed
      from loop [OF c4 fr apart_lv [OF napp ro4] r]
      have c': "copying h0 fn x h'" and k': "marks_kept h0 h4 h'"
        and l': "loop_marks h0 fn (uplinks nd0) h4 h'"
        by simp_all
      have k0: "marks_kept h0 h h'"
        using marks_kept_trans [OF k03 marks_kept_trans [OF k4 k']] .
      have "marks_within h0 fn into h h'"
        unfolding marks_within_def
      proof (intro allI impI)
        fix P assume P: "is_lambda h0 P" "\<not> marked h P" "marked h' P"
        have "below h0 fn into P \<or> fresh_entry h0 fn h h' P"
        proof (cases "P = into")
          case True
          then show ?thesis by simp
        next
          case False
          with same P have n3: "\<not> marked h3 P" by simp
          show ?thesis
          proof (cases "marked h4 P")
            case True
            with w4 P(1) n3 consider "\<not> is_app h0 var" "below h0 fn var P"
              | "fresh_entry h0 fn h3 h4 P"
              unfolding marks_within_def by blast
            then show ?thesis
            proof cases
              case 1
              from 1(2) pv [OF iv] have "below h0 fn into P"
                by (meson below_def converse_rtranclp_into_rtranclp)
              then show ?thesis by simp
            next
              case 2
              from fresh_entry_mono [OF k03 k' 2] show ?thesis by simp
            qed
          next
            case False
            with l' P(1,3) consider u where "u \<in> set (uplinks nd0)" "is_lambda h0 (link u)"
                "below h0 fn (link u) P"
              | "fresh_entry h0 fn h4 h' P"
              unfolding loop_marks_def by blast
            then show ?thesis
            proof cases
              case 1
              from 1(3) pred_parent [OF napp 1(1,2)] have "below h0 fn into P"
                by (meson below_def converse_rtranclp_into_rtranclp)
              then show ?thesis by simp
            next
              case 2
              from fresh_entry_mono [OF marks_kept_trans [OF k03 k4] marks_kept_refl 2]
              show ?thesis by simp
            qed
          qed
        qed
        with napp ne show "(\<not> is_app h0 into \<and> into \<noteq> fn \<and> below h0 fn into P) \<or>
          fresh_entry h0 fn h h' P" by blast
      qed
      with c' k0 show ?thesis by simp
    qed
  next
    case NODE_VAR
    with nd0 have var: "is_var h0 into" by (auto simp: is_var_iff)
    then have napp: "\<not> is_app h0 into" and nlam: "\<not> is_lambda h0 into"
      by (auto simp: is_app_iff is_lambda_iff is_var_iff)
    from nlam fl have ne: "into \<noteq> fn" by auto
    with Suc.prems(4) var have ro: "rooted h0 fn x h into" and fr0: "fresh h0 fn h into"
      by simp_all
    from run nd NODE_VAR obtain h1 where h1: "set_cache into (PTR nc) h = Inr h1"
      and r: "upcopy_uplinks n nc (uplinks nd0) h1 = Inr h'"
      by (auto simp: deref_def andthen_eq_Inr)
    note s = vcache_step [OF st c lt var h1]
    have ro1: "rooted h0 fn x h1 into" using rooted_mono [OF s(2) ro] .
    have fr: "\<forall>u \<in> set (uplinks nd0). is_lambda h0 (link u) \<longrightarrow> link u \<noteq> fn \<longrightarrow>
         rooted h0 fn x h1 (link u) \<and> fresh h0 fn h1 (link u)"
    proof (intro ballI impI)
      fix u assume u: "u \<in> set (uplinks nd0)" "is_lambda h0 (link u)" "link u \<noteq> fn"
      note pp = pred_parent [OF napp u(1,2)]
      show "rooted h0 fn x h1 (link u) \<and> fresh h0 fn h1 (link u)"
      proof (rule parents_lv [OF napp ne ro1 u(1,2)])
        fix P assume P: "below h0 fn (link u) P" "is_lambda h0 P" "marked h1 P"
        from P(1) pp have "below h0 fn into P"
          by (meson below_def converse_rtranclp_into_rtranclp)
        with fr0 P(2) have "\<not> marked h P" by (simp add: fresh_def)
        with s(3) P show False by (simp add: old_node_def)
      qed
    qed
    from loop [OF s(1) fr apart_lv [OF napp ro1] r]
    have c': "copying h0 fn x h'" and k': "marks_kept h0 h1 h'"
      and l': "loop_marks h0 fn (uplinks nd0) h1 h'"
      by simp_all
    have "marks_within h0 fn into h h'"
      unfolding marks_within_def
    proof (intro allI impI)
      fix P assume P: "is_lambda h0 P" "\<not> marked h P" "marked h' P"
      with s(3) have "\<not> marked h1 P" by (simp add: old_node_def)
      with l' P(1,3) consider u where "u \<in> set (uplinks nd0)" "is_lambda h0 (link u)"
          "below h0 fn (link u) P"
        | "fresh_entry h0 fn h1 h' P"
        unfolding loop_marks_def by blast
      then have "below h0 fn into P \<or> fresh_entry h0 fn h h' P"
      proof cases
        case 1
        from 1(3) pred_parent [OF napp 1(1,2)] have "below h0 fn into P"
          by (meson below_def converse_rtranclp_into_rtranclp)
        then show ?thesis by simp
      next
        case 2
        from fresh_entry_mono [OF s(2) marks_kept_refl 2] show ?thesis by simp
      qed
      with napp ne show "(\<not> is_app h0 into \<and> into \<noteq> fn \<and> below h0 fn into P) \<or>
          fresh_entry h0 fn h h' P" by blast
    qed
    with c' marks_kept_trans [OF s(2) k'] show ?thesis by simp
  next
    case (NODE_PRIM p)
    with run nd show ?thesis by (simp add: deref_def)
  qed
qed

subsubsection \<open>The records that \<^verbatim>\<open>clear\<close> installs\<close>

lemma match_edgesD1:
  assumes "match_edges E h" "nodes h p = Some nd" "(p, t) \<notin> E"
    "(c, t) \<in> set (out_edges (content nd))"
  shows "\<exists>cn. nodes h c = Some cn \<and> count_rec p t (uplinks cn) = 1"
  using assms unfolding match_edges_def by blast

lemma match_edgesD2:
  assumes "match_edges E h" "nodes h c = Some cn" "u \<in> set (uplinks cn)"
  shows "edge_ok h c u" "(link u, type u) \<notin> E" "count_rec (link u) (type u) (uplinks cn) = 1"
  using assms unfolding match_edges_def by blast+

lemma match_edges_none: "match_edges {} h \<longleftrightarrow> uplinks_match h"
  unfolding match_edges_def uplinks_match_def match_except_def by simp

lemma match_edges_unrecorded:
  assumes "match_edges E h" "nodes h c = Some cn" "(p, t) \<in> E"
  shows "count_rec p t (uplinks cn) = 0"
  using match_edgesD2(2) [OF assms(1,2)] assms(3) by (auto simp: count_rec_zero)

text \<open>Installing the record of one edge.\<close>

lemma add_match:
  assumes m: "match_edges E h" and p: "nodes h p = Some pn" "(c, t) \<in> set (out_edges (content pn))"
    and E: "(p, t) \<in> E" and a: "add c p t h = Inr h1"
  shows "match_edges (E - {(p, t)}) h1"
proof -
  from a obtain cn where cn: "nodes h c = Some cn"
    and h1: "h1 = h\<lparr>nodes := (nodes h)(c \<mapsto>
         cn\<lparr>uplinks := uplinks cn @ [\<lparr>uid = next_uplink h, link = p, type = t\<rparr>]\<rparr>),
       next_uplink := Suc (next_uplink h)\<rparr>"
    by (auto simp: add_def split: option.splits)
  define new where "new = \<lparr>uid = next_uplink h, link = p, type = t\<rparr>"
  have atc: "nodes h1 c = Some (cn\<lparr>uplinks := uplinks cn @ [new]\<rparr>)"
    by (simp add: h1 new_def)
  have other: "nodes h1 b = nodes h b" if "b \<noteq> c" for b
    using that by (simp add: h1)
  have cont: "\<exists>nd'. nodes h1 b = Some nd' \<and> content nd' = content nd" if "nodes h b = Some nd" for b nd
    using that cn by (cases "b = c") (auto simp: atc other)
  have bk: "\<exists>nd. nodes h b = Some nd \<and> content nd' = content nd" if "nodes h1 b = Some nd'" for b nd'
    using that cn by (cases "b = c") (auto simp: atc other)
  have eo: "edge_ok h1 b u" if "edge_ok h b u" for b u
  proof -
    from that obtain q where q: "nodes h (link u) = Some q" "(b, type u) \<in> set (out_edges (content q))"
      by (auto dest: edge_okD)
    from cont [OF q(1)] q(2) show ?thesis by (auto intro: edge_okI)
  qed
  from match_edges_unrecorded [OF m cn E] have zero: "count_rec p t (uplinks cn) = 0" .
  show ?thesis
    unfolding match_edges_def
  proof (intro conjI allI impI)
    fix p' nd' c' t'
    assume 1: "nodes h1 p' = Some nd'" "(p', t') \<notin> E - {(p, t)}"
      "(c', t') \<in> set (out_edges (content nd'))"
    from bk [OF 1(1)] obtain nd where nd: "nodes h p' = Some nd" "content nd' = content nd"
      by blast
    show "\<exists>cn. nodes h1 c' = Some cn \<and> count_rec p' t' (uplinks cn) = 1"
    proof (cases "(p', t') = (p, t)")
      case True
      with nd p 1(3) have "c' = c" by (auto dest: out_edges_type_unique)
      with True zero show ?thesis by (simp add: atc new_def)
    next
      case False
      with 1(2) have "(p', t') \<notin> E" by blast
      from match_edgesD1 [OF m nd(1) this] 1(3) nd(2) obtain cn' where
        cn': "nodes h c' = Some cn'" "count_rec p' t' (uplinks cn') = 1" by auto
      show ?thesis
      proof (cases "c' = c")
        case True
        with cn' cn False show ?thesis by (auto simp: atc new_def)
      next
        case False
        with cn' show ?thesis by (simp add: other)
      qed
    qed
  next
    fix c' cn' u
    assume 2: "nodes h1 c' = Some cn'" "u \<in> set (uplinks cn')"
    show "edge_ok h1 c' u"
    proof (cases "c' = c \<and> u = new")
      case True
      from cont [OF p(1)] p(2) True show ?thesis by (auto intro: edge_okI simp: new_def)
    next
      case False
      with 2 atc other [of c'] cn have "\<exists>cn0. nodes h c' = Some cn0 \<and> u \<in> set (uplinks cn0)"
        by (cases "c' = c") auto
      with match_edgesD2(1) [OF m] eo show ?thesis by blast
    qed
    show "(link u, type u) \<notin> E - {(p, t)}"
    proof (cases "c' = c \<and> u = new")
      case True
      then show ?thesis by (simp add: new_def)
    next
      case False
      with 2 atc other [of c'] cn have "\<exists>cn0. nodes h c' = Some cn0 \<and> u \<in> set (uplinks cn0)"
        by (cases "c' = c") auto
      with match_edgesD2(2) [OF m] show ?thesis by blast
    qed
    show "count_rec (link u) (type u) (uplinks cn') = 1"
    proof (cases "c' = c")
      case True
      with 2 atc have cn'_eq: "cn' = cn\<lparr>uplinks := uplinks cn @ [new]\<rparr>" by simp
      show ?thesis
      proof (cases "u \<in> set (uplinks cn)")
        case True
        from match_edgesD2(2,3) [OF m cn True] E
        have "(link u, type u) \<noteq> (p, t)" "count_rec (link u) (type u) (uplinks cn) = 1" by auto
        then show ?thesis by (auto simp: cn'_eq new_def)
      next
        case False
        with 2(2) cn'_eq have "u = new" by simp
        with zero show ?thesis by (simp add: cn'_eq new_def)
      qed
    next
      case False
      with 2 other have "nodes h c' = Some cn'" by simp
      from match_edgesD2(3) [OF m this 2(2)] show ?thesis .
    qed
  qed
qed

lemma set_cache_match:
  assumes m: "match_edges E h" and s: "set_cache a k h = Inr h'"
  shows "match_edges E h'"
proof -
  from s obtain nd where nd: "nodes h a = Some nd" and h': "h' = store a (nd\<lparr>cache := k\<rparr>) h"
    by (auto simp: set_cache_def split: option.splits)
  have cont: "\<exists>nd'. nodes h' b = Some nd' \<and> content nd' = content nd0 \<and> uplinks nd' = uplinks nd0"
    if "nodes h b = Some nd0" for b nd0
    using that nd by (cases "b = a") (auto simp: h')
  have bk: "\<exists>nd0. nodes h b = Some nd0 \<and> content nd' = content nd0 \<and> uplinks nd' = uplinks nd0"
    if "nodes h' b = Some nd'" for b nd'
    using that nd by (cases "b = a") (auto simp: h')
  have eo: "edge_ok h' b u" if "edge_ok h b u" for b u
  proof -
    from that obtain q where q: "nodes h (link u) = Some q" "(b, type u) \<in> set (out_edges (content q))"
      by (auto dest: edge_okD)
    from cont [OF q(1)] q(2) show ?thesis by (auto intro: edge_okI)
  qed
  show ?thesis
    unfolding match_edges_def
  proof (intro conjI allI impI)
    fix p' nd' c' t'
    assume 1: "nodes h' p' = Some nd'" "(p', t') \<notin> E" "(c', t') \<in> set (out_edges (content nd'))"
    from bk [OF 1(1)] obtain nd0 where nd0: "nodes h p' = Some nd0" "content nd' = content nd0"
      by blast
    from match_edgesD1 [OF m nd0(1) 1(2)] 1(3) nd0(2) obtain cn' where
      "nodes h c' = Some cn'" "count_rec p' t' (uplinks cn') = 1" by auto
    with cont [OF this(1)] show "\<exists>cn. nodes h' c' = Some cn \<and> count_rec p' t' (uplinks cn) = 1"
      by auto
  next
    fix c' cn' u
    assume 2: "nodes h' c' = Some cn'" "u \<in> set (uplinks cn')"
    from bk [OF 2(1)] 2(2) obtain cn0 where cn0: "nodes h c' = Some cn0" "u \<in> set (uplinks cn0)"
      "uplinks cn' = uplinks cn0" by auto
    from match_edgesD2 [OF m cn0(1,2)] eo cn0(3)
    show "edge_ok h' c' u" "(link u, type u) \<notin> E" "count_rec (link u) (type u) (uplinks cn') = 1"
      by auto
  qed
qed

lemma match_edges_drop:
  assumes m: "match_edges E h"
    and no: "\<And>nd c. nodes h p = Some nd \<Longrightarrow> (c, t) \<notin> set (out_edges (content nd))"
  shows "match_edges (E - {(p, t)}) h"
  unfolding match_edges_def
proof (intro conjI allI impI)
  fix p' nd' c' t'
  assume 1: "nodes h p' = Some nd'" "(p', t') \<notin> E - {(p, t)}"
    "(c', t') \<in> set (out_edges (content nd'))"
  with no have "(p', t') \<noteq> (p, t)" by auto
  with 1(2) have "(p', t') \<notin> E" by blast
  from match_edgesD1 [OF m 1(1) this 1(3)]
  show "\<exists>cn. nodes h c' = Some cn \<and> count_rec p' t' (uplinks cn) = 1" .
next
  fix c' cn' u
  assume 2: "nodes h c' = Some cn'" "u \<in> set (uplinks cn')"
  from match_edgesD2 [OF m 2]
  show "edge_ok h c' u" "(link u, type u) \<notin> E - {(p, t)}"
    "count_rec (link u) (type u) (uplinks cn') = 1" by auto
qed

lemma growsD:
  assumes "grows h h'" "nodes h a = Some nd"
  shows "\<exists>nd' ex. nodes h' a = Some nd' \<and> content nd' = content nd \<and>
     (cache nd' = cache nd \<or> cache nd' = NULL) \<and> uplinks nd' = uplinks nd @ ex \<and>
     (\<forall>u \<in> set ex. \<not> cached h' (link u))"
proof -
  from assms(1) have "case nodes h a of
        None \<Rightarrow> nodes h' a = None
      | Some nd \<Rightarrow>
          (\<exists>nd'. nodes h' a = Some nd' \<and> content nd' = content nd \<and>
             (cache nd' = cache nd \<or> cache nd' = NULL) \<and>
             (\<exists>ex. uplinks nd' = uplinks nd @ ex \<and> (\<forall>u \<in> set ex. \<not> cached h' (link u))))"
    unfolding grows_def by blast
  with assms(2) show ?thesis by auto
qed

lemma grows_dead: "grows h h' \<Longrightarrow> nodes h a = None \<Longrightarrow> nodes h' a = None"
  unfolding grows_def by (auto split: option.splits dest: spec [of _ a])

lemma grows_next: "grows h h' \<Longrightarrow> next_node h' = next_node h"
  by (simp add: grows_def)

lemma grows_back:
  assumes "grows h h'" "nodes h' a = Some nd'"
  shows "\<exists>nd ex. nodes h a = Some nd \<and> content nd' = content nd \<and>
     (cache nd' = cache nd \<or> cache nd' = NULL) \<and> uplinks nd' = uplinks nd @ ex \<and>
     (\<forall>u \<in> set ex. \<not> cached h' (link u))"
proof (cases "nodes h a")
  case None
  from grows_dead [OF assms(1) this] assms(2) show ?thesis by simp
next
  case (Some nd)
  from growsD [OF assms(1) this] assms(2) Some show ?thesis by auto
qed

lemma grows_refl [simp]: "grows h h"
  unfolding grows_def by (auto split: option.splits)

lemma uncached_grows: "grows h h' \<Longrightarrow> \<not> cached h a \<Longrightarrow> \<not> cached h' a"
  unfolding cached_def by (auto dest!: grows_back)

lemma grows_kind: "grows h h' \<Longrightarrow> kind_of h' = kind_of h"
proof (rule ext)
  fix a assume g: "grows h h'"
  show "kind_of h' a = kind_of h a"
  proof (cases "nodes h a")
    case None
    with grows_dead [OF g None] show ?thesis by (simp add: kind_of_def)
  next
    case (Some nd)
    from growsD [OF g this] Some show ?thesis by (auto simp: kind_of_def)
  qed
qed

lemma grows_trans:
  assumes a: "grows h h1" and b: "grows h1 h2"
  shows "grows h h2"
  unfolding grows_def
proof (intro conjI allI)
  show "next_node h2 = next_node h" using a b by (simp add: grows_def)
  fix x
  show "case nodes h x of None \<Rightarrow> nodes h2 x = None
    | Some nd \<Rightarrow> \<exists>nd'. nodes h2 x = Some nd' \<and> content nd' = content nd \<and>
         (cache nd' = cache nd \<or> cache nd' = NULL) \<and>
         (\<exists>ex. uplinks nd' = uplinks nd @ ex \<and> (\<forall>u\<in>set ex. \<not> cached h2 (link u)))"
  proof (cases "nodes h x")
    case None
    with grows_dead [OF b grows_dead [OF a None]] show ?thesis by simp
  next
    case (Some nd)
    from growsD [OF a Some] obtain nd1 ex1 where 1: "nodes h1 x = Some nd1"
      "content nd1 = content nd" "cache nd1 = cache nd \<or> cache nd1 = NULL"
      "uplinks nd1 = uplinks nd @ ex1" "\<forall>u \<in> set ex1. \<not> cached h1 (link u)" by blast
    from growsD [OF b 1(1)] obtain nd2 ex2 where 2: "nodes h2 x = Some nd2"
      "content nd2 = content nd1" "cache nd2 = cache nd1 \<or> cache nd2 = NULL"
      "uplinks nd2 = uplinks nd1 @ ex2" "\<forall>u \<in> set ex2. \<not> cached h2 (link u)" by blast
    from 1(5) uncached_grows [OF b] have "\<forall>u \<in> set ex1. \<not> cached h2 (link u)" by blast
    with 2(5) have "\<forall>u \<in> set (ex1 @ ex2). \<not> cached h2 (link u)" by auto
    moreover from 1(4) 2(4) have "uplinks nd2 = uplinks nd @ (ex1 @ ex2)" by simp
    ultimately have "\<exists>ex. uplinks nd2 = uplinks nd @ ex \<and> (\<forall>u\<in>set ex. \<not> cached h2 (link u))"
      by blast
    with Some 1 2 show ?thesis by auto
  qed
qed

lemma parents_done_grows:
  assumes g: "grows h h'" and d: "parents_done h a 0"
  shows "parents_done h' a 0"
  unfolding parents_done_def
proof (intro allI impI)
  fix nd' j assume 1: "nodes h' a = Some nd'" "j < length (uplinks nd')"
  from grows_back [OF g 1(1)] obtain nd ex where nd: "nodes h a = Some nd"
    "uplinks nd' = uplinks nd @ ex" "\<forall>u \<in> set ex. \<not> cached h' (link u)" by blast
  show "\<not> cached h' (link (uplinks nd' ! j))"
  proof (cases "j < length (uplinks nd)")
    case True
    with d nd(1) have "\<not> cached h (link (uplinks nd ! j))" by (simp add: parents_done_def)
    with uncached_grows [OF g] True nd(2) show ?thesis by (simp add: nth_append)
  next
    case False
    with 1(2) nd(2) have "uplinks nd' ! j \<in> set ex" by (auto simp: nth_append)
    with nd(3) show ?thesis by blast
  qed
qed

lemma closed_step_refl [simp]: "closed_step h h"
  by (simp add: closed_step_def)

lemma closed_step_trans:
  assumes a: "closed_step h h1" and b: "closed_step h1 h2" and g1: "grows h h1" and g: "grows h1 h2"
  shows "closed_step h h2"
  unfolding closed_step_def
proof (intro allI impI)
  fix x assume x: "cached h x" "\<not> cached h2 x"
  show "parents_done h2 x 0 \<and> (\<forall>b v. kind_of h x = Some (NODE_LAMBDA b v) \<longrightarrow> parents_done h2 v 0)"
  proof (cases "cached h1 x")
    case True
    with b x(2) grows_kind [OF g1] show ?thesis by (simp add: closed_step_def)
  next
    case False
    with a x(1) have "parents_done h1 x 0"
      "\<forall>b v. kind_of h x = Some (NODE_LAMBDA b v) \<longrightarrow> parents_done h1 v 0"
      by (simp_all add: closed_step_def)
    with parents_done_grows [OF g] show ?thesis by blast
  qed
qed

lemma grows_add:
  assumes a: "add c p t h = Inr h1" and u: "\<not> cached h p"
  shows "grows h h1" "\<forall>a. cached h1 a = cached h a"
proof -
  from a obtain cn where cn: "nodes h c = Some cn"
    and h1: "h1 = h\<lparr>nodes := (nodes h)(c \<mapsto>
         cn\<lparr>uplinks := uplinks cn @ [\<lparr>uid = next_uplink h, link = p, type = t\<rparr>]\<rparr>),
       next_uplink := Suc (next_uplink h)\<rparr>"
    by (auto simp: add_def split: option.splits)
  show same: "\<forall>a. cached h1 a = cached h a"
    using cn by (auto simp: cached_def h1)
  with u have u1: "\<not> cached h1 p" by simp
  show "grows h h1"
    unfolding grows_def
  proof (intro conjI allI)
    show "next_node h1 = next_node h" by (simp add: h1)
    fix x
    show "case nodes h x of None \<Rightarrow> nodes h1 x = None
      | Some nd \<Rightarrow> \<exists>nd'. nodes h1 x = Some nd' \<and> content nd' = content nd \<and>
         (cache nd' = cache nd \<or> cache nd' = NULL) \<and>
         (\<exists>ex. uplinks nd' = uplinks nd @ ex \<and> (\<forall>u\<in>set ex. \<not> cached h1 (link u)))"
    proof (cases "x = c")
      case True
      with cn u1 show ?thesis by (simp add: h1)
    next
      case False
      then show ?thesis by (auto simp: h1 split: option.splits)
    qed
  qed
qed

lemma grows_set_null:
  assumes s: "set_cache a NULL h = Inr h'"
  shows "grows h h'" "\<not> cached h' a" "\<forall>b. b \<noteq> a \<longrightarrow> cached h' b = cached h b"
proof -
  from s obtain nd where nd: "nodes h a = Some nd" and h': "h' = store a (nd\<lparr>cache := NULL\<rparr>) h"
    by (auto simp: set_cache_def split: option.splits)
  show "\<not> cached h' a" by (simp add: cached_def h')
  show "\<forall>b. b \<noteq> a \<longrightarrow> cached h' b = cached h b" by (simp add: cached_def h')
  show "grows h h'"
    unfolding grows_def
  proof (intro conjI allI)
    show "next_node h' = next_node h" by (simp add: h')
    fix x
    show "case nodes h x of None \<Rightarrow> nodes h' x = None
      | Some nd \<Rightarrow> \<exists>nd'. nodes h' x = Some nd' \<and> content nd' = content nd \<and>
         (cache nd' = cache nd \<or> cache nd' = NULL) \<and>
         (\<exists>ex. uplinks nd' = uplinks nd @ ex \<and> (\<forall>u\<in>set ex. \<not> cached h' (link u)))"
      using nd by (cases "x = a") (auto simp: h' split: option.splits)
  qed
qed

lemma add_frame:
  assumes "add c p t h = Inr h1"
  shows "map_option (\<lambda>nd. (content nd, cache nd)) (nodes h1 a) =
     map_option (\<lambda>nd. (content nd, cache nd)) (nodes h a)"
  using assms by (auto simp: add_def split: option.splits)

lemma set_cache_frame:
  assumes "set_cache p k h = Inr h'"
  shows "map_option (\<lambda>nd. (content nd, cache nd)) (nodes h' a) =
     map_option (\<lambda>nd. (content nd, if a = p then k else cache nd)) (nodes h a)"
  using assms by (auto simp: set_cache_def split: option.splits)

lemma frame_kind:
  assumes "\<And>a. map_option (\<lambda>nd. (content nd, cache nd)) (nodes h' a) =
     map_option (\<lambda>nd. (content nd, f a nd)) (nodes h a)"
  shows "kind_of h' = kind_of h"
proof (rule ext)
  fix a
  from assms [of a] show "kind_of h' a = kind_of h a"
    by (cases "nodes h a"; cases "nodes h' a") (auto simp: kind_of_def)
qed

lemma clearing_step:
  assumes c: "clearing h" and p: "nodes h p = Some pn" "cache pn = PTR k" "is_app h p \<or> is_lambda h p"
    and m3: "match_edges ((pend h - {k}) \<times> UNIV) h3"
    and fr: "\<And>a. map_option (\<lambda>nd. (content nd, cache nd)) (nodes h3 a) =
       map_option (\<lambda>nd. (content nd, if a = p then NULL else cache nd)) (nodes h a)"
  shows "clearing h3"
proof -
  from frame_kind [of h3 "\<lambda>a nd. if a = p then NULL else cache nd" h] fr
  have kind: "kind_of h3 = kind_of h" by simp
  note ks = is_kind_cong [OF kind]
  from c have inj: "\<And>a a' nd nd' c. nodes h a = Some nd \<Longrightarrow> nodes h a' = Some nd' \<Longrightarrow>
        cache nd = PTR c \<Longrightarrow> cache nd' = PTR c \<Longrightarrow>
        is_app h a \<or> is_lambda h a \<Longrightarrow> is_app h a' \<or> is_lambda h a' \<Longrightarrow> a = a'"
    unfolding clearing_def by blast
  have fwd: "\<exists>nd'. nodes h3 a = Some nd' \<and> cache nd' = cache nd" if "nodes h a = Some nd" "a \<noteq> p" for a nd
    using fr [of a] that by (cases "nodes h3 a") auto
  have bwd: "\<exists>nd. nodes h a = Some nd \<and> cache nd' = (if a = p then NULL else cache nd)"
    if "nodes h3 a = Some nd'" for a nd'
    using fr [of a] that by (cases "nodes h a") auto
  have pe: "pend h3 = pend h - {k}"
  proof (intro set_eqI iffI)
    fix x assume "x \<in> pend h3"
    then obtain a nd' where a: "nodes h3 a = Some nd'" "cache nd' = PTR x" "is_app h a \<or> is_lambda h a"
      by (auto simp: pend_def ks)
    from bwd [OF a(1)] a(2) obtain nd where nd: "nodes h a = Some nd" "a \<noteq> p" "cache nd = PTR x"
      by (cases "a = p") auto
    from nd a(3) have "x \<in> pend h" by (auto simp: pend_def)
    moreover have "x \<noteq> k"
    proof
      assume "x = k"
      with inj [OF nd(1) p(1) _ p(2) a(3) p(3)] nd show False by simp
    qed
    ultimately show "x \<in> pend h - {k}" by simp
  next
    fix x assume "x \<in> pend h - {k}"
    then obtain a nd where a: "nodes h a = Some nd" "cache nd = PTR x" "is_app h a \<or> is_lambda h a"
      and xk: "x \<noteq> k"
      by (auto simp: pend_def)
    from a p xk have "a \<noteq> p" by auto
    from fwd [OF a(1) this] a(2,3) show "x \<in> pend h3" by (auto simp: pend_def ks)
  qed
  have unc: "\<not> cached h3 a" if "\<not> cached h a" for a
    using that bwd [of a] by (auto simp: cached_def split: if_splits)
  show ?thesis
    unfolding clearing_def
  proof (intro conjI allI impI ballI)
    show "match_edges (pend h3 \<times> UNIV) h3" using m3 pe by simp
  next
    fix a a' nd nd' x
    assume 1: "nodes h3 a = Some nd" "nodes h3 a' = Some nd'" "cache nd = PTR x" "cache nd' = PTR x"
      "is_app h3 a \<or> is_lambda h3 a" "is_app h3 a' \<or> is_lambda h3 a'"
    from bwd [OF 1(1)] 1(3) obtain n0 where n0: "nodes h a = Some n0" "cache n0 = PTR x"
      by (cases "a = p") auto
    from bwd [OF 1(2)] 1(4) obtain n1 where n1: "nodes h a' = Some n1" "cache n1 = PTR x"
      by (cases "a' = p") auto
    from inj [OF n0(1) n1(1) n0(2) n1(2)] 1(5,6) show "a = a'" by (simp add: ks)
  next
    fix x assume "x \<in> pend h3"
    with pe have "x \<in> pend h" by simp
    with c have "\<not> cached h x" unfolding clearing_def by blast
    then show "\<not> cached h3 x" by (rule unc)
  qed
qed

lemma UplinkType_all: "UNIV = {UPLINK_APPL, UPLINK_APPR, UPLINK_NA}"
  by (auto intro: UplinkType.exhaust)

lemma install_app:
  assumes c: "clearing h" and p: "nodes h p = Some pn" "cache pn = PTR k" "is_app h p \<or> is_lambda h p"
    and k: "nodes h k = Some kn" "content kn = NODE_APP cl cr"
    and a1: "add cl k UPLINK_APPL h = Inr h1" and a2: "add cr k UPLINK_APPR h1 = Inr h2"
    and s: "set_cache p NULL h2 = Inr h3"
  shows "clearing h3" "grows h h3" "\<not> cached h3 p" "\<forall>a. a \<noteq> p \<longrightarrow> cached h3 a = cached h a"
proof -
  from c have m: "match_edges (pend h \<times> UNIV) h" by (simp add: clearing_def)
  from p have kp: "k \<in> pend h" by (auto simp: pend_def)
  with c have uk: "\<not> cached h k" unfolding clearing_def by blast
  note g1 = grows_add [OF a1 uk]
  from g1(2) uk have uk1: "\<not> cached h1 k" by simp
  note g2 = grows_add [OF a2 uk1]
  note g3 = grows_set_null [OF s]
  show "grows h h3" using grows_trans [OF g1(1) grows_trans [OF g2(1) g3(1)]] .
  show "\<not> cached h3 p" by fact
  show "\<forall>a. a \<noteq> p \<longrightarrow> cached h3 a = cached h a" using g1(2) g2(2) g3(3) by simp
  from add_frame [OF a1, of k] k obtain kn1 where kn1: "nodes h1 k = Some kn1"
    "content kn1 = NODE_APP cl cr" by (cases "nodes h1 k") auto
  from add_frame [OF a2, of k] kn1 obtain kn2 where kn2: "nodes h2 k = Some kn2"
    "content kn2 = NODE_APP cl cr" by (cases "nodes h2 k") auto
  from add_match [OF m k(1) _ _ a1] k(2) kp
  have m1: "match_edges (pend h \<times> UNIV - {(k, UPLINK_APPL)}) h1" by simp
  from add_match [OF m1 kn1(1) _ _ a2] kn1(2) kp
  have m2: "match_edges (pend h \<times> UNIV - {(k, UPLINK_APPL)} - {(k, UPLINK_APPR)}) h2" by simp
  have "match_edges (pend h \<times> UNIV - {(k, UPLINK_APPL)} - {(k, UPLINK_APPR)} - {(k, UPLINK_NA)}) h2"
  proof (rule match_edges_drop [OF m2])
    fix nd c assume "nodes h2 k = Some nd"
    with kn2 show "(c, UPLINK_NA) \<notin> set (out_edges (content nd))" by auto
  qed
  moreover have "pend h \<times> UNIV - {(k, UPLINK_APPL)} - {(k, UPLINK_APPR)} - {(k, UPLINK_NA)} =
    (pend h - {k}) \<times> UNIV"
    by (auto simp: UplinkType_all)
  ultimately have "match_edges ((pend h - {k}) \<times> UNIV) h2" by simp
  from set_cache_match [OF this s] have m3: "match_edges ((pend h - {k}) \<times> UNIV) h3" .
  have fr: "map_option (\<lambda>nd. (content nd, cache nd)) (nodes h3 a) =
       map_option (\<lambda>nd. (content nd, if a = p then NULL else cache nd)) (nodes h a)" for a
    using set_cache_frame [OF s, of a] add_frame [OF a2, of a] add_frame [OF a1, of a]
    by (cases "nodes h a"; cases "nodes h1 a"; cases "nodes h2 a"; cases "nodes h3 a") auto
  from clearing_step [OF c p m3 fr] show "clearing h3" .
qed

lemma install_lambda:
  assumes c: "clearing h" and p: "nodes h p = Some pn" "cache pn = PTR k" "is_app h p \<or> is_lambda h p"
    and k: "nodes h k = Some kn" "content kn = NODE_LAMBDA cb cv"
    and a1: "add cb k UPLINK_NA h = Inr h1"
    and s: "set_cache p NULL h1 = Inr h3"
  shows "clearing h3" "grows h h3" "\<not> cached h3 p" "\<forall>a. a \<noteq> p \<longrightarrow> cached h3 a = cached h a"
proof -
  from c have m: "match_edges (pend h \<times> UNIV) h" by (simp add: clearing_def)
  from p have kp: "k \<in> pend h" by (auto simp: pend_def)
  with c have uk: "\<not> cached h k" unfolding clearing_def by blast
  note g1 = grows_add [OF a1 uk]
  note g3 = grows_set_null [OF s]
  show "grows h h3" using grows_trans [OF g1(1) g3(1)] .
  show "\<not> cached h3 p" by fact
  show "\<forall>a. a \<noteq> p \<longrightarrow> cached h3 a = cached h a" using g1(2) g3(3) by simp
  from add_frame [OF a1, of k] k obtain kn1 where kn1: "nodes h1 k = Some kn1"
    "content kn1 = NODE_LAMBDA cb cv" by (cases "nodes h1 k") auto
  from add_match [OF m k(1) _ _ a1] k(2) kp
  have m1: "match_edges (pend h \<times> UNIV - {(k, UPLINK_NA)}) h1" by simp
  have m2: "match_edges (pend h \<times> UNIV - {(k, UPLINK_NA)} - {(k, UPLINK_APPL)}) h1"
  proof (rule match_edges_drop [OF m1])
    fix nd c assume "nodes h1 k = Some nd"
    with kn1 show "(c, UPLINK_APPL) \<notin> set (out_edges (content nd))" by auto
  qed
  have "match_edges (pend h \<times> UNIV - {(k, UPLINK_NA)} - {(k, UPLINK_APPL)} - {(k, UPLINK_APPR)}) h1"
  proof (rule match_edges_drop [OF m2])
    fix nd c assume "nodes h1 k = Some nd"
    with kn1 show "(c, UPLINK_APPR) \<notin> set (out_edges (content nd))" by auto
  qed
  moreover have "pend h \<times> UNIV - {(k, UPLINK_NA)} - {(k, UPLINK_APPL)} - {(k, UPLINK_APPR)} =
    (pend h - {k}) \<times> UNIV"
    by (auto simp: UplinkType_all)
  ultimately have "match_edges ((pend h - {k}) \<times> UNIV) h1" by simp
  from set_cache_match [OF this s] have m3: "match_edges ((pend h - {k}) \<times> UNIV) h3" .
  have fr: "map_option (\<lambda>nd. (content nd, cache nd)) (nodes h3 a) =
       map_option (\<lambda>nd. (content nd, if a = p then NULL else cache nd)) (nodes h a)" for a
    using set_cache_frame [OF s, of a] add_frame [OF a1, of a]
    by (cases "nodes h a"; cases "nodes h1 a"; cases "nodes h3 a") auto
  from clearing_step [OF c p m3 fr] show "clearing h3" .
qed

lemma parents_done_step:
  assumes g: "grows h h'" and nd: "nodes h node = Some nd" "i < length (uplinks nd)"
    and u: "\<not> cached h' (link (uplinks nd ! i))" and d: "parents_done h' node (Suc i)"
  shows "parents_done h' node i"
  unfolding parents_done_def
proof (intro allI impI)
  fix nd' j assume 1: "nodes h' node = Some nd'" "i \<le> j" "j < length (uplinks nd')"
  from growsD [OF g nd(1)] 1(1) obtain ex where "uplinks nd' = uplinks nd @ ex" by auto
  with nd(2) have same: "uplinks nd' ! i = uplinks nd ! i" by (simp add: nth_append)
  show "\<not> cached h' (link (uplinks nd' ! j))"
  proof (cases "j = i")
    case True
    with same u show ?thesis by simp
  next
    case False
    with 1(2) have "Suc i \<le> j" by simp
    with d 1(1,3) show ?thesis by (simp add: parents_done_def)
  qed
qed

lemma closed_step_via:
  assumes same: "\<forall>a. a \<noteq> p \<longrightarrow> cached h3 a = cached h a"
    and cs: "closed_step h3 h4" and kind: "kind_of h3 = kind_of h"
    and pd: "parents_done h4 p 0"
    and pv: "\<forall>b v. kind_of h p = Some (NODE_LAMBDA b v) \<longrightarrow> parents_done h4 v 0"
  shows "closed_step h h4"
  unfolding closed_step_def
proof (intro allI impI)
  fix a assume a: "cached h a" "\<not> cached h4 a"
  show "parents_done h4 a 0 \<and> (\<forall>b v. kind_of h a = Some (NODE_LAMBDA b v) \<longrightarrow> parents_done h4 v 0)"
  proof (cases "a = p")
    case True
    with pd pv show ?thesis by simp
  next
    case False
    with same a(1) have "cached h3 a" by simp
    with cs a(2) kind show ?thesis by (simp add: closed_step_def)
  qed
qed

lemma clear_closes:
  "(\<forall>node h h'. clearing h \<longrightarrow> clear n node h = Inr h' \<longrightarrow>
      clearing h' \<and> grows h h' \<and> parents_done h' node 0 \<and> closed_step h h') \<and>
   (\<forall>node i h h'. clearing h \<longrightarrow> clear_from n node i h = Inr h' \<longrightarrow>
      clearing h' \<and> grows h h' \<and> parents_done h' node i \<and> closed_step h h')"
proof (induction n)
  case 0
  show ?case by simp
next
  case (Suc n)
  from Suc have IH1: "\<And>node h h'. clearing h \<Longrightarrow> clear n node h = Inr h' \<Longrightarrow>
      clearing h' \<and> grows h h' \<and> parents_done h' node 0 \<and> closed_step h h'"
    and IH2: "\<And>node i h h'. clearing h \<Longrightarrow> clear_from n node i h = Inr h' \<Longrightarrow>
      clearing h' \<and> grows h h' \<and> parents_done h' node i \<and> closed_step h h'"
    by blast+
  have A: "clearing h' \<and> grows h h' \<and> parents_done h' node 0 \<and> closed_step h h'"
    if "clearing h" "clear (Suc n) node h = Inr h'" for node h h'
    using that IH2 [of h node 0 h'] by simp
  have B: "clearing h' \<and> grows h h' \<and> parents_done h' node i \<and> closed_step h h'"
    if c: "clearing h" and run: "clear_from (Suc n) node i h = Inr h'" for node i h h'
  proof -
    from run obtain nd where nd: "nodes h node = Some nd"
      by (auto simp: andthen_eq_Inr)
    show ?thesis
    proof (cases "length (uplinks nd) \<le> i")
      case True
      with run nd have "h' = h" by (auto simp: andthen_eq_Inr)
      with c nd True show ?thesis by (simp add: parents_done_def)
    next
      case False
      then have i: "i < length (uplinks nd)" by simp
      define p where "p = link (uplinks nd ! i)"
      from run nd False obtain pn where pn: "nodes h p = Some pn"
        by (auto simp: andthen_eq_Inr p_def)
      show ?thesis
      proof (cases "cache pn = NULL")
        case True
        with run nd False pn have r: "clear_from n node (Suc i) h = Inr h'"
          by (auto simp: p_def andthen_eq_Inr)
        note ih = IH2 [OF c r]
        from True pn have "\<not> cached h p" by (simp add: cached_def)
        with uncached_grows ih have "\<not> cached h' p" by blast
        with parents_done_step [OF _ nd i, of h'] ih show ?thesis by (simp add: p_def)
      next
        case cached: False
        show ?thesis
        proof (cases "content pn")
          case (NODE_APP l r)
          with pn have kp: "is_app h p \<or> is_lambda h p" by (auto simp: is_app_iff)
          from run nd False pn cached NODE_APP obtain k where k: "cache pn = PTR k"
            by (cases "cache pn") (auto simp: p_def [symmetric] andthen_eq_Inr)
          from run nd False pn cached NODE_APP k obtain kn where kn: "nodes h k = Some kn"
            by (auto simp: p_def [symmetric] andthen_eq_Inr)
          from run nd False pn cached NODE_APP k kn obtain cl cr where
            ck: "content kn = NODE_APP cl cr"
            by (cases "content kn") (auto simp: p_def [symmetric] andthen_eq_Inr)
          from run nd False pn cached NODE_APP k kn ck obtain h1 h2 h3 h4 where
            s: "add cl k UPLINK_APPL h = Inr h1" "add cr k UPLINK_APPR h1 = Inr h2"
              "set_cache p NULL h2 = Inr h3" "clear n p h3 = Inr h4"
              "clear_from n node (Suc i) h4 = Inr h'"
            by (auto simp: p_def [symmetric] andthen_eq_Inr)
          note i3 = install_app [OF c pn k kp kn ck s(1,2,3)]
          note i4 = IH1 [OF i3(1) s(4)]
          note i5 = IH2 [OF conjunct1 [OF i4] s(5)]
          from i4 have g34: "grows h3 h4" by simp
          from i5 have g45: "grows h4 h'" by simp
          note g04 = grows_trans [OF i3(2) g34]
          note g05 = grows_trans [OF g04 g45]
          have "closed_step h h4"
          proof (rule closed_step_via [OF i3(4) _ grows_kind [OF i3(2)]])
            show "closed_step h3 h4" using i4 by simp
            show "parents_done h4 p 0" using i4 by simp
            show "\<forall>b v. kind_of h p = Some (NODE_LAMBDA b v) \<longrightarrow> parents_done h4 v 0"
              using pn NODE_APP by (simp add: kind_of_def)
          qed
          from closed_step_trans [OF this _ g04 g45] i5 have cs: "closed_step h h'" by simp
          from i3(3) uncached_grows [OF grows_trans [OF g34 g45]] have "\<not> cached h' p" by blast
          with parents_done_step [OF g05 nd i, of ] i5 have "parents_done h' node i"
            by (simp add: p_def)
          with i5 g05 cs show ?thesis by simp
        next
          case (NODE_LAMBDA body var)
          with pn have kp: "is_app h p \<or> is_lambda h p" by (auto simp: is_lambda_iff)
          from run nd False pn cached NODE_LAMBDA obtain k where k: "cache pn = PTR k"
            by (cases "cache pn") (auto simp: p_def [symmetric] andthen_eq_Inr)
          from run nd False pn cached NODE_LAMBDA k obtain kn where kn: "nodes h k = Some kn"
            by (auto simp: p_def [symmetric] andthen_eq_Inr)
          from run nd False pn cached NODE_LAMBDA k kn obtain cb cv where
            ck: "content kn = NODE_LAMBDA cb cv"
            by (cases "content kn") (auto simp: p_def [symmetric] andthen_eq_Inr)
          from run nd False pn cached NODE_LAMBDA k kn ck obtain h1 h2 h3 h4 where
            s: "add cb k UPLINK_NA h = Inr h1" "set_cache p NULL h1 = Inr h2"
              "clear n var h2 = Inr h3" "clear n p h3 = Inr h4"
              "clear_from n node (Suc i) h4 = Inr h'"
            by (auto simp: p_def [symmetric] andthen_eq_Inr)
          note i2 = install_lambda [OF c pn k kp kn ck s(1,2)]
          note i3 = IH1 [OF i2(1) s(3)]
          note i4 = IH1 [OF conjunct1 [OF i3] s(4)]
          note i5 = IH2 [OF conjunct1 [OF i4] s(5)]
          from i3 have g23: "grows h2 h3" by simp
          from i4 have g34: "grows h3 h4" by simp
          from i5 have g45: "grows h4 h'" by simp
          note g24 = grows_trans [OF g23 g34]
          note g04 = grows_trans [OF i2(2) g24]
          note g05 = grows_trans [OF g04 g45]
          have "closed_step h h4"
          proof (rule closed_step_via [OF i2(4) _ grows_kind [OF i2(2)]])
            from i3 i4 closed_step_trans [OF _ _ g23 g34] show "closed_step h2 h4" by blast
            show "parents_done h4 p 0" using i4 by simp
            from i3 have "parents_done h3 var 0" by simp
            from parents_done_grows [OF g34 this] pn NODE_LAMBDA
            show "\<forall>b v. kind_of h p = Some (NODE_LAMBDA b v) \<longrightarrow> parents_done h4 v 0"
              by (simp add: kind_of_def)
          qed
          from closed_step_trans [OF this _ g04 g45] i5 have cs: "closed_step h h'" by simp
          from i2(3) uncached_grows [OF grows_trans [OF g24 g45]] have "\<not> cached h' p" by blast
          with parents_done_step [OF g05 nd i] i5 have "parents_done h' node i"
            by (simp add: p_def)
          with i5 g05 cs show ?thesis by simp
        next
          case NODE_VAR
          with run nd False pn cached show ?thesis by (auto simp: p_def [symmetric] andthen_eq_Inr)
        next
          case (NODE_PRIM x)
          with run nd False pn cached show ?thesis by (auto simp: p_def [symmetric] andthen_eq_Inr)
        qed
      qed
    qed
  qed
  from A B show ?case by blast
qed

subsubsection \<open>What \<^verbatim>\<open>upcopy\<close> has marked, \<^verbatim>\<open>clear\<close> reaches\<close>

lemma marks_stayD: "marks_stay h0 h h' \<Longrightarrow> old_node h0 a \<Longrightarrow> marked h a \<Longrightarrow> marked h' a"
  by (simp add: marks_stay_def)

lemma marks_stay_refl [simp]: "marks_stay h0 h h"
  by (simp add: marks_stay_def)

lemma marks_stay_trans: "marks_stay h0 h h1 \<Longrightarrow> marks_stay h0 h1 h2 \<Longrightarrow> marks_stay h0 h h2"
  by (simp add: marks_stay_def)

lemma covered_mono:
  assumes st: "pass_start fn x h0" and k: "marks_stay h0 h h'" and c: "covered h0 h x a"
  shows "covered h0 h' x a"
  using c
proof induction
  case (base xn u)
  from parent_facts(3) [OF st base(1,2)] marks_stayD [OF k] base(3)
  have "marked h' (link u)" by blast
  with base show ?case by (intro covered.base)
next
  case (up n nn u)
  from parent_facts(3) [OF st up(2,3)] marks_stayD [OF k] up(4)
  have "marked h' (link u)" by blast
  with up show ?case by (intro covered.up)
next
  case (var n b v vn u)
  from parent_facts(3) [OF st var(3,4)] marks_stayD [OF k] var(5)
  have "marked h' (link u)" by blast
  with var show ?case by (intro covered.var)
qed

lemma source_mono:
  assumes "pass_start fn x h0" "marks_stay h0 h h'" "source h0 h x m"
  shows "source h0 h' x m"
  using assms covered_mono [OF assms(1,2)] unfolding source_def by blast

lemma due_mono:
  assumes "pass_start fn x h0" "marks_stay h0 h h'" "due h0 h x m"
  shows "due h0 h' x m"
  using assms source_mono [OF assms(1,2)] unfolding due_def by blast

lemma marks_covered_mono:
  assumes st: "pass_start fn x h0" and k: "marks_stay h0 h h'" and c: "marks_covered h0 h x"
    and same: "\<And>a. old_node h0 a \<Longrightarrow> marked h' a \<Longrightarrow> marked h a \<or> covered h0 h' x a"
  shows "marks_covered h0 h' x"
  unfolding marks_covered_def
proof (intro allI impI)
  fix a assume a: "old_node h0 a" "marked h' a"
  from same [OF a] show "covered h0 h' x a"
  proof
    assume "marked h a"
    with c a(1) have "covered h0 h x a" by (simp add: marks_covered_def)
    from covered_mono [OF st k this] show ?thesis .
  qed
qed

text \<open>A call on an application or a lambda comes from one of its children.\<close>

lemma source_not_old:
  assumes st: "pass_start fn x h0" and s: "source h0 h x m" and o: "old_node h0 m"
  shows "covered h0 h x m"
proof -
  from pass_startD(4,5) [OF st] have "\<not> is_app h0 x \<and> \<not> is_lambda h0 x"
    unfolding vars_sound_def by blast
  moreover have "\<not> is_app h0 m \<and> \<not> is_lambda h0 m" if "kind_of h0 L = Some (NODE_LAMBDA b m)" for L b
    using pass_startD(4) [OF st] that unfolding vars_sound_def by blast
  ultimately show ?thesis using s o unfolding source_def old_node_def by blast
qed

lemma due_covered:
  assumes st: "pass_start fn x h0" and d: "due h0 h x into" and o: "old_node h0 into"
    and m: "marked h into"
  shows "covered h0 h x into"
  using d unfolding due_def
proof
  assume "source h0 h x into"
  from source_not_old [OF st this o] show ?thesis .
next
  assume "\<exists>m mn u. source h0 h x m \<and> nodes h0 m = Some mn \<and> u \<in> set (uplinks mn) \<and> link u = into"
  then obtain s mn u where s: "source h0 h x s" "nodes h0 s = Some mn" "u \<in> set (uplinks mn)"
    "link u = into" by blast
  from s(1) consider "s = x" | "covered h0 h x s"
    | L b where "covered h0 h x L" "kind_of h0 L = Some (NODE_LAMBDA b s)"
    unfolding source_def by blast
  then show ?thesis
  proof cases
    case 1
    with covered.base [of h0 x mn u h] s m show ?thesis by simp
  next
    case 2
    with covered.up [OF 2 s(2,3)] s(4) m show ?thesis by simp
  next
    case 3
    with covered.var [OF 3 s(2,3)] s(4) m show ?thesis by simp
  qed
qed

lemma due_old:
  assumes st: "pass_start fn x h0" and d: "due h0 h x into"
  shows "into < next_node h0"
proof -
  from pass_startD(4,5) [OF st] have x: "x < next_node h0" unfolding vars_sound_def by blast
  have cov: "a < next_node h0" if "covered h0 h x a" for a
    using that parent_facts(1) [OF st] by induction auto
  have src: "a < next_node h0" if "source h0 h x a" for a
    using that x cov pass_startD(4) [OF st] unfolding source_def vars_sound_def by blast
  from d src parent_facts(1) [OF st] show ?thesis unfolding due_def by blast
qed

lemma due_parent:
  assumes "source h0 h x m" "nodes h0 m = Some mn" "u \<in> set (uplinks mn)"
  shows "due h0 h x (link u)"
  using assms unfolding due_def by blast

lemma due_var:
  assumes "covered h0 h x L" "kind_of h0 L = Some (NODE_LAMBDA b v)"
  shows "due h0 h x v"
  using assms unfolding due_def source_def by blast

lemma mark_covers:
  assumes st: "pass_start fn x h0" and e: "evolved h0 fn h" and mc: "marks_covered h0 h x"
    and d: "due h0 h x a" and o: "old_node h0 a" and nd: "nodes h a = Some nd"
    and n: "new_node X h = (k, h1)" and s: "set_cache a (PTR k) h1 = Inr h2"
  shows "marks_covered h0 h2 x" "marks_stay h0 h h2" "covered h0 h2 x a"
proof -
  from n have k: "k = next_node h"
    and h1: "h1 = h\<lparr>nodes := (nodes h)(next_node h \<mapsto> X), next_node := Suc (next_node h)\<rparr>"
    by (auto simp: new_node_def)
  from heap_boundedD [OF evolved_bounded [OF e] nd] k have ak: "a \<noteq> k" by simp
  with nd have nd1: "nodes h1 a = Some nd" by (simp add: h1 k)
  with s have h2: "h2 = store a (nd\<lparr>cache := PTR k\<rparr>) h1" by (simp add: set_cache_def)
  have other: "nodes h2 b = nodes h b" if "b \<noteq> a" "b \<noteq> k" for b
    using that by (simp add: h2 h1 k)
  have oldk: "b \<noteq> k" if "old_node h0 b" for b
    using old_node_live [OF pass_startD(1) [OF st] that] evolved_next [OF e] k by simp
  have ma: "marked h2 a" by (simp add: marked_def h2)
  show ms: "marks_stay h0 h h2"
    unfolding marks_stay_def
  proof (intro allI impI)
    fix b assume b: "old_node h0 b" "marked h b"
    show "marked h2 b"
    proof (cases "b = a")
      case True
      with ma show ?thesis by simp
    next
      case False
      with other [OF False oldk [OF b(1)]] b(2) show ?thesis by (simp add: marked_def)
    qed
  qed
  from due_covered [OF st due_mono [OF st ms d] o ma] show ca: "covered h0 h2 x a" .
  show "marks_covered h0 h2 x"
  proof (rule marks_covered_mono [OF st ms mc])
    fix b assume b: "old_node h0 b" "marked h2 b"
    show "marked h b \<or> covered h0 h2 x b"
    proof (cases "b = a")
      case True
      with ca show ?thesis by simp
    next
      case False
      with other [OF False oldk [OF b(1)]] b(2) show ?thesis by (simp add: marked_def)
    qed
  qed
qed

lemma quiet_covers:
  assumes st: "pass_start fn x h0" and mc: "marks_covered h0 h x"
    and same: "\<And>b. old_node h0 b \<Longrightarrow> marked h' b = marked h b"
  shows "marks_covered h0 h' x" "marks_stay h0 h h'"
proof -
  show ms: "marks_stay h0 h h'" using same by (simp add: marks_stay_def)
  show "marks_covered h0 h' x"
    by (rule marks_covered_mono [OF st ms mc]) (simp add: same)
qed

lemma upcopy_uplinks_covers:
  assumes st: "pass_start fn x h0"
    and calls: "\<And>h into t h'. evolved h0 fn h \<Longrightarrow> marks_covered h0 h x \<Longrightarrow> due h0 h x into \<Longrightarrow>
      upcopy n nk into t h = Inr h' \<Longrightarrow>
      evolved h0 fn h' \<and> marks_covered h0 h' x \<and> marks_stay h0 h h'"
  shows "evolved h0 fn h \<Longrightarrow> marks_covered h0 h x \<Longrightarrow> \<forall>u \<in> set us. due h0 h x (link u) \<Longrightarrow>
    upcopy_uplinks n nk us h = Inr h' \<Longrightarrow>
    evolved h0 fn h' \<and> marks_covered h0 h' x \<and> marks_stay h0 h h'"
proof (induction us arbitrary: h)
  case Nil
  then show ?case by simp
next
  case (Cons u us)
  from Cons.prems(4) obtain h1 where h1: "upcopy n nk (link u) (type u) h = Inr h1"
    "upcopy_uplinks n nk us h1 = Inr h'"
    by (auto simp: andthen_eq_Inr)
  from calls [OF Cons.prems(1,2) _ h1(1)] Cons.prems(3)
  have 1: "evolved h0 fn h1" "marks_covered h0 h1 x" "marks_stay h0 h h1" by simp_all
  from Cons.prems(3) due_mono [OF st 1(3)] have "\<forall>u \<in> set us. due h0 h1 x (link u)" by simp
  from Cons.IH [OF 1(1,2) this h1(2)] marks_stay_trans [OF 1(3)] show ?case by blast
qed

lemma upcopy_covers:
  assumes st: "pass_start fn x h0"
  shows "evolved h0 fn h \<Longrightarrow> marks_covered h0 h x \<Longrightarrow> due h0 h x into \<Longrightarrow>
      upcopy n nc into t h = Inr h' \<Longrightarrow>
      evolved h0 fn h' \<and> marks_covered h0 h' x \<and> marks_stay h0 h h'"
proof (induction n arbitrary: h into nc t h')
  case 0
  then show ?case by simp
next
  case (Suc n)
  note e = \<open>evolved h0 fn h\<close> and mc = \<open>marks_covered h0 h x\<close> and d = \<open>due h0 h x into\<close>
  note run = \<open>upcopy (Suc n) nc into t h = Inr h'\<close>
  note hb = pass_startD(1) [OF st]
  note lt = due_old [OF st d]
  from run obtain nd where nd: "nodes h into = Some nd" by (auto simp: andthen_eq_Inr)
  have "nodes h0 into \<noteq> None"
  proof
    assume "nodes h0 into = None"
    with e lt have "nodes h into = None" unfolding evolved_def by (auto split: option.splits)
    with nd show False by simp
  qed
  then obtain nd0 where nd0: "nodes h0 into = Some nd0" by auto
  from evolvedD [OF e lt nd0] nd have k0: "content nd = content nd0" "uplinks nd = uplinks nd0"
    "is_lambda h0 into \<longrightarrow> (cache nd = STOP \<longleftrightarrow> into = fn)"
    "is_app h0 into \<longrightarrow> cache nd = NULL \<or>
              (\<exists>c. cache nd = PTR c \<and> next_node h0 \<le> c \<and> is_app h c)"
    by auto
  have loop: "evolved h0 fn h2 \<and> marks_covered h0 h2 x \<and> marks_stay h0 h1 h2"
    if "evolved h0 fn h1" "marks_covered h0 h1 x" "source h0 h1 x into"
      "upcopy_uplinks n newNode (uplinks nd0) h1 = Inr h2"
    for h1 h2 newNode
  proof (rule upcopy_uplinks_covers [OF st _ that(1,2) _ that(4)])
    show "\<forall>u\<in>set (uplinks nd0). due h0 h1 x (link u)"
      using due_parent [OF that(3) nd0] by blast
    show "evolved h0 fn h'' \<and> marks_covered h0 h'' x \<and> marks_stay h0 ha h''"
      if "evolved h0 fn ha" "marks_covered h0 ha x" "due h0 ha x intoa"
        "upcopy n newNode intoa ta ha = Inr h''"
      for ha intoa ta h''
      using that by (rule Suc.IH)
  qed
  show ?case
  proof (cases "content nd0")
    case (NODE_APP l rr)
    with nd0 have app: "is_app h0 into" by (auto simp: is_app_iff)
    then have old: "old_node h0 into" by (simp add: old_node_def)
    from pass_startD(5) [OF st] have "is_lambda h0 fn" by (auto simp: is_lambda_def)
    with app have ne: "into \<noteq> fn" by (auto simp: is_app_iff is_lambda_iff)
    from k0(4) app consider (fresh) "cache nd = NULL"
      | (again) k where "cache nd = PTR k" "next_node h0 \<le> k" "is_app h k"
      by blast
    then show ?thesis
    proof cases
      case fresh
      define X where "X = \<lparr>cache = NULL, uplinks = [],
         content = (if t = UPLINK_APPL then NODE_APP nc rr else NODE_APP l nc)\<rparr>"
      obtain k h1 where n1: "new_node X h = (k, h1)" by (cases "new_node X h")
      from run nd NODE_APP fresh n1 k0(1) obtain h2 where h2: "set_cache into (PTR k) h1 = Inr h2"
        "upcopy_uplinks n k (uplinks nd0) h2 = Inr h'"
        by (auto simp: X_def andthen_eq_Inr k0(2))
      note a1 = evolved_new_node [OF e n1]
      from a1(1) heap_boundedD [OF evolved_bounded [OF e] nd] have "into \<noteq> k" by simp
      with n1 nd have nd1: "nodes h1 into = Some nd" by (auto simp: new_node_def)
      have "is_app h1 k" using a1(4) by (auto simp: is_app_iff X_def)
      with evolved_set_cache [OF a1(3) lt nd1, of k] a1(2) ne h2(1)
      have e2: "evolved h0 fn h2" by auto
      note m = mark_covers [OF st e mc d old nd n1 h2(1)]
      from m(3) have "source h0 h2 x into" by (simp add: source_def)
      from loop [OF e2 m(1) this h2(2)] marks_stay_trans [OF m(2)] show ?thesis by blast
    next
      case again
      from again(3) obtain cn cl cr where cn: "nodes h k = Some cn" "content cn = NODE_APP cl cr"
        by (auto simp: is_app_iff)
      define cn' where "cn' = cn\<lparr>content := (if t = UPLINK_APPL then NODE_APP nc cr
                                               else NODE_APP cl nc)\<rparr>"
      from run nd NODE_APP again(1) cn k0(1) have h': "h' = store k cn' h"
        by (auto simp: cn'_def andthen_eq_Inr)
      have "\<exists>cl' cr'. content cn' = NODE_APP cl' cr'"
        by (cases "t = UPLINK_APPL") (auto simp: cn'_def)
      then obtain cl' cr' where "content cn' = NODE_APP cl' cr'" by blast
      note e' = evolved_store_new(1) [OF e again(2) cn this]
      have same: "marked h' b = marked h b" if "old_node h0 b" for b
      proof -
        from old_node_live [OF hb that] again(2) have "b \<noteq> k" by simp
        then show ?thesis by (simp add: h' marked_def)
      qed
      from quiet_covers [OF st mc same] e' h' show ?thesis by simp
    qed
  next
    case (NODE_LAMBDA b var)
    with nd0 have lam: "is_lambda h0 into" by (auto simp: is_lambda_iff)
    then have old: "old_node h0 into" by (auto simp: old_node_def)
    from nd0 NODE_LAMBDA have kin: "kind_of h0 into = Some (NODE_LAMBDA b var)"
      by (simp add: kind_of_iff)
    show ?thesis
    proof (cases "cache nd = STOP")
      case True
      with run nd NODE_LAMBDA k0(1) have "h' = h" by (auto simp: andthen_eq_Inr)
      with e mc show ?thesis by simp
    next
      case False
      with k0(3) lam have ne: "into \<noteq> fn" by simp
      define XV where "XV = \<lparr>cache = NULL, uplinks = [], content = NODE_VAR\<rparr>"
      obtain k1 h1 where n1: "new_node XV h = (k1, h1)" by (cases "new_node XV h")
      define XL where "XL = \<lparr>cache = NULL, uplinks = [], content = NODE_LAMBDA nc k1\<rparr>"
      obtain k2 h2 where n2: "new_node XL h1 = (k2, h2)" by (cases "new_node XL h1")
      from run nd NODE_LAMBDA False n1 n2 k0(1) obtain h3 h4 where
        h3: "set_cache into (PTR k2) h2 = Inr h3" and h4: "upcopy n k1 var UPLINK_NA h3 = Inr h4"
        and r: "upcopy_uplinks n k2 (uplinks nd0) h4 = Inr h'"
        by (auto simp: XV_def XL_def andthen_eq_Inr k0(2))
      note a1 = evolved_new_node [OF e n1]
      from a1(1) heap_boundedD [OF evolved_bounded [OF e] nd] have "into \<noteq> k1" by simp
      with n1 nd have nd1: "nodes h1 into = Some nd" by (auto simp: new_node_def)
      have old1: "marked h1 c = marked h c" if "old_node h0 c" for c
      proof -
        from old_node_live [OF hb that] a1(2) have "c \<noteq> k1" by simp
        with n1 show ?thesis by (auto simp: new_node_def marked_def)
      qed
      note q1 = quiet_covers [OF st mc old1]
      note a2 = evolved_new_node [OF a1(3) n2]
      from a2(1) heap_boundedD [OF evolved_bounded [OF a1(3)] nd1] have "into \<noteq> k2" by simp
      with n2 nd1 have nd2: "nodes h2 into = Some nd" by (auto simp: new_node_def)
      from lam have "\<not> is_app h0 into" by (auto simp: is_app_iff is_lambda_iff)
      with evolved_set_cache [OF a2(3) lt nd2, of k2] ne h3
      have e3: "evolved h0 fn h3" by auto
      note m = mark_covers [OF st a1(3) q1(1) due_mono [OF st q1(2) d] old nd1 n2 h3]
      note s03 = marks_stay_trans [OF q1(2) m(2)]
      from Suc.IH [OF e3 m(1) due_var [OF m(3) kin] h4]
      have 4: "evolved h0 fn h4" "marks_covered h0 h4 x" "marks_stay h0 h3 h4" by simp_all
      from covered_mono [OF st 4(3) m(3)] have "source h0 h4 x into" by (simp add: source_def)
      from loop [OF 4(1,2) this r] marks_stay_trans [OF s03 marks_stay_trans [OF 4(3)]]
      show ?thesis by blast
    qed
  next
    case NODE_VAR
    with nd0 have var: "is_var h0 into" by (auto simp: is_var_iff)
    then have nold: "\<not> old_node h0 into"
      by (auto simp: old_node_def is_app_iff is_lambda_iff is_var_iff)
    from run nd NODE_VAR k0(1) obtain h1 where h1: "set_cache into (PTR nc) h = Inr h1"
      and r: "upcopy_uplinks n nc (uplinks nd0) h1 = Inr h'"
      by (auto simp: andthen_eq_Inr k0(2))
    from var have "\<not> is_app h0 into" "\<not> is_lambda h0 into"
      by (auto simp: is_app_iff is_lambda_iff is_var_iff)
    with evolved_set_cache [OF e lt nd, of nc] h1 have e1: "evolved h0 fn h1" by auto
    have same: "marked h1 c = marked h c" if "old_node h0 c" for c
    proof -
      from that nold have "c \<noteq> into" by auto
      with h1 nd show ?thesis by (auto simp: set_cache_def marked_def)
    qed
    note q = quiet_covers [OF st mc same]
    have "source h0 h x into"
      using d unfolding due_def
    proof
      assume "\<exists>m mn u. source h0 h x m \<and> nodes h0 m = Some mn \<and> u \<in> set (uplinks mn) \<and>
        link u = into"
      with parent_facts(3) [OF st] nold show ?thesis by blast
    qed
    from loop [OF e1 q(1) source_mono [OF st q(2) this] r] marks_stay_trans [OF q(2)]
    show ?thesis by blast
  next
    case (NODE_PRIM p)
    with run nd k0(1) show ?thesis by (auto simp: andthen_eq_Inr)
  qed
qed

subsubsection \<open>The two passes keep the invariant\<close>

lemma soundD:
  assumes "sound h"
  shows "heap_bounded h" "uplinks_match h" "unique_binders h" "vars_sound h" "caches_null h"
  using assms by (simp_all add: sound_def)

lemma set_cache_uplinks_match:
  assumes "uplinks_match h" "set_cache a k h = Inr h'"
  shows "uplinks_match h'"
  using set_cache_match [of "{}" h a k h'] assms by (simp add: match_edges_none)

lemma set_cache_kind: "set_cache a k h = Inr h' \<Longrightarrow> kind_of h' = kind_of h"
  by (auto simp: set_cache_def kind_of_store_cache split: option.splits)

lemma kind_vars_sound:
  assumes "vars_sound h" "kind_of h' = kind_of h" "next_node h \<le> next_node h'"
  shows "vars_sound h'"
  using assms is_kind_cong [OF assms(2)] unfolding vars_sound_def by (auto intro: less_le_trans)

lemma kind_unique_binders:
  assumes "unique_binders h" "kind_of h' = kind_of h"
  shows "unique_binders h'"
  using assms unfolding unique_binders_def by simp

lemma set_cache_bounded:
  assumes "heap_bounded h" "set_cache a k h = Inr h'"
  shows "heap_bounded h'" "next_node h' = next_node h"
  using assms by (auto simp: set_cache_def heap_bounded_def split: option.splits)

lemma pass_begins:
  assumes s: "sound h" and fn: "nodes h fn = Some fnd" "content fnd = NODE_LAMBDA body var"
    and s1: "set_cache fn STOP h = Inr h1"
  shows "pass_start fn var h1" "copying h1 fn var h1" "marks_covered h1 h1 var"
    "rooted h1 fn var h1 var" "fresh h1 fn h1 var"
proof -
  note k = set_cache_kind [OF s1]
  note ks = is_kind_cong [OF k]
  note b = set_cache_bounded [OF soundD(1) [OF s] s1]
  from fn s1 have h1: "h1 = store fn (fnd\<lparr>cache := STOP\<rparr>) h" by (simp add: set_cache_def)
  from fn have kf: "kind_of h1 fn = Some (NODE_LAMBDA body var)" by (simp add: k kind_of_iff)
  from fn have lf: "is_lambda h fn" by (auto simp: is_lambda_iff)
  have caches: "(is_app h1 a \<longrightarrow> cache nd = NULL) \<and>
        (is_lambda h1 a \<longrightarrow> (if a = fn then cache nd = STOP else cache nd = NULL))"
    if "nodes h1 a = Some nd" for a nd
  proof (cases "a = fn")
    case True
    with that lf fn show ?thesis by (auto simp: h1 ks is_app_iff is_lambda_iff)
  next
    case False
    with that have "nodes h a = Some nd" by (simp add: h1)
    with soundD(5) [OF s] False show ?thesis by (auto simp: caches_null_def ks)
  qed
  show st: "pass_start fn var h1"
    unfolding pass_start_def
    using b(1) set_cache_uplinks_match [OF soundD(2) [OF s] s1]
      kind_unique_binders [OF soundD(3) [OF s] k] kind_vars_sound [OF soundD(4) [OF s] k] b(2)
      kf caches
    by auto
  have nomark: "\<not> marked h1 a" if "old_node h1 a" for a
  proof
    assume "marked h1 a"
    then obtain nd c where "nodes h1 a = Some nd" "cache nd = PTR c" by (auto simp: marked_def)
    with caches [OF this(1)] that show False by (auto simp: old_node_def split: if_splits)
  qed
  have "caches_ready fn h1"
    unfolding caches_ready_def
  proof (intro allI impI)
    fix a nd assume "nodes h1 a = Some nd"
    from caches [OF this] show "(is_app h1 a \<longrightarrow> cache nd = NULL) \<and>
      (is_lambda h1 a \<longrightarrow> (cache nd = STOP) = (a = fn))"
      by (auto split: if_splits)
  qed
  from evolved_refl [OF b(1) this] have e: "evolved h1 fn h1" .
  have "lam_copies h1 fn h1"
    unfolding lam_copies_def
  proof (intro allI impI)
    fix a nd assume "nodes h1 a = Some nd" "is_lambda h1 a" "a \<noteq> fn"
    with caches [OF this(1)] show "cache nd = NULL \<or>
      (\<exists>c. cache nd = PTR c \<and> next_node h1 \<le> c \<and> is_lambda h1 c)" by simp
  qed
  moreover have "inj_copies h1 h1"
    unfolding inj_copies_def using nomark by (auto simp: marked_def)
  moreover have "new_nodes h1 h1" by (simp add: new_nodes_def)
  moreover have "new_vars h1 h1"
    unfolding new_vars_def
  proof (intro allI impI)
    fix c b v assume "next_node h1 \<le> c" "kind_of h1 c = Some (NODE_LAMBDA b v)"
    with heap_boundedD [OF b(1), of c] have False by (auto simp: kind_of_iff)
    then show "next_node h1 \<le> v \<and> is_var h1 v \<and>
      (\<forall>c' b'. kind_of h1 c' = Some (NODE_LAMBDA b' v) \<longrightarrow> c' = c)" ..
  qed
  moreover have "marks_rooted h1 fn var h1"
    unfolding marks_rooted_def using nomark by (auto simp: old_node_def)
  ultimately show "copying h1 fn var h1" using e by (simp add: copying_def)
  show "marks_covered h1 h1 var"
    unfolding marks_covered_def using nomark by blast
  from rootless_root [OF pass_startD(3) [OF st] kf pass_startD(4) [OF st]]
  have "entry_ok h1 fn var h1 var" by (simp add: entry_ok_def)
  then show "rooted h1 fn var h1 var" unfolding rooted_def by (meson below_refl)
  show "fresh h1 fn h1 var"
    unfolding fresh_def using nomark by (auto simp: old_node_def)
qed

lemma pass_copies:
  assumes s: "sound h" and fn: "nodes h fn = Some fnd" "content fnd = NODE_LAMBDA body var"
    and s1: "set_cache fn STOP h = Inr h1" and u: "upcopy n arg var UPLINK_NA h1 = Inr h2"
  shows "pass_start fn var h1" "copying h1 fn var h2" "marks_covered h1 h2 var"
proof -
  note p = pass_begins [OF s fn s1]
  show "pass_start fn var h1" by fact
  from pass_startD(4,5) [OF p(1)] have lt: "var < next_node h1" unfolding vars_sound_def by blast
  from upcopy_dead [of h1 var n arg UPLINK_NA h2] u have live: "nodes h1 var \<noteq> None" by blast
  from upcopy_copying [OF p(1,2) lt live _ u] p(4,5) show "copying h1 fn var h2" by simp
  have "due h1 h1 var var" by (simp add: due_def source_def)
  from upcopy_covers [OF p(1) copyingD(1) [OF p(2)] p(3) this u]
  show "marks_covered h1 h2 var" by simp
qed

text \<open>The store between the two passes: the sentinel is taken back.\<close>

lemma between_passes:
  assumes st: "pass_start fn x H" and c: "copying H fn x h2" and s3: "set_cache fn NULL h2 = Inr h3"
  shows "heap_bounded h3" "next_node H \<le> next_node h3"
    "\<And>a nd0. nodes H a = Some nd0 \<Longrightarrow> \<exists>nd. nodes h3 a = Some nd \<and> content nd = content nd0 \<and>
        uplinks nd = uplinks nd0 \<and> (cache nd = NULL \<or> \<not> old_node H a \<or>
          (\<exists>k. cache nd = PTR k \<and> next_node H \<le> k \<and> marked h2 a))"
    "\<And>a. a < next_node H \<Longrightarrow> nodes H a = None \<Longrightarrow> nodes h3 a = None"
    "\<And>k. next_node H \<le> k \<Longrightarrow> k < next_node h3 \<Longrightarrow>
        \<exists>kn. nodes h3 k = Some kn \<and> uplinks kn = [] \<and> cache kn = NULL \<and>
          (is_app h3 k \<or> is_lambda h3 k \<longrightarrow>
             (\<exists>a nd. old_node H a \<and> nodes h3 a = Some nd \<and> cache nd = PTR k))"
    "\<And>a a' nd nd' k. old_node H a \<Longrightarrow> old_node H a' \<Longrightarrow> nodes h3 a = Some nd \<Longrightarrow>
        nodes h3 a' = Some nd' \<Longrightarrow> cache nd = PTR k \<Longrightarrow> cache nd' = PTR k \<Longrightarrow> a = a'"
    "\<And>a. old_node H a \<Longrightarrow> marked h2 a \<Longrightarrow> cached h3 a"
    "unique_binders h3" "vars_sound h3"
proof -
  note hb = pass_startD(1) [OF st]
  note e = copyingD(1) [OF c]
  from pass_startD(5) [OF st] obtain body where fk: "kind_of H fn = Some (NODE_LAMBDA body x)"
    by blast
  then obtain fd0 where fd0: "nodes H fn = Some fd0" "content fd0 = NODE_LAMBDA body x"
    by (auto simp: kind_of_iff)
  then have fl: "is_lambda H fn" by (auto simp: is_lambda_iff)
  note flt = heap_boundedD [OF hb fd0(1)]
  from evolvedD [OF e flt fd0(1)] fl obtain fd where fd: "nodes h2 fn = Some fd"
    "content fd = content fd0" "uplinks fd = uplinks fd0" "cache fd = STOP" by auto
  with s3 have h3: "h3 = store fn (fd\<lparr>cache := NULL\<rparr>) h2" by (simp add: set_cache_def)
  have other: "nodes h3 a = nodes h2 a" if "a \<noteq> fn" for a
    using that by (simp add: h3)
  have self: "nodes h3 fn = Some (fd\<lparr>cache := NULL\<rparr>)" by (simp add: h3)
  have kind: "kind_of h3 = kind_of h2" using set_cache_kind [OF s3] .
  note ks = is_kind_cong [OF kind]
  have nn: "next_node h3 = next_node h2" by (simp add: h3)
  show b3: "heap_bounded h3" using set_cache_bounded(1) [OF evolved_bounded [OF e] s3] .
  show "next_node H \<le> next_node h3" using evolved_next [OF e] nn by simp
  show old: "\<exists>nd. nodes h3 a = Some nd \<and> content nd = content nd0 \<and>
        uplinks nd = uplinks nd0 \<and> (cache nd = NULL \<or> \<not> old_node H a \<or>
          (\<exists>k. cache nd = PTR k \<and> next_node H \<le> k \<and> marked h2 a))"
    if "nodes H a = Some nd0" for a nd0
  proof (cases "a = fn")
    case True
    with that fd0 fd self show ?thesis by simp
  next
    case False
    note lt = heap_boundedD [OF hb that]
    from evolvedD [OF e lt that] obtain nd where nd: "nodes h2 a = Some nd"
      "content nd = content nd0" "uplinks nd = uplinks nd0"
      "is_lambda H a \<longrightarrow> (cache nd = STOP \<longleftrightarrow> a = fn)"
      "is_app H a \<longrightarrow> cache nd = NULL \<or>
              (\<exists>c. cache nd = PTR c \<and> next_node H \<le> c \<and> is_app h2 c)" by blast
    have "cache nd = NULL \<or> \<not> old_node H a \<or>
          (\<exists>k. cache nd = PTR k \<and> next_node H \<le> k \<and> marked h2 a)"
    proof (cases "old_node H a")
      case True
      then consider "is_app H a" | "is_lambda H a" by (auto simp: old_node_def)
      then show ?thesis
      proof cases
        case 1
        with nd(1,5) show ?thesis by (auto simp: marked_def)
      next
        case 2
        with copyingD(2) [OF c] nd(1) False show ?thesis
          unfolding lam_copies_def by (fastforce simp: marked_def)
      qed
    qed simp
    with nd other [OF False] show ?thesis by simp
  qed
  show dead: "nodes h3 a = None" if "a < next_node H" "nodes H a = None" for a
  proof -
    from e that have "nodes h2 a = None" unfolding evolved_def by (auto split: option.splits)
    moreover from that fd0 have "a \<noteq> fn" by auto
    ultimately show ?thesis by (simp add: other)
  qed
  show new: "\<exists>kn. nodes h3 k = Some kn \<and> uplinks kn = [] \<and> cache kn = NULL \<and>
          (is_app h3 k \<or> is_lambda h3 k \<longrightarrow>
             (\<exists>a nd. old_node H a \<and> nodes h3 a = Some nd \<and> cache nd = PTR k))"
    if "next_node H \<le> k" "k < next_node h3" for k
  proof -
    from that flt have kf: "k \<noteq> fn" by simp
    from copyingD(4) [OF c] that nn obtain kn where kn: "nodes h2 k = Some kn" "uplinks kn = []"
      "cache kn = NULL" "is_app h2 k \<or> is_lambda h2 k \<longrightarrow> pending H h2 k"
      unfolding new_nodes_def by force
    have "\<exists>a nd. old_node H a \<and> nodes h3 a = Some nd \<and> cache nd = PTR k" if "pending H h2 k"
    proof -
      from that obtain a nd where a: "old_node H a" "nodes h2 a = Some nd" "cache nd = PTR k"
        by (auto simp: pending_def)
      with fd have "a \<noteq> fn" by auto
      with a other show ?thesis by auto
    qed
    with kn other [OF kf] show ?thesis by (auto simp: ks)
  qed
  show inj: "a = a'"
    if "old_node H a" "old_node H a'" "nodes h3 a = Some nd" "nodes h3 a' = Some nd'"
      "cache nd = PTR k" "cache nd' = PTR k" for a a' nd nd' k
  proof -
    from that(3,5) self have "a \<noteq> fn" by auto
    moreover from that(4,6) self have "a' \<noteq> fn" by auto
    ultimately have "nodes h2 a = Some nd" "nodes h2 a' = Some nd'" using that(3,4) other by auto
    with copyingD(3) [OF c] that show ?thesis unfolding inj_copies_def by blast
  qed
  show "cached h3 a" if "old_node H a" "marked h2 a" for a
  proof -
    from that(2) fd have "a \<noteq> fn" by (auto simp: marked_def)
    with that(2) other show ?thesis by (auto simp: marked_def cached_def)
  qed
  have kold: "kind_of h3 a = kind_of H a" if "a < next_node H" for a
    using evolved_kind [OF e that] kind by simp
  have oldlam: "a < next_node H" if "next_node H \<le> v \<Longrightarrow> False"
    "kind_of h3 a = Some (NODE_LAMBDA b v)" for a b v
  proof (rule ccontr)
    assume "\<not> a < next_node H"
    then have "next_node H \<le> a" by simp
    moreover from that(2) kind have "kind_of h2 a = Some (NODE_LAMBDA b v)" by simp
    ultimately have "next_node H \<le> v"
      using copyingD(5) [OF c] unfolding new_vars_def by blast
    with that(1) show False .
  qed
  show "unique_binders h3"
    unfolding unique_binders_def
  proof (intro allI impI)
    fix a a' b b' v
    assume 1: "kind_of h3 a = Some (NODE_LAMBDA b v)" "kind_of h3 a' = Some (NODE_LAMBDA b' v)"
    show "a = a'"
    proof (cases "next_node H \<le> v")
      case True
      have "next_node H \<le> a"
      proof (rule ccontr)
        assume "\<not> next_node H \<le> a"
        then have lt: "a < next_node H" by simp
        with kold 1(1) have "kind_of H a = Some (NODE_LAMBDA b v)" by simp
        with pass_startD(4) [OF st] have "v < next_node H" unfolding vars_sound_def by blast
        with True show False by simp
      qed
      moreover from 1(1) kind have "kind_of h2 a = Some (NODE_LAMBDA b v)" by simp
      ultimately have "\<forall>c' b'. kind_of h2 c' = Some (NODE_LAMBDA b' v) \<longrightarrow> c' = a"
        using copyingD(5) [OF c] unfolding new_vars_def by blast
      with 1(2) kind show ?thesis by auto
    next
      case False
      with oldlam 1 have "a < next_node H" "a' < next_node H" by blast+
      with kold 1 have "kind_of H a = Some (NODE_LAMBDA b v)" "kind_of H a' = Some (NODE_LAMBDA b' v)"
        by simp_all
      with pass_startD(3) [OF st] show ?thesis unfolding unique_binders_def by blast
    qed
  qed
  show "vars_sound h3"
    unfolding vars_sound_def
  proof (intro allI impI)
    fix a b v assume 1: "kind_of h3 a = Some (NODE_LAMBDA b v)"
    show "v < next_node h3 \<and> \<not> is_app h3 v \<and> \<not> is_lambda h3 v"
    proof (cases "a < next_node H")
      case True
      with kold 1 have "kind_of H a = Some (NODE_LAMBDA b v)" by simp
      with pass_startD(4) [OF st] have v: "v < next_node H" "\<not> is_app H v" "\<not> is_lambda H v"
        unfolding vars_sound_def by blast+
      from kold [OF v(1)] v(2,3) have "\<not> is_app h3 v" "\<not> is_lambda h3 v"
        by (simp_all add: is_app_def is_lambda_def)
      with v(1) evolved_next [OF e] nn show ?thesis by simp
    next
      case False
      then have "next_node H \<le> a" by simp
      moreover from 1 kind have "kind_of h2 a = Some (NODE_LAMBDA b v)" by simp
      ultimately have "is_var h2 v"
        using copyingD(5) [OF c] unfolding new_vars_def by blast
      then have "is_var h3 v" by (simp add: ks)
      then show ?thesis using heap_boundedD [OF b3]
        by (auto simp: is_var_iff is_app_iff is_lambda_iff)
    qed
  qed
qed

lemma pass_clearing:
  assumes st: "pass_start fn x H" and c: "copying H fn x h2" and s3: "set_cache fn NULL h2 = Inr h3"
  shows "clearing h3"
proof -
  note bp = between_passes [OF st c s3]
  note hb = pass_startD(1) [OF st] and um = pass_startD(2) [OF st]
  have oldk: "is_app h3 a \<or> is_lambda h3 a \<longleftrightarrow> old_node H a" if "nodes H a = Some nd0" for a nd0
    using bp(3) [OF that] that by (auto simp: old_node_def is_app_iff is_lambda_iff)
  have marked_old: "old_node H a \<and> next_node H \<le> k"
    if a: "nodes h3 a = Some nd" "cache nd = PTR k" "is_app h3 a \<or> is_lambda h3 a" for a nd k
  proof (cases "a < next_node H")
    case True
    with bp(4) [OF True] a(1) obtain nd0 where nd0: "nodes H a = Some nd0"
      by (cases "nodes H a") auto
    from oldk [OF nd0] a(3) have o: "old_node H a" by simp
    with bp(3) [OF nd0] a(1,2) show ?thesis by auto
  next
    case False
    with bp(5) [of a] heap_boundedD [OF bp(1) a(1)] a(1,2) show ?thesis by auto
  qed
  have pend_new: "next_node H \<le> k" if "k \<in> pend h3" for k
    using that marked_old by (auto simp: pend_def)
  have new_pend: "k \<in> pend h3"
    if k: "next_node H \<le> k" "nodes h3 k = Some kn" "is_app h3 k \<or> is_lambda h3 k" for k kn
  proof -
    from bp(5) [OF k(1) heap_boundedD [OF bp(1) k(2)]] k(3) obtain a nd where
      a: "old_node H a" "nodes h3 a = Some nd" "cache nd = PTR k" by auto
    from a(1) obtain nd0 where "nodes H a = Some nd0"
      by (auto simp: old_node_def is_app_iff is_lambda_iff)
    from oldk [OF this] a show ?thesis by (auto simp: pend_def)
  qed
  have m: "match_edges (pend h3 \<times> UNIV) h3"
    unfolding match_edges_def
  proof (intro conjI allI impI)
    fix p nd ch t
    assume 1: "nodes h3 p = Some nd" "(p, t) \<notin> pend h3 \<times> UNIV"
      "(ch, t) \<in> set (out_edges (content nd))"
    show "\<exists>cn. nodes h3 ch = Some cn \<and> count_rec p t (uplinks cn) = 1"
    proof (cases "p < next_node H")
      case True
      with bp(4) [OF True] 1(1) obtain nd0 where nd0: "nodes H p = Some nd0"
        by (cases "nodes H p") auto
      from bp(3) [OF nd0] 1(1,3) have "(ch, t) \<in> set (out_edges (content nd0))" by auto
      from uplinks_matchD1 [OF um nd0 this] obtain cn0 where
        cn0: "nodes H ch = Some cn0" "count_rec p t (uplinks cn0) = 1" by blast
      from bp(3) [OF cn0(1)] cn0(2) show ?thesis by auto
    next
      case False
      from 1(3) have "is_app h3 p \<or> is_lambda h3 p"
        using 1(1) by (cases "content nd") (auto simp: is_app_iff is_lambda_iff)
      with new_pend [OF _ 1(1)] False 1(2) show ?thesis by simp
    qed
  next
    fix ch cn u
    assume 2: "nodes h3 ch = Some cn" "u \<in> set (uplinks cn)"
    have lt: "ch < next_node H"
    proof (rule ccontr)
      assume "\<not> ch < next_node H"
      with bp(5) [of ch] heap_boundedD [OF bp(1) 2(1)] 2 show False by auto
    qed
    with bp(4) [OF lt] 2(1) obtain cn0 where cn0: "nodes H ch = Some cn0"
      by (cases "nodes H ch") auto
    from bp(3) [OF cn0] 2 have u0: "u \<in> set (uplinks cn0)" "uplinks cn = uplinks cn0" by auto
    note f = uplinks_matchD2 [OF um cn0 u0(1)]
    from f(1) obtain pn0 where pn0: "nodes H (link u) = Some pn0"
      "(ch, type u) \<in> set (out_edges (content pn0))" by (auto dest: edge_okD)
    from bp(3) [OF pn0(1)] pn0(2) show "edge_ok h3 ch u" by (auto intro: edge_okI)
    from heap_boundedD [OF hb pn0(1)] pend_new [of "link u"]
    show "(link u, type u) \<notin> pend h3 \<times> UNIV" by auto
    from f(2) u0(2) show "count_rec (link u) (type u) (uplinks cn) = 1" by simp
  qed
  show ?thesis
    unfolding clearing_def
  proof (intro conjI allI impI ballI)
    show "match_edges (pend h3 \<times> UNIV) h3" by fact
  next
    fix a a' nd nd' k
    assume 3: "nodes h3 a = Some nd" "nodes h3 a' = Some nd'" "cache nd = PTR k" "cache nd' = PTR k"
      "is_app h3 a \<or> is_lambda h3 a" "is_app h3 a' \<or> is_lambda h3 a'"
    from marked_old [OF 3(1,3,5)] marked_old [OF 3(2,4,6)] bp(6) [OF _ _ 3(1,2,3,4)]
    show "a = a'" by simp
  next
    fix k assume "k \<in> pend h3"
    from pend_new [OF this] have k: "next_node H \<le> k" .
    show "\<not> cached h3 k"
    proof
      assume "cached h3 k"
      then obtain kn where kn: "nodes h3 k = Some kn" "cache kn \<noteq> NULL" by (auto simp: cached_def)
      with bp(5) [OF k heap_boundedD [OF bp(1) kn(1)]] show False by auto
    qed
  qed
qed

lemma covered_marked: "covered h0 h x a \<Longrightarrow> marked h a"
  by (induction rule: covered.induct) auto

lemma covered_old:
  assumes "pass_start fn x h0" "covered h0 h x a"
  shows "old_node h0 a"
  using assms(2) parent_facts(3) [OF assms(1)] by (induction rule: covered.induct) auto

lemma pass_sound:
  assumes s: "sound h" and fn: "nodes h fn = Some fnd" "content fnd = NODE_LAMBDA body var"
    and s1: "set_cache fn STOP h = Inr h1" and u: "upcopy n arg var UPLINK_NA h1 = Inr h2"
    and s3: "set_cache fn NULL h2 = Inr h3" and cl: "clear m var h3 = Inr h4"
  shows "sound h4"
proof -
  note p = pass_copies [OF s fn s1 u]
  note bp = between_passes [OF p(1,2) s3]
  from clear_closes [of m] pass_clearing [OF p(1,2) s3] cl
  have c4: "clearing h4" and g: "grows h3 h4" and pd: "parents_done h4 var 0"
    and cs: "closed_step h3 h4" by blast+
  note kind = grows_kind [OF g]
  note ks = is_kind_cong [OF kind]
  have parent: "\<not> cached h4 (link u)"
    if "nodes h1 a = Some nd1" "u \<in> set (uplinks nd1)" "parents_done h4 a 0" for a nd1 u
  proof -
    from bp(3) [OF that(1)] obtain nd3 where nd3: "nodes h3 a = Some nd3" "uplinks nd3 = uplinks nd1"
      by blast
    from growsD [OF g nd3(1)] nd3(2) obtain nd4 ex where nd4: "nodes h4 a = Some nd4"
      "uplinks nd4 = uplinks nd1 @ ex" by auto
    with that(2) have "u \<in> set (uplinks nd4)" by simp
    then obtain j where "j < length (uplinks nd4)" "uplinks nd4 ! j = u"
      by (auto simp: in_set_conv_nth)
    with that(3) nd4(1) show ?thesis unfolding parents_done_def by auto
  qed
  have fin: "parents_done h4 a 0 \<and>
      (\<forall>b v. kind_of h1 a = Some (NODE_LAMBDA b v) \<longrightarrow> parents_done h4 v 0)"
    if "covered h1 h2 var a" "\<not> cached h4 a" for a
  proof -
    from bp(7) [OF covered_old [OF p(1) that(1)] covered_marked [OF that(1)]]
    have "cached h3 a" .
    with cs that(2) have 1: "parents_done h4 a 0"
      "\<forall>b v. kind_of h3 a = Some (NODE_LAMBDA b v) \<longrightarrow> parents_done h4 v 0"
      unfolding closed_step_def by blast+
    have "kind_of h3 a = kind_of h1 a" if "kind_of h1 a = Some k" for k
      using that bp(3) [of a] by (auto simp: kind_of_def)
    with 1 show ?thesis by auto
  qed
  have cov: "\<not> cached h4 a" if "covered h1 h2 var a" for a
    using that
  proof (induction rule: covered.induct)
    case (base xn u)
    from parent [OF base(1,2) pd] show ?case .
  next
    case (up n nn u)
    from fin [OF up(1) up.IH] parent [OF up(2,3)] show ?case by simp
  next
    case (var n b v vn u)
    from fin [OF var(1) var.IH] var(2) parent [OF var(3,4)] show ?case by simp
  qed
  have b4: "heap_bounded h4"
    unfolding heap_bounded_def
  proof (intro allI impI)
    fix a assume a: "next_node h4 \<le> a"
    show "nodes h4 a = None"
    proof (cases "nodes h4 a")
      case (Some nd4)
      from grows_back [OF g Some] obtain nd3 where "nodes h3 a = Some nd3" by blast
      from heap_boundedD [OF bp(1) this] a grows_next [OF g] show ?thesis by simp
    qed simp
  qed
  have cn: "caches_null h4"
    unfolding caches_null_def
  proof (intro allI impI)
    fix a nd4 assume a: "nodes h4 a = Some nd4" "is_app h4 a \<or> is_lambda h4 a"
    show "cache nd4 = NULL"
    proof (rule ccontr)
      assume "cache nd4 \<noteq> NULL"
      with a(1) have c4a: "cached h4 a" by (auto simp: cached_def)
      with uncached_grows [OF g] have "cached h3 a" by blast
      then obtain nd3 where nd3: "nodes h3 a = Some nd3" "cache nd3 \<noteq> NULL"
        by (auto simp: cached_def)
      have lt: "a < next_node h1"
      proof (rule ccontr)
        assume "\<not> a < next_node h1"
        with bp(5) [of a] heap_boundedD [OF bp(1) nd3(1)] nd3 show False by auto
      qed
      with bp(4) [OF lt] nd3(1) obtain nd1 where nd1: "nodes h1 a = Some nd1"
        by (cases "nodes h1 a") auto
      from bp(3) [OF nd1] nd3(1) have c13: "content nd3 = content nd1" by auto
      from a(2) have "is_app h3 a \<or> is_lambda h3 a" by (simp add: ks)
      with nd3(1) c13 nd1 have o: "old_node h1 a"
        by (auto simp: old_node_def is_app_iff is_lambda_iff)
      with bp(3) [OF nd1] nd3 have "marked h2 a" by auto
      with o p(3) have "covered h1 h2 var a" by (simp add: marks_covered_def)
      from cov [OF this] c4a show False by simp
    qed
  qed
  have "pend h4 = {}"
    using cn unfolding pend_def caches_null_def by auto
  with c4 have "uplinks_match h4" by (simp add: clearing_def match_edges_none)
  moreover from kind_unique_binders [OF bp(8) kind] have "unique_binders h4" .
  moreover from kind_vars_sound [OF bp(9) kind] grows_next [OF g] have "vars_sound h4" by simp
  ultimately show ?thesis using b4 cn by (simp add: sound_def)
qed

subsubsection \<open>The splice, the constructors and the drivers\<close>

lemma kept_refl [simp]: "kept h h"
  by (simp add: kept_def)

lemma kept_trans: "kept h h1 \<Longrightarrow> kept h1 h2 \<Longrightarrow> kept h h2"
  unfolding kept_def by (metis (no_types, lifting))

lemma keptD:
  assumes "kept h h'" "nodes h' a = Some nd'"
  shows "\<exists>nd. nodes h a = Some nd \<and> cache nd' = cache nd \<and> shape (content nd') = shape (content nd)"
  using assms unfolding kept_def by blast

lemma shape_app: "shape c = NODE_APP 0 0 \<longleftrightarrow> (\<exists>l r. c = NODE_APP l r)"
  by (cases c) auto

lemma shape_lambda: "shape c = NODE_LAMBDA 0 v \<longleftrightarrow> (\<exists>b. c = NODE_LAMBDA b v)"
  by (cases c) auto

lemma shape_is_lambda: "shape c = shape (NODE_LAMBDA b v) \<longleftrightarrow> (\<exists>b'. c = NODE_LAMBDA b' v)"
  by (cases c) auto

lemma shape_is_app: "shape c = shape (NODE_APP l r) \<longleftrightarrow> (\<exists>l' r'. c = NODE_APP l' r')"
  by (cases c) auto

lemma unlink_kept: "unlink c p t h = Inr h1 \<Longrightarrow> kept h h1"
  by (auto simp: unlink_eq_Inr kept_def split: if_splits)

lemma add_kept: "add c p t h = Inr h1 \<Longrightarrow> kept h h1"
  by (auto simp: add_eq_Inr kept_def split: if_splits)

lemma set_content_kept:
  assumes "set_content a k h = Inr h1" "nodes h a = Some nd" "shape k = shape (content nd)"
  shows "kept h h1"
  using assms by (auto simp: set_content_eq_Inr kept_def split: if_splits)

lemma cleanup_kept2: "cleanup n x h = Inr h' \<Longrightarrow> kept h h'"
  unfolding kept_def
  using cleanup_kept [of n x h h'] shrinks_next_node [OF cleanup_shrinks, of n x h h']
  by fastforce

lemma upreplace_ptr:
  assumes "upreplace n r into t h = Inr h'"
  shows "\<exists>c. r = PTR c"
proof -
  from assms obtain nd where nd: "nodes h into = Some nd"
    by (auto simp: upreplace_def andthen_eq_Inr)
  with assms show ?thesis
    by (cases r; cases "content nd") (auto simp: upreplace_def andthen_eq_Inr split: if_splits)
qed

lemma upreplace_kept:
  assumes "upreplace n r into t h = Inr h'"
  shows "kept h h'"
proof -
  from assms obtain nd where nd: "nodes h into = Some nd" by (auto simp: upreplace_def andthen_eq_Inr)
  from upreplace_ptr [OF assms] obtain c where rc: "r = PTR c" ..
  show ?thesis
  proof (cases "content nd")
    case (NODE_APP l rr)
    show ?thesis
    proof (cases "t = UPLINK_APPL")
      case True
      with assms nd NODE_APP rc obtain h1 h2 h3 where s: "unlink l into UPLINK_APPL h = Inr h1"
        "r = PTR c" "set_content into (NODE_APP c rr) h1 = Inr h2"
        "add c into UPLINK_APPL h2 = Inr h3" "cleanup n l h3 = Inr h'"
        by (auto simp: upreplace_def andthen_eq_Inr)
      from unlink_content [OF s(1) nd] NODE_APP obtain nd1 where
        nd1: "nodes h1 into = Some nd1" "content nd1 = NODE_APP l rr" by auto
      from set_content_kept [OF s(3) nd1(1)] nd1(2) have "kept h1 h2" by simp
      with unlink_kept [OF s(1)] add_kept [OF s(4)] cleanup_kept2 [OF s(5)]
      show ?thesis by (blast intro: kept_trans)
    next
      case False
      with assms nd NODE_APP rc obtain h1 h2 h3 where s: "unlink rr into UPLINK_APPR h = Inr h1"
        "r = PTR c" "set_content into (NODE_APP l c) h1 = Inr h2"
        "add c into UPLINK_APPR h2 = Inr h3" "cleanup n rr h3 = Inr h'"
        by (auto simp: upreplace_def andthen_eq_Inr)
      from unlink_content [OF s(1) nd] NODE_APP obtain nd1 where
        nd1: "nodes h1 into = Some nd1" "content nd1 = NODE_APP l rr" by auto
      from set_content_kept [OF s(3) nd1(1)] nd1(2) have "kept h1 h2" by simp
      with unlink_kept [OF s(1)] add_kept [OF s(4)] cleanup_kept2 [OF s(5)]
      show ?thesis by (blast intro: kept_trans)
    qed
  next
    case (NODE_LAMBDA b v)
    with assms nd rc obtain h1 h2 h3 where s: "unlink b into UPLINK_NA h = Inr h1"
      "r = PTR c" "set_content into (NODE_LAMBDA c v) h1 = Inr h2"
      "add c into UPLINK_NA h2 = Inr h3" "cleanup n b h3 = Inr h'"
      by (auto simp: upreplace_def andthen_eq_Inr)
    from unlink_content [OF s(1) nd] NODE_LAMBDA obtain nd1 where
      nd1: "nodes h1 into = Some nd1" "content nd1 = NODE_LAMBDA b v" by auto
    from set_content_kept [OF s(3) nd1(1)] nd1(2) have "kept h1 h2" by simp
    with unlink_kept [OF s(1)] add_kept [OF s(4)] cleanup_kept2 [OF s(5)]
    show ?thesis by (blast intro: kept_trans)
  next
    case NODE_VAR
    with assms nd show ?thesis by (auto simp: upreplace_def andthen_eq_Inr)
  next
    case (NODE_PRIM p)
    with assms nd show ?thesis by (auto simp: upreplace_def andthen_eq_Inr)
  qed
qed

lemma replace_uplinks_kept:
  "replace_uplinks n r app cur h = Inr h' \<Longrightarrow> kept h h'"
proof (induction n arbitrary: cur h)
  case 0
  then show ?case by simp
next
  case (Suc n)
  show ?case
  proof (cases cur)
    case None
    with Suc.prems show ?thesis by simp
  next
    case (Some u)
    with Suc.prems obtain an c nexty h1 where
      s: "nodes h app = Some an" "find_uplink u (uplinks an) = Some (c, nexty)"
        "upreplace n r (link c) (type c) h = Inr h1" "replace_uplinks n r app nexty h1 = Inr h'"
      by (auto simp: andthen_eq_Inr split: option.splits)
    from upreplace_kept [OF s(3)] Suc.IH [OF s(4)] show ?thesis by (rule kept_trans)
  qed
qed

lemma replace_uplinks_cases:
  assumes "replace_uplinks n r app cur h = Inr h'"
  shows "h' = h \<or> (\<exists>c. r = PTR c)"
proof (cases n)
  case 0
  with assms show ?thesis by simp
next
  case (Suc m)
  show ?thesis
  proof (cases cur)
    case None
    with assms Suc show ?thesis by simp
  next
    case (Some u)
    with assms Suc obtain c :: Uplink and h1 where "upreplace m r (link c) (type c) h = Inr h1"
      by (auto simp: andthen_eq_Inr split: option.splits)
    from upreplace_ptr [OF this] show ?thesis by simp
  qed
qed

lemma sound_tidy: "sound h \<longleftrightarrow> tidy h \<and> uplinks_match h"
  by (auto simp: sound_def tidy_def)

lemma tidyD:
  assumes "tidy h"
  shows "heap_bounded h" "unique_binders h" "vars_sound h" "caches_null h"
  using assms by (simp_all add: tidy_def)

lemma tidy_kept:
  assumes s: "tidy h" and k: "kept h h'"
  shows "tidy h'"
proof -
  from k have nn: "next_node h' = next_node h" by (simp add: kept_def)
  have b: "heap_bounded h'"
    unfolding heap_bounded_def
  proof (intro allI impI)
    fix a assume a: "next_node h' \<le> a"
    show "nodes h' a = None"
    proof (cases "nodes h' a")
      case (Some nd')
      from keptD [OF k Some] obtain nd where "nodes h a = Some nd" by blast
      from heap_boundedD [OF tidyD(1) [OF s] this] a nn show ?thesis by simp
    qed simp
  qed
  have lam: "\<exists>b0. kind_of h a = Some (NODE_LAMBDA b0 v)" if "kind_of h' a = Some (NODE_LAMBDA b v)"
    for a b v
  proof -
    from that obtain nd' where nd': "nodes h' a = Some nd'" "content nd' = NODE_LAMBDA b v"
      by (auto simp: kind_of_iff)
    from keptD [OF k nd'(1)] nd'(2) obtain nd where "nodes h a = Some nd"
      "shape (content nd) = shape (NODE_LAMBDA b v)" by auto
    then show ?thesis by (auto simp: kind_of_iff shape_lambda)
  qed
  have app: "is_app h a" if "is_app h' a" for a
  proof -
    from that obtain nd' l r where nd': "nodes h' a = Some nd'" "content nd' = NODE_APP l r"
      by (auto simp: is_app_iff)
    from keptD [OF k nd'(1)] nd'(2) obtain nd where "nodes h a = Some nd"
      "shape (content nd) = shape (NODE_APP l r)" by auto
    then show ?thesis by (auto simp: is_app_iff shape_app)
  qed
  have lam2: "is_lambda h a" if "is_lambda h' a" for a
    using that lam [of a] by (auto simp: is_lambda_def split: option.splits NodeUnion.splits)
  have "unique_binders h'"
    unfolding unique_binders_def
  proof (intro allI impI)
    fix a a' b b' v
    assume "kind_of h' a = Some (NODE_LAMBDA b v)" "kind_of h' a' = Some (NODE_LAMBDA b' v)"
    with lam [of a b v] lam [of a' b' v] tidyD(2) [OF s] show "a = a'"
      unfolding unique_binders_def by blast
  qed
  moreover have "vars_sound h'"
    unfolding vars_sound_def
  proof (intro allI impI)
    fix a b v assume "kind_of h' a = Some (NODE_LAMBDA b v)"
    with lam [of a b v] tidyD(3) [OF s] have "v < next_node h \<and> \<not> is_app h v \<and> \<not> is_lambda h v"
      unfolding vars_sound_def by blast
    with app [of v] lam2 [of v] nn show "v < next_node h' \<and> \<not> is_app h' v \<and> \<not> is_lambda h' v"
      by auto
  qed
  moreover have "caches_null h'"
    unfolding caches_null_def
  proof (intro allI impI)
    fix a nd' assume a: "nodes h' a = Some nd'" "is_app h' a \<or> is_lambda h' a"
    from keptD [OF k a(1)] obtain nd where nd: "nodes h a = Some nd" "cache nd' = cache nd" by blast
    from a(2) app lam2 have "is_app h a \<or> is_lambda h a" by blast
    with tidyD(4) [OF s] nd show "cache nd' = NULL" unfolding caches_null_def by auto
  qed
  ultimately show ?thesis using b by (simp add: tidy_def)
qed

lemma sound_kept:
  assumes "sound h" "kept h h'" "uplinks_match h'"
  shows "sound h'"
  using assms tidy_kept [of h h'] by (simp add: sound_tidy)

lemma cleanup_sound:
  assumes "sound h" "cleanup n x h = Inr h'"
  shows "sound h'"
proof -
  from cleanup_match [of "{}" h x n h'] soundD(2) [OF assms(1)] assms(2)
  have "uplinks_match h'" by (simp add: uplinks_match_def)
  from sound_kept [OF assms(1) cleanup_kept2 [OF assms(2)] this] show ?thesis .
qed

lemma replace_uplinks_sound:
  assumes s: "sound h" and r: "replace_uplinks n res app cur h = Inr h'"
  shows "sound h'"
proof -
  from replace_uplinks_cases [OF r] show ?thesis
  proof
    assume "h' = h"
    with s show ?thesis by simp
  next
    assume "\<exists>c. res = PTR c"
    then obtain c where "res = PTR c" ..
    with replace_uplinks_match [OF soundD(2) [OF s]] r have "uplinks_match h'" by blast
    from sound_kept [OF s replace_uplinks_kept [OF r] this] show ?thesis .
  qed
qed

lemma beta_reduce_sound:
  assumes s: "sound h" and r: "beta_reduce n app h = Inr h'"
  shows "sound h'"
proof -
  from r obtain an where an: "nodes h app = Some an"
    by (auto simp: beta_reduce_def andthen_eq_Inr)
  from r an obtain fn arg where ca: "content an = NODE_APP fn arg"
    by (cases "content an") (auto simp: beta_reduce_def andthen_eq_Inr)
  from r an ca obtain fnd where fnd: "nodes h fn = Some fnd"
    by (auto simp: beta_reduce_def andthen_eq_Inr)
  from r an ca fnd obtain body var where cf: "content fnd = NODE_LAMBDA body var"
    by (cases "content fnd") (auto simp: beta_reduce_def andthen_eq_Inr)
  from r an ca fnd cf obtain vn where vn: "nodes h var = Some vn"
    by (auto simp: beta_reduce_def andthen_eq_Inr)
  note a = an ca fnd cf vn
  show ?thesis
  proof (cases "uplinks vn = []")
    case True
    with r a obtain an5 where "replace_uplinks n (PTR body) app (uplinks_head an5) h = Inr h'"
      by (auto simp: beta_reduce_def andthen_eq_Inr)
    from replace_uplinks_sound [OF s this] show ?thesis .
  next
    case False
    with r a obtain h1 h2 bn h3 h4 an5 where
      p: "set_cache fn STOP h = Inr h1" "upcopy n arg var UPLINK_NA h1 = Inr h2"
        "nodes h2 body = Some bn" "set_cache fn NULL h2 = Inr h3" "clear n var h3 = Inr h4"
        "replace_uplinks n (cache bn) app (uplinks_head an5) h4 = Inr h'"
      by (auto simp: beta_reduce_def andthen_eq_Inr)
    from pass_sound [OF s a(3,4) p(1,2,4,5)] have "sound h4" .
    from replace_uplinks_sound [OF this p(6)] show ?thesis .
  qed
qed

lemma match_edges_weaken:
  assumes m: "match_edges E h"
    and no: "\<And>p t nd c. (p, t) \<in> E \<Longrightarrow> (p, t) \<notin> E' \<Longrightarrow> nodes h p = Some nd \<Longrightarrow>
       (c, t) \<notin> set (out_edges (content nd))"
    and sub: "E' \<subseteq> E"
  shows "match_edges E' h"
  unfolding match_edges_def
proof (intro conjI allI impI)
  fix p nd c t
  assume 1: "nodes h p = Some nd" "(p, t) \<notin> E'" "(c, t) \<in> set (out_edges (content nd))"
  with no [of p t nd c] have "(p, t) \<notin> E" by blast
  from match_edgesD1 [OF m 1(1) this 1(3)]
  show "\<exists>cn. nodes h c = Some cn \<and> count_rec p t (uplinks cn) = 1" .
next
  fix c cn u
  assume 2: "nodes h c = Some cn" "u \<in> set (uplinks cn)"
  from match_edgesD2 [OF m 2] sub
  show "edge_ok h c u" "(link u, type u) \<notin> E'"
    "count_rec (link u) (type u) (uplinks cn) = 1" by auto
qed

text \<open>A new node: its edges are not recorded yet.\<close>

lemma new_node_facts:
  assumes n: "new_node X h = (k, h1)"
  shows "k = next_node h" "next_node h1 = Suc (next_node h)" "nodes h1 k = Some X"
    "\<And>a. a \<noteq> k \<Longrightarrow> nodes h1 a = nodes h a"
  using n by (auto simp: new_node_def)

lemma new_node_match:
  assumes m: "uplinks_match h" and hb: "heap_bounded h" and X: "uplinks X = []"
    and n: "new_node X h = (k, h1)"
  shows "match_edges ({k} \<times> UNIV) h1"
proof -
  note f = new_node_facts [OF n]
  from hb f(1) have dead: "nodes h k = None" by (simp add: heap_bounded_def)
  show ?thesis
    unfolding match_edges_def
  proof (intro conjI allI impI)
    fix p nd c t
    assume 1: "nodes h1 p = Some nd" "(p, t) \<notin> {k} \<times> UNIV" "(c, t) \<in> set (out_edges (content nd))"
    then have pk: "p \<noteq> k" by simp
    with 1(1) f(4) have "nodes h p = Some nd" by simp
    from uplinks_matchD1 [OF m this 1(3)] obtain cn where
      cn: "nodes h c = Some cn" "count_rec p t (uplinks cn) = 1" by blast
    with dead have "c \<noteq> k" by auto
    with cn f(4) show "\<exists>cn. nodes h1 c = Some cn \<and> count_rec p t (uplinks cn) = 1" by simp
  next
    fix c cn u
    assume 2: "nodes h1 c = Some cn" "u \<in> set (uplinks cn)"
    with f(3) X have ck: "c \<noteq> k" by auto
    with 2 f(4) have cn: "nodes h c = Some cn" by simp
    note g = uplinks_matchD2 [OF m cn 2(2)]
    from g(1) obtain pn where pn: "nodes h (link u) = Some pn"
      "(c, type u) \<in> set (out_edges (content pn))" by (auto dest: edge_okD)
    with dead have lk: "link u \<noteq> k" by auto
    with pn f(4) show "edge_ok h1 c u" by (auto intro: edge_okI)
    from lk show "(link u, type u) \<notin> {k} \<times> UNIV" by simp
    from g(2) show "count_rec (link u) (type u) (uplinks cn) = 1" .
  qed
qed

lemma new_node_tidy:
  assumes t: "tidy h" and X: "cache X = NULL"
    and lam: "\<And>b v. content X = NODE_LAMBDA b v \<Longrightarrow> free_binder h v"
    and n: "new_node X h = (k, h1)"
  shows "tidy h1"
proof -
  note f = new_node_facts [OF n]
  note hb = tidyD(1) [OF t]
  from hb f(1) have dead: "nodes h k = None" by (simp add: heap_bounded_def)
  have kind: "kind_of h1 a = (if a = k then Some (content X) else kind_of h a)" for a
    using f(3) f(4) [of a] by (auto simp: kind_of_def)
  have kk: "kind_of h k = None" using dead by (simp add: kind_of_def)
  have b1: "heap_bounded h1"
    using hb f unfolding heap_bounded_def by (metis Suc_leD not_less_eq_eq)
  have old: "is_app h1 a = is_app h a \<and> is_lambda h1 a = is_lambda h a" if "a \<noteq> k" for a
    using that kind [of a] by (simp add: is_app_def is_lambda_def)
  have u1: "unique_binders h1"
    unfolding unique_binders_def
  proof (intro allI impI)
    fix a a' b b' v
    assume 1: "kind_of h1 a = Some (NODE_LAMBDA b v)" "kind_of h1 a' = Some (NODE_LAMBDA b' v)"
    show "a = a'"
    proof (cases "a = k \<or> a' = k")
      case True
      show ?thesis
      proof (rule ccontr)
        assume ne: "a \<noteq> a'"
        with True 1 kind consider "content X = NODE_LAMBDA b v" "kind_of h a' = Some (NODE_LAMBDA b' v)"
          | "content X = NODE_LAMBDA b' v" "kind_of h a = Some (NODE_LAMBDA b v)"
          by (auto split: if_splits)
        then show False
          using lam unfolding free_binder_def by cases blast+
      qed
    next
      case False
      with 1 kind tidyD(2) [OF t] show ?thesis unfolding unique_binders_def by auto
    qed
  qed
  have v1: "vars_sound h1"
    unfolding vars_sound_def
  proof (intro allI impI)
    fix a b v
    assume 1: "kind_of h1 a = Some (NODE_LAMBDA b v)"
    have "v < next_node h \<and> \<not> is_app h v \<and> \<not> is_lambda h v"
    proof (cases "a = k")
      case True
      with 1 kind lam [of b v] show ?thesis by (simp add: free_binder_def)
    next
      case False
      with 1 kind tidyD(3) [OF t] show ?thesis unfolding vars_sound_def by auto
    qed
    with f(1,2) old [of v] show "v < next_node h1 \<and> \<not> is_app h1 v \<and> \<not> is_lambda h1 v" by auto
  qed
  have c1: "caches_null h1"
    unfolding caches_null_def
  proof (intro allI impI)
    fix a nd assume a: "nodes h1 a = Some nd" "is_app h1 a \<or> is_lambda h1 a"
    show "cache nd = NULL"
    proof (cases "a = k")
      case True
      with a(1) f(3) X show ?thesis by simp
    next
      case False
      with a f(4) old [OF False] tidyD(4) [OF t] show ?thesis unfolding caches_null_def by auto
    qed
  qed
  from b1 u1 v1 c1 show ?thesis by (simp add: tidy_def)
qed

lemma Var_sound:
  assumes s: "sound h" and r: "Var h = (v, h')"
  shows "sound h'" "free_binder h' v" "is_var h' v"
proof -
  define X where "X = \<lparr>cache = NULL, uplinks = [], content = NODE_VAR\<rparr>"
  from r have n: "new_node X h = (v, h')" by (simp add: Var_def X_def)
  note f = new_node_facts [OF n]
  from s have t: "tidy h" and m: "uplinks_match h" by (simp_all add: sound_tidy)
  from new_node_tidy [OF t _ _ n] have t': "tidy h'" by (simp add: X_def)
  from new_node_match [OF m tidyD(1) [OF t] _ n] have me: "match_edges ({v} \<times> UNIV) h'"
    by (simp add: X_def)
  have "match_edges {} h'"
  proof (rule match_edges_weaken [OF me])
    fix p and t :: UplinkType and nd c
    assume "(p, t) \<in> {v} \<times> UNIV" "nodes h' p = Some nd"
    with f(3) show "(c, t) \<notin> set (out_edges (content nd))" by (auto simp: X_def)
  qed simp
  with t' show "sound h'" by (simp add: sound_tidy match_edges_none)
  show iv: "is_var h' v" using f(3) by (simp add: is_var_iff X_def)
  have "kind_of h' a \<noteq> Some (NODE_LAMBDA b v)" for a b
  proof
    assume 1: "kind_of h' a = Some (NODE_LAMBDA b v)"
    with f(3) have "a \<noteq> v" by (auto simp: kind_of_iff X_def)
    with 1 f(4) have "kind_of h a = Some (NODE_LAMBDA b v)" by (simp add: kind_of_def)
    with tidyD(3) [OF t] f(1) show False unfolding vars_sound_def by fastforce
  qed
  with iv f(1,2) show "free_binder h' v"
    by (auto simp: free_binder_def is_var_iff is_app_iff is_lambda_iff)
qed

lemma Prim_sound:
  assumes s: "sound h" and r: "Prim p h = (v, h')"
  shows "sound h'"
proof -
  define X where "X = \<lparr>cache = NULL, uplinks = [], content = NODE_PRIM p\<rparr>"
  from r have n: "new_node X h = (v, h')" by (simp add: Prim_def X_def)
  note f = new_node_facts [OF n]
  from s have t: "tidy h" and m: "uplinks_match h" by (simp_all add: sound_tidy)
  from new_node_tidy [OF t _ _ n] have t': "tidy h'" by (simp add: X_def)
  from new_node_match [OF m tidyD(1) [OF t] _ n] have me: "match_edges ({v} \<times> UNIV) h'"
    by (simp add: X_def)
  have "match_edges {} h'"
  proof (rule match_edges_weaken [OF me])
    fix p and t :: UplinkType and nd c
    assume "(p, t) \<in> {v} \<times> UNIV" "nodes h' p = Some nd"
    with f(3) show "(c, t) \<notin> set (out_edges (content nd))" by (auto simp: X_def)
  qed simp
  with t' show "sound h'" by (simp add: sound_tidy match_edges_none)
qed

lemma add_content:
  assumes "add c p t h = Inr h1" "nodes h a = Some nd"
  shows "\<exists>nd1. nodes h1 a = Some nd1 \<and> content nd1 = content nd"
  using add_frame [OF assms(1), of a] assms(2) by (cases "nodes h1 a") auto

lemma App_sound:
  assumes s: "sound h" and r: "App l rr h = Inr (a, h')"
  shows "sound h'"
proof -
  define X where "X = \<lparr>cache = NULL, uplinks = [], content = NODE_APP l rr\<rparr>"
  obtain k h1 where n: "new_node X h = (k, h1)" by (cases "new_node X h")
  with r obtain h2 where a: "add l k UPLINK_APPL h1 = Inr h2" "add rr k UPLINK_APPR h2 = Inr h'"
    by (auto simp: App_def X_def andthen_eq_Inr)
  note f = new_node_facts [OF n]
  from s have t: "tidy h" and m: "uplinks_match h" by (simp_all add: sound_tidy)
  from new_node_tidy [OF t _ _ n] have "tidy h1" by (simp add: X_def)
  from tidy_kept [OF tidy_kept [OF this add_kept [OF a(1)]] add_kept [OF a(2)]] have t': "tidy h'" .
  from new_node_match [OF m tidyD(1) [OF t] _ n] have m1: "match_edges ({k} \<times> UNIV) h1"
    by (simp add: X_def)
  from f(3) have k1: "nodes h1 k = Some X" "content X = NODE_APP l rr" by (simp_all add: X_def)
  from add_match [OF m1 k1(1) _ _ a(1)] k1(2)
  have m2: "match_edges ({k} \<times> UNIV - {(k, UPLINK_APPL)}) h2" by simp
  from add_content [OF a(1) k1(1)] k1(2) obtain kn2 where
    k2: "nodes h2 k = Some kn2" "content kn2 = NODE_APP l rr" by auto
  from add_match [OF m2 k2(1) _ _ a(2)] k2(2)
  have m3: "match_edges ({k} \<times> UNIV - {(k, UPLINK_APPL)} - {(k, UPLINK_APPR)}) h'" by simp
  from add_content [OF a(2) k2(1)] k2(2) obtain kn3 where
    k3: "nodes h' k = Some kn3" "content kn3 = NODE_APP l rr" by auto
  have "match_edges {} h'"
  proof (rule match_edges_weaken [OF m3])
    fix p and t :: UplinkType and nd c
    assume "(p, t) \<in> {k} \<times> UNIV - {(k, UPLINK_APPL)} - {(k, UPLINK_APPR)}"
      "nodes h' p = Some nd"
    with k3 show "(c, t) \<notin> set (out_edges (content nd))" by auto
  qed simp
  with t' show ?thesis by (simp add: sound_tidy match_edges_none)
qed

lemma Fun_sound:
  assumes s: "sound h" and fb: "free_binder h var" and r: "Fun var body h = Inr (a, h')"
  shows "sound h'"
proof -
  define X where "X = \<lparr>cache = NULL, uplinks = [], content = NODE_LAMBDA body var\<rparr>"
  obtain k h1 where n: "new_node X h = (k, h1)" by (cases "new_node X h")
  with r have a: "add body k UPLINK_NA h1 = Inr h'"
    by (auto simp: Fun_def X_def andthen_eq_Inr)
  note f = new_node_facts [OF n]
  from s have t: "tidy h" and m: "uplinks_match h" by (simp_all add: sound_tidy)
  from new_node_tidy [OF t _ _ n] fb have "tidy h1" by (simp add: X_def)
  from tidy_kept [OF this add_kept [OF a]] have t': "tidy h'" .
  from new_node_match [OF m tidyD(1) [OF t] _ n] have m1: "match_edges ({k} \<times> UNIV) h1"
    by (simp add: X_def)
  from f(3) have k1: "nodes h1 k = Some X" "content X = NODE_LAMBDA body var"
    by (simp_all add: X_def)
  from add_match [OF m1 k1(1) _ _ a] k1(2)
  have m2: "match_edges ({k} \<times> UNIV - {(k, UPLINK_NA)}) h'" by simp
  from add_content [OF a k1(1)] k1(2) obtain kn2 where
    k2: "nodes h' k = Some kn2" "content kn2 = NODE_LAMBDA body var" by auto
  have "match_edges {} h'"
  proof (rule match_edges_weaken [OF m2])
    fix p and t :: UplinkType and nd c
    assume "(p, t) \<in> {k} \<times> UNIV - {(k, UPLINK_NA)}" "nodes h' p = Some nd"
    with k2 show "(c, t) \<notin> set (out_edges (content nd))" by auto
  qed simp
  with t' show ?thesis by (simp add: sound_tidy match_edges_none)
qed

lemma make_head_sound:
  assumes s: "sound h" and r: "make_head body h = Inr (hd1, h')"
  shows "sound h'"
proof -
  obtain v h1 where v: "Var h = (v, h1)" by (cases "Var h")
  with r obtain d where "Fun v body h1 = Inr (d, h')"
    by (auto simp: make_head_def andthen_eq_Inr)
  from Fun_sound [OF Var_sound(1,2) [OF s v] this] show ?thesis .
qed

lemma copy_head_sound:
  assumes s: "sound h" and r: "copy_head other h = Inr (hd1, h')"
  shows "sound h'"
proof -
  obtain v h1 where v: "Var h = (v, h1)" by (cases "Var h")
  with r obtain d where "Fun v (dummy other) h1 = Inr (d, h')"
    by (auto simp: copy_head_def andthen_eq_Inr)
  from Fun_sound [OF Var_sound(1,2) [OF s v] this] show ?thesis .
qed

lemma free_head_sound:
  assumes "sound h" "free_head n hd1 h = Inr h'"
  shows "sound h'"
  using assms cleanup_sound by (simp add: free_head_def)

lemma prim_reduce_sound:
  assumes s: "sound h" and hk: "hook_sound papply" and r: "prim_reduce papply n app h = Inr (b, h')"
  shows "sound h'"
proof -
  from r obtain an where an: "nodes h app = Some an"
    by (auto simp: prim_reduce_def andthen_eq_Inr)
  from r an obtain fn arg where ca: "content an = NODE_APP fn arg"
    by (cases "content an") (auto simp: prim_reduce_def andthen_eq_Inr)
  from r an ca obtain arghead h1 where mh: "make_head arg h = Inr (arghead, h1)"
    by (auto simp: prim_reduce_def andthen_eq_Inr)
  from r an ca mh obtain fnd where fnd: "nodes h1 fn = Some fnd"
    by (auto simp: prim_reduce_def andthen_eq_Inr)
  from r an ca mh fnd obtain p where cf: "content fnd = NODE_PRIM p"
    by (cases "content fnd") (auto simp: prim_reduce_def andthen_eq_Inr)
  from r an ca mh fnd cf obtain res h2 h3 where
    ap: "papply p arghead h1 = Inr (res, h2)" and fh: "free_head n arghead h2 = Inr h3"
    by (auto simp: prim_reduce_def andthen_eq_Inr)
  note s1 = make_head_sound [OF s mh]
  from hk s1 ap have s2: "sound h2" unfolding hook_sound_def by blast
  note s3 = free_head_sound [OF s2 fh]
  show ?thesis
  proof (cases res)
    case None
    with r an ca mh fnd cf ap fh have "h' = h3" by (auto simp: prim_reduce_def andthen_eq_Inr)
    with s3 show ?thesis by simp
  next
    case (Some p')
    obtain result h4 where pr: "Prim p' h3 = (result, h4)" by (cases "Prim p' h3")
    with r an ca mh fnd cf ap fh Some obtain an4 where
      "replace_uplinks n (PTR result) app (uplinks_head an4) h4 = Inr h'"
      by (auto simp: prim_reduce_def andthen_eq_Inr)
    from replace_uplinks_sound [OF Prim_sound [OF s3 pr] this] show ?thesis .
  qed
qed

lemma hnf_reduce_1_node_sound:
  assumes hk: "hook_sound papply"
  shows "sound h \<Longrightarrow> hnf_reduce_1_node papply n ptr h = Inr (b, h') \<Longrightarrow> sound h'"
proof (induction n arbitrary: ptr h b h')
  case 0
  then show ?case by simp
next
  case (Suc n)
  note s = \<open>sound h\<close> and r = \<open>hnf_reduce_1_node papply (Suc n) ptr h = Inr (b, h')\<close>
  from r obtain nd where nd: "nodes h ptr = Some nd" by (auto simp: andthen_eq_Inr)
  show ?case
  proof (cases "content nd")
    case (NODE_APP l rr)
    with r nd obtain red h1 where 1: "hnf_reduce_1_node papply n l h = Inr (red, h1)"
      by (auto simp: andthen_eq_Inr)
    note s1 = Suc.IH [OF s 1]
    show ?thesis
    proof (cases red)
      case True
      with r nd NODE_APP 1 have "h' = h1" by (auto simp: andthen_eq_Inr)
      with s1 show ?thesis by simp
    next
      case False
      with r nd NODE_APP 1 obtain nd1 where nd1: "nodes h1 ptr = Some nd1"
        by (auto simp: andthen_eq_Inr)
      from r nd NODE_APP 1 False nd1 obtain l1 r1 where c1: "content nd1 = NODE_APP l1 r1"
        by (cases "content nd1") (auto simp: andthen_eq_Inr)
      from r nd NODE_APP 1 False nd1 c1 obtain ln where ln: "nodes h1 l1 = Some ln"
        by (auto simp: andthen_eq_Inr)
      show ?thesis
      proof (cases "content ln")
        case (NODE_APP x y)
        with r nd \<open>content nd = NODE_APP l rr\<close> 1 False nd1 c1 ln have "h' = h1" by (auto simp: andthen_eq_Inr)
        with s1 show ?thesis by simp
      next
        case (NODE_LAMBDA x y)
        with r nd \<open>content nd = NODE_APP l rr\<close> 1 False nd1 c1 ln
        have "beta_reduce n ptr h1 = Inr h'" by (auto simp: andthen_eq_Inr)
        from beta_reduce_sound [OF s1 this] show ?thesis .
      next
        case NODE_VAR
        with r nd \<open>content nd = NODE_APP l rr\<close> 1 False nd1 c1 ln have "h' = h1" by (auto simp: andthen_eq_Inr)
        with s1 show ?thesis by simp
      next
        case (NODE_PRIM p)
        with r nd \<open>content nd = NODE_APP l rr\<close> 1 False nd1 c1 ln
        have "prim_reduce papply n ptr h1 = Inr (b, h')" by (auto simp: andthen_eq_Inr)
        from prim_reduce_sound [OF s1 hk this] show ?thesis .
      qed
    qed
  next
    case (NODE_LAMBDA body var)
    with r nd have "hnf_reduce_1_node papply n body h = Inr (b, h')"
      by (auto simp: andthen_eq_Inr)
    from Suc.IH [OF s this] show ?thesis .
  next
    case NODE_VAR
    with r nd s show ?thesis by (auto simp: andthen_eq_Inr)
  next
    case (NODE_PRIM p)
    with r nd s show ?thesis by (auto simp: andthen_eq_Inr)
  qed
qed

lemma hnf_reduce_1_sound:
  assumes "hook_sound papply" "sound h" "hnf_reduce_1 papply n hd1 h = Inr (b, h')"
  shows "sound h'"
  using hnf_reduce_1_node_sound [OF assms(1,2)] assms(3) by (simp add: hnf_reduce_1_def)

lemma hnf_reduce_sound:
  assumes hk: "hook_sound papply"
  shows "sound h \<Longrightarrow> hnf_reduce papply n hd1 h = Inr h' \<Longrightarrow> sound h'"
proof (induction n arbitrary: h)
  case 0
  then show ?case by simp
next
  case (Suc n)
  from Suc.prems(2) obtain red h1 where 1: "hnf_reduce_1 papply n hd1 h = Inr (red, h1)"
    by (auto simp: andthen_eq_Inr)
  note s1 = hnf_reduce_1_sound [OF hk Suc.prems(1) 1]
  show ?case
  proof (cases red)
    case True
    with Suc.prems(2) 1 have "hnf_reduce papply n hd1 h1 = Inr h'"
      by (auto simp: andthen_eq_Inr)
    from Suc.IH [OF s1 this] show ?thesis .
  next
    case False
    with Suc.prems(2) 1 s1 show ?thesis by (auto simp: andthen_eq_Inr)
  qed
qed

lemma sound_empty: "sound empty_heap"
  by (simp add: sound_def empty_heap_def heap_bounded_def uplinks_match_def match_except_def
      unique_binders_def vars_sound_def caches_null_def kind_of_def)

lemma hook_sound_no_prim: "hook_sound no_prim"
  by (simp add: hook_sound_def no_prim_def)

subsubsection \<open>The stores that the public operations build\<close>

lemma built_sound:
  assumes hk: "hook_sound papply"
  shows "built papply h \<Longrightarrow> sound h"
proof (induction rule: built.induct)
  case built_empty
  show ?case by (rule sound_empty)
next
  case (built_Var h v h')
  then show ?case by (auto dest: Var_sound(1))
next
  case (built_Prim h p v h')
  then show ?case by (auto dest: Prim_sound)
next
  case (built_App h l r a h')
  then show ?case by (auto dest: App_sound)
next
  case (built_Fun h var body a h')
  then show ?case by (auto dest: Fun_sound)
next
  case (built_make_head h body hd1 h')
  then show ?case by (auto dest: make_head_sound)
next
  case (built_copy_head h other hd1 h')
  then show ?case by (auto dest: copy_head_sound)
next
  case (built_free_head h n hd1 h')
  then show ?case by (auto dest: free_head_sound)
next
  case (built_hnf_reduce_1 h n hd1 b h')
  with hnf_reduce_1_sound [OF hk] show ?case by blast
next
  case (built_hnf_reduce h n hd1 h')
  with hnf_reduce_sound [OF hk] show ?case by blast
qed

text \<open>
  C7. After every public operation has returned, the uplink records match the owning
  edges: in every store that calls of \<^verbatim>\<open>Var\<close>, \<^verbatim>\<open>Prim\<close>, \<^verbatim>\<open>App\<close>, \<^verbatim>\<open>Fun\<close>,
  \<^verbatim>\<open>make_head\<close>, \<^verbatim>\<open>copy_head\<close>, \<^verbatim>\<open>free_head\<close>, \<^verbatim>\<open>hnf_reduce_1\<close> and
  \<^verbatim>\<open>hnf_reduce\<close> build from the empty store (\<open>built\<close>; \<^verbatim>\<open>get_prim\<close> writes nothing),
  every owning edge of a live node leads to a live child whose list has exactly one
  record with this parent and this slot, and every record in the list of a live node
  names a live parent that has the node in that slot, and is the only record of the list
  with this parent and this slot (\<open>uplinks_match\<close>). The operations are called with any
  arguments and any fuel, and only a call that returned extends the store; \<^verbatim>\<open>Fun\<close> is
  given a variable that it may bind, as its interface asks (\<open>free_binder\<close>: an address
  handed out that holds no application and no lambda, and that no lambda binds yet). The
  primitive hook is code of the client: it is assumed to keep the invariant \<open>sound\<close>,
  which it does when it works on the graph through the public operations. The proof
  carries \<open>sound\<close> through every operation; in \<^verbatim>\<open>beta_reduce\<close>, through the pass of
  \<^verbatim>\<open>upcopy\<close>, which makes every copy once and leaves its edges without records, the pass
  of \<^verbatim>\<open>clear\<close>, which reaches every copy and installs its records once, and the splice.
  The witness is \<open>s ((\<lambda>x. x) 0)\<close> reduced with the primitive \<open>lazy_succ\<close>, which reduces
  its argument through \<^verbatim>\<open>hnf_reduce_1\<close>.
\<close>

theorem public_operations_keep_uplinks:
  assumes "hook_sound papply" and "built papply h"
  shows "uplinks_match h"
  using built_sound [OF assms] by (simp add: sound_def)

lemma hook_sound_lazy_succ: "hook_sound lazy_succ"
  unfolding hook_sound_def
proof (intro allI impI)
  fix p hd1 h r h'
  assume s: "sound h" and r: "lazy_succ p hd1 h = Inr (r, h')"
  from r obtain g where g: "get_prim hd1 h = Inr g" by (auto simp: lazy_succ_def andthen_eq_Inr)
  show "sound h'"
  proof (cases g)
    case None
    with r g obtain b where "hnf_reduce_1 no_prim 10 hd1 h = Inr (b, h')"
      by (auto simp: lazy_succ_def andthen_eq_Inr)
    from hnf_reduce_1_sound [OF hook_sound_no_prim s this] show ?thesis .
  next
    case (Some q)
    with r g s show ?thesis by (auto simp: lazy_succ_def)
  qed
qed

lemma built_lazy_on_redex: "built papply (snd (projr lazy_on_redex))"
proof -
  have "\<not> isl lazy_on_redex" by code_simp
  then have "lazy_on_redex = Inr (projr lazy_on_redex)" by (rule not_isl_projr)
  then obtain hd1 H where r: "lazy_on_redex = Inr (hd1, H)"
    by (cases "projr lazy_on_redex") auto
  obtain z h1 where 1: "Prim 0 empty_heap = (z, h1)" by (cases "Prim 0 empty_heap")
  obtain x h2 where 2: "Var h1 = (x, h2)" by (cases "Var h1")
  from r 1 2 obtain i h3 where 3: "Fun x x h2 = Inr (i, h3)"
    by (auto simp: lazy_on_redex_def andthen_eq_Inr)
  from r 1 2 3 obtain iz h4 where 4: "App i z h3 = Inr (iz, h4)"
    by (auto simp: lazy_on_redex_def andthen_eq_Inr)
  obtain s h5 where 5: "Prim 100 h4 = (s, h5)" by (cases "Prim 100 h4")
  from r 1 2 3 4 5 obtain t h6 where 6: "App s iz h5 = Inr (t, h6)"
    by (auto simp: lazy_on_redex_def andthen_eq_Inr)
  from r 1 2 3 4 5 6 have 7: "make_head t h6 = Inr (hd1, H)"
    by (auto simp: lazy_on_redex_def)
  note b1 = built_Prim [OF built_empty 1, of papply]
  note b2 = built_Var [OF b1 2]
  note f = Var_sound(2) [OF Prim_sound [OF sound_empty 1] 2]
  note b3 = built_Fun [OF b2 f 3]
  note b7 = built_make_head [OF built_App [OF built_Prim [OF built_App [OF b3 4] 5] 6] 7]
  show ?thesis unfolding r using b7 by simp
qed

theorem public_operations_keep_uplinks_witness:
  "uplinks_match (projr (hnf_reduce lazy_succ 10 (fst (projr lazy_on_redex))
     (snd (projr lazy_on_redex))))"
proof -
  let ?hd = "fst (projr lazy_on_redex)" and ?h = "snd (projr lazy_on_redex)"
  have "\<not> isl (hnf_reduce lazy_succ 10 ?hd ?h)" by code_simp
  then have run: "hnf_reduce lazy_succ 10 ?hd ?h = Inr (projr (hnf_reduce lazy_succ 10 ?hd ?h))"
    by (rule not_isl_projr)
  from public_operations_keep_uplinks [OF hook_sound_lazy_succ
    built_hnf_reduce [OF built_lazy_on_redex run]]
  show ?thesis .
qed

end
